(* ===== verification/Prelude.thy ===== *)
theory Prelude
  imports Main "HOL-Library.Word"
begin

text \<open>
  Shared vocabulary of the development: the machine integers and byte strings of the Rust
  sources, the faults a handler can end with, the conversions between strings, bytes and
  \<open>u32\<close> values that the storage uses, and \<open>str::splitn\<close>. A Rust \<open>String\<close> is
  the sequence of its bytes (an Isabelle \<open>char\<close> is one byte), because the code only ever
  looks at the bytes.
\<close>

unbundle bit_operations_syntax

section \<open>Machine integers and bytes\<close>

type_synonym u8 = "8 word"
type_synonym u32 = "32 word"
type_synonym u64 = "64 word"
type_synonym usize = "64 word"
type_synonym bytes = "u8 list"

text \<open>Rules that evaluate or invert an operation of a component are collected by purpose.\<close>

named_theorems bytes_simps \<open>conversions between strings, bytes and integers\<close>
named_theorems abs_simps \<open>what an operation does to the abstract contents of its component\<close>
named_theorems inv_intros \<open>operations keep the invariant of their component\<close>

section \<open>Faults\<close>

text \<open>
  A panic unwinds the task that runs a handler and leaves the shared state as it was when it
  happened; a \<open>hyper::Error\<close> is what the \<open>?\<close> on \<open>hyper::body::to_bytes\<close> returns;
  \<open>Still_Waiting\<close> is a task that awaits connections that have not been made.
  \<open>Explicit_Panic\<close> is the macro \<open>panic!\<close>.
  Every operation that can end with one returns a sum with the fault on the left.
\<close>

datatype fault =
    Index_Out_Of_Bounds
  | Range_Start_After_End
  | Unwrap_Failed
  | Slice_Length_Mismatch
  | Remainder_By_Zero
  | Hyper_Error
  | Still_Waiting
  | Explicit_Panic

type_synonym 'a result = "fault + 'a"

text \<open>\<open>Result<T, ()>\<close>: the unit on the left is the error.\<close>

type_synonym 'a unit_result = "unit + 'a"

definition unwrap :: "'a unit_result \<Rightarrow> 'a result" where
  "unwrap r = (case r of Inl _ \<Rightarrow> Inl Unwrap_Failed | Inr x \<Rightarrow> Inr x)"

lemma unwrap_Ok [simp]: "unwrap (Inr x) = Inr x"
  by (simp add: unwrap_def)

text \<open>Indexing a \<open>Vec\<close> or slice panics out of range.\<close>

definition index_vec :: "'a list \<Rightarrow> nat \<Rightarrow> 'a result" where
  "index_vec xs i = (if i < length xs then Inr (xs ! i) else Inl Index_Out_Of_Bounds)"

lemma index_vec_Inr_iff: "index_vec xs i = Inr x \<longleftrightarrow> i < length xs \<and> x = xs ! i"
  by (auto simp: index_vec_def)

text \<open>\<open>Iterator::filter_map\<close>.\<close>

fun filter_map :: "('a \<Rightarrow> 'b option) \<Rightarrow> 'a list \<Rightarrow> 'b list" where
  "filter_map f [] = []"
| "filter_map f (x # xs) =
     (case f x of None \<Rightarrow> filter_map f xs | Some y \<Rightarrow> y # filter_map f xs)"

lemma set_filter_map: "set (filter_map f xs) = {y. \<exists>x \<in> set xs. f x = Some y}"
  by (induction xs) (auto split: option.splits)

lemma distinct_filter_map:
  "\<lbrakk>distinct xs; inj_on f {x \<in> set xs. f x \<noteq> None}\<rbrakk> \<Longrightarrow> distinct (filter_map f xs)"
proof (induction xs)
  case Nil
  then show ?case by simp
next
  case (Cons x xs)
  from Cons.prems(2) have "inj_on f {x \<in> set xs. f x \<noteq> None}"
    by (rule inj_on_subset) auto
  with Cons have IH: "distinct (filter_map f xs)" by simp
  have "y \<notin> set (filter_map f xs)" if "f x = Some y" for y
    using Cons.prems that unfolding set_filter_map inj_on_def by force
  with IH show ?case by (auto split: option.splits)
qed

section \<open>Encodings\<close>

text \<open>
  The contract of an encoding that is read back: what \<open>dec\<close> makes of an encoded value of
  the domain. It is interpreted on the score bytes below and on the database keys of the zset
  members in theory \<open>Durability\<close>.
\<close>

locale codec =
  fixes enc :: "'a \<Rightarrow> 'b" and dec :: "'b \<Rightarrow> 'a result" and dom_ok :: "'a \<Rightarrow> bool"
  assumes dec_enc: "dom_ok x \<Longrightarrow> dec (enc x) = Inr x"
begin

lemma enc_inject: "\<lbrakk>dom_ok x; dom_ok y\<rbrakk> \<Longrightarrow> enc x = enc y \<longleftrightarrow> x = y"
  using dec_enc by (metis sum.inject(2))

lemma dec_some: "\<lbrakk>dom_ok x; dec (enc x) = Inr y\<rbrakk> \<Longrightarrow> y = x"
  by (simp add: dec_enc)

end

section \<open>Strings and bytes\<close>

definition as_bytes :: "string \<Rightarrow> bytes" where
  "as_bytes s = map (\<lambda>c. word_of_nat (of_char c)) s"

definition from_utf8_unchecked :: "bytes \<Rightarrow> string" where
  "from_utf8_unchecked bs = map (\<lambda>b. char_of (unat b)) bs"

lemma unat_u8_of_char: "unat (word_of_nat (of_char c) :: u8) = of_char c"
  by (simp add: unsigned_of_nat take_bit_nat_eq_self_iff)

lemma from_utf8_as_bytes [bytes_simps]: "from_utf8_unchecked (as_bytes s) = s"
  by (simp add: from_utf8_unchecked_def as_bytes_def unat_u8_of_char comp_def)

lemma as_bytes_from_utf8 [bytes_simps]: "as_bytes (from_utf8_unchecked bs) = bs"
proof -
  have "unat b mod 256 = unat b" for b :: u8
    using unsigned_less [of b, where ?'a = nat] by simp
  then have "word_of_nat (of_char (char_of (unat b))) = b" for b :: u8
    by simp
  then show ?thesis
    by (simp add: from_utf8_unchecked_def as_bytes_def comp_def map_idI)
qed

lemma as_bytes_inject: "as_bytes s = as_bytes t \<longleftrightarrow> s = t"
  by (metis from_utf8_as_bytes)

lemma from_utf8_inject: "from_utf8_unchecked s = from_utf8_unchecked t \<longleftrightarrow> s = t"
  by (metis as_bytes_from_utf8)

section \<open>Little-endian \<open>u32\<close>\<close>

definition to_le_bytes :: "u32 \<Rightarrow> bytes" where
  "to_le_bytes w = [ucast w, ucast (drop_bit 8 w), ucast (drop_bit 16 w), ucast (drop_bit 24 w)]"

text \<open>
  \<open>buf.copy_from_slice(value)\<close> into a four-byte buffer panics unless the slice has exactly
  four bytes; then \<open>u32::from_le_bytes\<close>.
\<close>

fun read_u32_le :: "bytes \<Rightarrow> u32 result" where
  "read_u32_le [a, b, c, d] =
     Inr (ucast a OR push_bit 8 (ucast b) OR push_bit 16 (ucast c) OR push_bit 24 (ucast d))"
| "read_u32_le _ = Inl Slice_Length_Mismatch"

lemma read_u32_le_to_le_bytes [bytes_simps]: "read_u32_le (to_le_bytes w) = Inr w"
proof -
  have "ucast (ucast w :: u8) OR push_bit 8 (ucast (ucast (drop_bit 8 w) :: u8))
      OR push_bit 16 (ucast (ucast (drop_bit 16 w) :: u8))
      OR push_bit 24 (ucast (ucast (drop_bit 24 w) :: u8)) = w"
    by (rule bit_word_eqI, rename_tac n, case_tac "24 \<le> n"; case_tac "16 \<le> n")
      (auto simp: bit_simps not_less)
  then show ?thesis by (simp add: to_le_bytes_def or.assoc)
qed

interpretation score_bytes: codec to_le_bytes read_u32_le "\<lambda>_. True"
  by unfold_locales (rule read_u32_le_to_le_bytes)

lemma read_u32_le_length: "read_u32_le bs = Inr w \<Longrightarrow> length bs = 4"
  by (induction bs rule: read_u32_le.induct) auto

section \<open>Splitting at a separator\<close>

fun split_first :: "'a \<Rightarrow> 'a list \<Rightarrow> ('a list \<times> 'a list) option" where
  "split_first c [] = None"
| "split_first c (x # xs) =
     (if x = c then Some ([], xs)
      else map_option (\<lambda>(a, b). (x # a, b)) (split_first c xs))"

text \<open>
  \<open>splitn(n, sep)\<close>: at most \<open>n\<close> pieces, the last one with the rest of the input,
  separators included.
\<close>

fun splitn :: "nat \<Rightarrow> 'a \<Rightarrow> 'a list \<Rightarrow> 'a list list" where
  "splitn 0 c s = []"
| "splitn (Suc 0) c s = [s]"
| "splitn (Suc (Suc n)) c s =
     (case split_first c s of
        None \<Rightarrow> [s]
      | Some (a, b) \<Rightarrow> a # splitn (Suc n) c b)"

lemma split_first_sep: "c \<notin> set a \<Longrightarrow> split_first c (a @ c # b) = Some (a, b)"
  by (induction a) auto

lemma split_first_None [simp]: "c \<notin> set a \<Longrightarrow> split_first c a = None"
  by (induction a) auto

lemma split_first_is_None: "split_first c a = None \<longleftrightarrow> c \<notin> set a"
  by (induction a) auto

lemma split_first_Some: "split_first c xs = Some (a, b) \<Longrightarrow> c \<notin> set a \<and> xs = a @ c # b"
proof (induction xs arbitrary: a)
  case (Cons x xs)
  then show ?case by (cases "x = c") auto
qed simp

lemma splitn_sep: "c \<notin> set a \<Longrightarrow> splitn (Suc (Suc n)) c (a @ c # b) = a # splitn (Suc n) c b"
  by (simp add: split_first_sep)

lemma splitn_no_sep: "c \<notin> set a \<Longrightarrow> splitn (Suc n) c a = [a]"
  by (cases n) simp_all

lemma length_splitn_le: "length (splitn n c s) \<le> n"
  by (induction n c s rule: splitn.induct) (auto split: option.splits)

text \<open>\<open>split(sep)\<close>: all pieces, always at least one.\<close>

fun split_all :: "'a \<Rightarrow> 'a list \<Rightarrow> 'a list list" where
  "split_all c [] = [[]]"
| "split_all c (x # xs) =
     (if x = c then [] # split_all c xs
      else (case split_all c xs of [] \<Rightarrow> [[x]] | p # ps \<Rightarrow> (x # p) # ps))"

section \<open>Sums over lists, maps as functions\<close>

lemma sum_list_update_less:
  fixes f :: "'a \<Rightarrow> nat"
  assumes "i < length xs" and "f x < f (xs ! i)"
  shows "sum_list (map f (xs[i := x])) < sum_list (map f xs)"
  using assms
proof (induction xs arbitrary: i)
  case (Cons y xs)
  then show ?case by (cases i) auto
qed simp

lemma fun_upd_eq_iff: "(m(k := x)) k' = y \<longleftrightarrow> (if k' = k then x = y else m k' = y)"
  by auto

end
