(* ===== verification/Libraries.thy ===== *)
theory Libraries
  imports Prelude "HOL-Library.AList" "HOL-Library.Char_ord" "HOL-Library.List_Lexorder"
begin

text \<open>
  The code the program only calls, as parameters of the model: the concurrent hash map of the
  crate \<open>lockfree_cuckoohash\<close> (three instances: keys to values, zset members to scores, zset
  keys to zsets), the \<open>rocksdb\<close> database handle, and the order in which the standard
  library's \<open>HashSet\<close> and \<open>HashMap\<close> iterate. A record holds the operations the program
  calls; \<open>cuckoo_laws\<close>, \<open>rocks_laws\<close> and \<open>iteration_laws\<close> are their documented
  behaviour, the hypothesis \<open>libs_ok\<close> of the theorems that need it. \<open>ref_libs\<close> is a
  concrete instance for witnesses.
\<close>

section \<open>The concurrent hash map\<close>

record ('m, 'v) cuckoo =
  ck_new :: 'm
  ck_get :: "'m \<Rightarrow> string \<Rightarrow> 'v option"
  ck_insert :: "'m \<Rightarrow> string \<Rightarrow> 'v \<Rightarrow> 'm"
  ck_remove :: "'m \<Rightarrow> string \<Rightarrow> 'm \<times> 'v option"
  ck_get_or_insert :: "'m \<Rightarrow> string \<Rightarrow> 'v \<Rightarrow> 'm \<times> 'v"

definition cuckoo_laws :: "('m, 'v) cuckoo \<Rightarrow> bool" where
  "cuckoo_laws C \<longleftrightarrow>
     ck_get C (ck_new C) = Map.empty \<and>
     (\<forall>m k v. ck_get C (ck_insert C m k v) = (ck_get C m)(k \<mapsto> v)) \<and>
     (\<forall>m k. ck_get C (fst (ck_remove C m k)) = (ck_get C m)(k := None)) \<and>
     (\<forall>m k. snd (ck_remove C m k) = ck_get C m k) \<and>
     (\<forall>m k v. ck_get C (fst (ck_get_or_insert C m k v)) =
        (case ck_get C m k of None \<Rightarrow> (ck_get C m)(k \<mapsto> v) | Some _ \<Rightarrow> ck_get C m)) \<and>
     (\<forall>m k v. snd (ck_get_or_insert C m k v) =
        (case ck_get C m k of None \<Rightarrow> v | Some w \<Rightarrow> w))"

lemma cuckoo_facts:
  assumes "cuckoo_laws C"
  shows ck_get_new: "ck_get C (ck_new C) = Map.empty"
    and ck_get_insert: "ck_get C (ck_insert C m k v) = (ck_get C m)(k \<mapsto> v)"
    and ck_get_remove: "ck_get C (fst (ck_remove C m k)) = (ck_get C m)(k := None)"
    and ck_snd_remove: "snd (ck_remove C m k) = ck_get C m k"
    and ck_get_get_or_insert: "ck_get C (fst (ck_get_or_insert C m k w)) =
      (case ck_get C m k of None \<Rightarrow> (ck_get C m)(k \<mapsto> w) | Some _ \<Rightarrow> ck_get C m)"
    and ck_snd_get_or_insert: "snd (ck_get_or_insert C m k w) =
      (case ck_get C m k of None \<Rightarrow> w | Some u \<Rightarrow> u)"
  using assms by (simp_all add: cuckoo_laws_def)

lemmas ck_laws = ck_get_new ck_get_insert ck_get_remove ck_snd_remove
  ck_get_get_or_insert ck_snd_get_or_insert

section \<open>The database\<close>

text \<open>
  A write returns whether it succeeded (the program drops that result); \<open>rdb_scan\<close> is what a
  raw iterator visits from \<open>seek_to_first\<close> until it is no longer valid. Nothing is known of
  the contents after a failed write.
\<close>

record 'db rocksdb =
  rdb_put :: "'db \<Rightarrow> bytes \<Rightarrow> bytes \<Rightarrow> 'db \<times> bool"
  rdb_delete :: "'db \<Rightarrow> bytes \<Rightarrow> 'db \<times> bool"
  rdb_write :: "'db \<Rightarrow> (bytes \<times> bytes) list \<Rightarrow> 'db \<times> bool"
  rdb_scan :: "'db \<Rightarrow> (bytes \<times> bytes) list"

definition rdb_lookup :: "'db rocksdb \<Rightarrow> 'db \<Rightarrow> bytes \<Rightarrow> bytes option" where
  "rdb_lookup R d = map_of (rdb_scan R d)"

definition rocks_laws :: "'db rocksdb \<Rightarrow> bool" where
  "rocks_laws R \<longleftrightarrow>
     (\<forall>d. distinct (map fst (rdb_scan R d))) \<and>
     (\<forall>d k v. snd (rdb_put R d k v) \<longrightarrow>
        rdb_lookup R (fst (rdb_put R d k v)) = (rdb_lookup R d)(k \<mapsto> v)) \<and>
     (\<forall>d k. snd (rdb_delete R d k) \<longrightarrow>
        rdb_lookup R (fst (rdb_delete R d k)) = (rdb_lookup R d)(k := None)) \<and>
     (\<forall>d es. snd (rdb_write R d es) \<longrightarrow>
        rdb_lookup R (fst (rdb_write R d es)) = rdb_lookup R d ++ map_of (rev es))"

text \<open>A database on which no write fails; the durability theorems assume it.\<close>

definition rocks_reliable :: "'db rocksdb \<Rightarrow> bool" where
  "rocks_reliable R \<longleftrightarrow>
     (\<forall>d k v. snd (rdb_put R d k v)) \<and> (\<forall>d k. snd (rdb_delete R d k)) \<and>
     (\<forall>d es. snd (rdb_write R d es))"

lemma rocks_facts:
  assumes "rocks_laws R" and "rocks_reliable R"
  shows rdb_lookup_put: "rdb_lookup R (fst (rdb_put R d k v)) = (rdb_lookup R d)(k \<mapsto> v)"
    and rdb_lookup_delete: "rdb_lookup R (fst (rdb_delete R d k)) = (rdb_lookup R d)(k := None)"
    and rdb_lookup_write: "rdb_lookup R (fst (rdb_write R d es)) = rdb_lookup R d ++ map_of (rev es)"
  using assms by (simp_all add: rocks_laws_def rocks_reliable_def)

lemma rdb_scan_distinct: "rocks_laws R \<Longrightarrow> distinct (map fst (rdb_scan R d))"
  by (simp add: rocks_laws_def)

lemma rdb_scan_lookup:
  "rocks_laws R \<Longrightarrow> (k, v) \<in> set (rdb_scan R d) \<longleftrightarrow> rdb_lookup R d k = Some v"
  by (simp add: rdb_lookup_def rdb_scan_distinct)

section \<open>Iteration order and the bundle\<close>

definition iteration_laws :: "('a set \<Rightarrow> 'a list) \<Rightarrow> bool" where
  "iteration_laws it \<longleftrightarrow> (\<forall>S. finite S \<longrightarrow> set (it S) = S \<and> distinct (it S))"

lemma iteration_set: "\<lbrakk>iteration_laws it; finite S\<rbrakk> \<Longrightarrow> set (it S) = S"
  by (simp add: iteration_laws_def)

lemma iteration_distinct: "\<lbrakk>iteration_laws it; finite S\<rbrakk> \<Longrightarrow> distinct (it S)"
  by (simp add: iteration_laws_def)

record ('kv, 'vs, 'zm, 'db) libs =
  lib_kv :: "('kv, string) cuckoo"
  lib_vs :: "('vs, u32) cuckoo"
  lib_zm :: "('zm, nat) cuckoo"
  lib_db :: "'db rocksdb"
  lib_iter :: "string set \<Rightarrow> string list"
  lib_shards :: "u32 set \<Rightarrow> u32 list"

definition libs_ok :: "('kv, 'vs, 'zm, 'db) libs \<Rightarrow> bool" where
  "libs_ok L \<longleftrightarrow> cuckoo_laws (lib_kv L) \<and> cuckoo_laws (lib_vs L) \<and> cuckoo_laws (lib_zm L) \<and>
     rocks_laws (lib_db L) \<and> iteration_laws (lib_iter L) \<and> iteration_laws (lib_shards L)"

lemma libs_okD:
  assumes "libs_ok L"
  shows "cuckoo_laws (lib_kv L)" "cuckoo_laws (lib_vs L)" "cuckoo_laws (lib_zm L)"
    "rocks_laws (lib_db L)" "iteration_laws (lib_iter L)" "iteration_laws (lib_shards L)"
  using assms by (simp_all add: libs_ok_def)

lemmas kv_laws = ck_laws [OF libs_okD(1)]
lemmas vs_laws = ck_laws [OF libs_okD(2)]
lemmas zm_laws = ck_laws [OF libs_okD(3)]
lemmas db_laws = rdb_lookup_put [OF libs_okD(4)] rdb_lookup_delete [OF libs_okD(4)]
  rdb_lookup_write [OF libs_okD(4)]

section \<open>A concrete instance\<close>

definition fun_cuckoo :: "(string \<Rightarrow> 'v option, 'v) cuckoo" where
  "fun_cuckoo = \<lparr>ck_new = Map.empty, ck_get = (\<lambda>m. m), ck_insert = (\<lambda>m k v. m(k \<mapsto> v)),
     ck_remove = (\<lambda>m k. (m(k := None), m k)),
     ck_get_or_insert = (\<lambda>m k v. case m k of None \<Rightarrow> (m(k \<mapsto> v), v) | Some w \<Rightarrow> (m, w))\<rparr>"

definition list_rocks :: "(bytes \<times> bytes) list rocksdb" where
  "list_rocks = \<lparr>rdb_put = (\<lambda>d k v. (AList.update k v d, True)),
     rdb_delete = (\<lambda>d k. (AList.delete k d, True)),
     rdb_write = (\<lambda>d es. (fold (\<lambda>(k, v). AList.update k v) es d, True)),
     rdb_scan = AList.clearjunk\<rparr>"

type_synonym ref_libs_type =
  "(string \<Rightarrow> string option, string \<Rightarrow> u32 option, string \<Rightarrow> nat option, (bytes \<times> bytes) list) libs"

definition ref_libs :: ref_libs_type where
  "ref_libs = \<lparr>lib_kv = fun_cuckoo, lib_vs = fun_cuckoo, lib_zm = fun_cuckoo, lib_db = list_rocks,
     lib_iter = sorted_list_of_set, lib_shards = sorted_list_of_set\<rparr>"

lemma fun_cuckoo_laws: "cuckoo_laws fun_cuckoo"
  by (auto simp: cuckoo_laws_def fun_cuckoo_def split: option.splits)

lemma fold_update_conv: "map_of (fold (\<lambda>(k, v). AList.update k v) es d) = map_of d ++ map_of (rev es)"
  by (induction es arbitrary: d) (auto simp: update_conv' map_add_def fun_eq_iff split: option.splits)

lemma list_rocks_laws: "rocks_laws list_rocks"
  by (simp add: rocks_laws_def list_rocks_def rdb_lookup_def map_of_clearjunk update_conv'
      delete_conv' fold_update_conv distinct_clearjunk)

lemma list_rocks_reliable: "rocks_reliable list_rocks"
  by (simp add: rocks_reliable_def list_rocks_def)

lemma sorted_list_iteration: "iteration_laws sorted_list_of_set"
  by (simp add: iteration_laws_def)

lemma ref_libs_ok: "libs_ok ref_libs"
  by (simp add: libs_ok_def ref_libs_def fun_cuckoo_laws list_rocks_laws sorted_list_iteration)

lemma ref_libs_reliable: "rocks_reliable (lib_db ref_libs)"
  by (simp add: ref_libs_def list_rocks_reliable)

lemma ref_scan_empty: "rdb_scan (lib_db ref_libs) [] = []"
  by (simp add: ref_libs_def list_rocks_def)

lemmas ref_defs = ref_libs_def fun_cuckoo_def list_rocks_def

end
