(* ===== verification/Dto.thy ===== *)
theory Dto
  imports Libraries
begin

text \<open>
  The request and reply bodies of \<open>dto.rs\<close>. A \<open>ScoreValue\<close> is a one-constructor datatype
  whose selectors are the struct's fields, ordered by score and then value, so that replies can
  be compared with the library's \<open>sort\<close> and \<open>sorted_list_of_set\<close>.
\<close>

record insrt_request =
  ir_key :: string
  ir_value :: string

datatype score_value = Score_Value (sv_score: u32) (sv_value: string)

record score_range =
  min_score :: u32
  max_score :: u32

record update_cluster =
  uc_hosts :: "string list"
  uc_index :: u32

definition kv_pair :: "insrt_request \<Rightarrow> string \<times> string" where
  "kv_pair r = (ir_key r, ir_value r)"

lemma kv_pair_make [simp]: "kv_pair \<lparr>ir_key = k, ir_value = v\<rparr> = (k, v)"
  by (simp add: kv_pair_def)

lemma inj_kv_pair: "inj kv_pair"
  by (rule injI) (simp add: kv_pair_def)

instantiation score_value :: linorder
begin

definition less_eq_score_value :: "score_value \<Rightarrow> score_value \<Rightarrow> bool" where
  "less_eq_score_value a b \<longleftrightarrow>
     sv_score a < sv_score b \<or> (sv_score a = sv_score b \<and> sv_value a \<le> sv_value b)"

definition less_score_value :: "score_value \<Rightarrow> score_value \<Rightarrow> bool" where
  "less_score_value a b \<longleftrightarrow>
     sv_score a < sv_score b \<or> (sv_score a = sv_score b \<and> sv_value a < sv_value b)"

instance
  by standard
    (auto simp: less_eq_score_value_def less_score_value_def intro: score_value.expand)

end

lemma score_le_of_le: "(a::score_value) \<le> b \<Longrightarrow> sv_score a \<le> sv_score b"
  by (auto simp: less_eq_score_value_def)

end
