(* ===== verification/Btree_Map.thy ===== *)
theory Btree_Map
  imports Prelude
begin

text \<open>
  What the zset code uses of \<open>std::collections::BTreeMap\<close>: \<open>entry(k).and_modify(f)\<close>,
  \<open>entry(k).or_insert_with(d)\<close> followed by a mutation of the entry, and iteration over
  \<open>range(lo..=hi)\<close> in ascending key order. A map is its ascending association list. The
  locale \<open>ordered_index\<close> is the interface the zset relies on; it is interpreted here on the
  list operations.
\<close>

section \<open>Operations\<close>

fun bt_get :: "('k::linorder \<times> 'v) list \<Rightarrow> 'k \<Rightarrow> 'v option" where
  "bt_get [] k = None"
| "bt_get ((a, v) # t) k = (if k = a then Some v else bt_get t k)"

fun bt_and_modify :: "'k::linorder \<Rightarrow> ('v \<Rightarrow> 'v) \<Rightarrow> ('k \<times> 'v) list \<Rightarrow> ('k \<times> 'v) list" where
  "bt_and_modify k f [] = []"
| "bt_and_modify k f ((a, v) # t) =
     (if k = a then (a, f v) # t else (a, v) # bt_and_modify k f t)"

fun bt_or_insert_with :: "'k::linorder \<Rightarrow> 'v \<Rightarrow> ('v \<Rightarrow> 'v) \<Rightarrow> ('k \<times> 'v) list \<Rightarrow> ('k \<times> 'v) list" where
  "bt_or_insert_with k d f [] = [(k, f d)]"
| "bt_or_insert_with k d f ((a, v) # t) =
     (if k < a then (k, f d) # (a, v) # t
      else if k = a then (a, f v) # t
      else (a, v) # bt_or_insert_with k d f t)"

text \<open>\<open>range(lo..=hi)\<close> panics when \<open>lo > hi\<close>, as its documentation says.\<close>

definition bt_range :: "'k::linorder \<Rightarrow> 'k \<Rightarrow> ('k \<times> 'v) list \<Rightarrow> ('k \<times> 'v) list result" where
  "bt_range lo hi t =
     (if hi < lo then Inl Range_Start_After_End
      else Inr (filter (\<lambda>(k, _). lo \<le> k \<and> k \<le> hi) t))"

section \<open>The interface\<close>

locale ordered_index =
  fixes empty :: "'m"
    and get :: "'m \<Rightarrow> 'k::linorder \<Rightarrow> 'v option"
    and and_modify :: "'k \<Rightarrow> ('v \<Rightarrow> 'v) \<Rightarrow> 'm \<Rightarrow> 'm"
    and or_insert_with :: "'k \<Rightarrow> 'v \<Rightarrow> ('v \<Rightarrow> 'v) \<Rightarrow> 'm \<Rightarrow> 'm"
    and range_incl :: "'k \<Rightarrow> 'k \<Rightarrow> 'm \<Rightarrow> ('k \<times> 'v) list result"
    and invar :: "'m \<Rightarrow> bool"
  assumes get_empty: "get empty = Map.empty"
    and get_and_modify: "invar m \<Longrightarrow>
      get (and_modify k f m) = (get m)(k := map_option f (get m k))"
    and get_or_insert_with: "invar m \<Longrightarrow>
      get (or_insert_with k d f m) = (get m)(k \<mapsto> f (case get m k of None \<Rightarrow> d | Some v \<Rightarrow> v))"
    and range_panics: "hi < lo \<Longrightarrow> range_incl lo hi m = Inl Range_Start_After_End"
    and range_sorted: "\<lbrakk>invar m; range_incl lo hi m = Inr es\<rbrakk> \<Longrightarrow>
      sorted_wrt (<) (map fst es)"
    and range_entries: "\<lbrakk>invar m; lo \<le> hi\<rbrakk> \<Longrightarrow>
      \<exists>es. range_incl lo hi m = Inr es \<and>
        set es = {(k, v). lo \<le> k \<and> k \<le> hi \<and> get m k = Some v}"
    and invar_empty: "invar empty"
    and invar_and_modify: "invar m \<Longrightarrow> invar (and_modify k f m)"
    and invar_or_insert_with: "invar m \<Longrightarrow> invar (or_insert_with k d f m)"
begin

lemma range_distinct: "\<lbrakk>invar m; range_incl lo hi m = Inr es\<rbrakk> \<Longrightarrow> distinct (map fst es)"
  using range_sorted strict_sorted_iff by blast

lemma range_set:
  "\<lbrakk>invar m; range_incl lo hi m = Inr es\<rbrakk> \<Longrightarrow>
     lo \<le> hi \<and> set es = {(k, v). lo \<le> k \<and> k \<le> hi \<and> get m k = Some v}"
  using range_entries [of m lo hi] range_panics [of hi lo m] by (cases "lo \<le> hi") auto

end

section \<open>The ascending list implements it\<close>

definition bt_inv :: "('k::linorder \<times> 'v) list \<Rightarrow> bool" where
  "bt_inv t \<longleftrightarrow> sorted_wrt (<) (map fst t)"

lemma bt_get_in: "bt_inv t \<Longrightarrow> (k, v) \<in> set t \<longleftrightarrow> bt_get t k = Some v"
  by (induction t) (force simp: bt_inv_def split: if_splits)+

lemma fst_bt_and_modify: "map fst (bt_and_modify k f t) = map fst t"
  by (induction t) auto

lemma set_fst_bt_or_insert_with: "fst ` set (bt_or_insert_with k d f t) = insert k (fst ` set t)"
  by (induction k d f t rule: bt_or_insert_with.induct) (simp_all add: insert_commute)

lemma bt_inv_or_insert_with: "bt_inv t \<Longrightarrow> bt_inv (bt_or_insert_with k d f t)"
proof (induction t)
  case Nil
  then show ?case by (simp add: bt_inv_def)
next
  case (Cons e t)
  obtain a v where "e = (a, v)" by (cases e)
  with Cons show ?case
    using set_fst_bt_or_insert_with [of k d f t] by (auto simp: bt_inv_def)
qed

lemma bt_get_and_modify: "bt_get (bt_and_modify k f t) = (bt_get t)(k := map_option f (bt_get t k))"
  by (induction t) (auto simp: fun_eq_iff)

lemma bt_get_less: "\<lbrakk>bt_inv ((a, v) # t); k < a\<rbrakk> \<Longrightarrow> bt_get t k = None"
  by (induction t) (auto simp: bt_inv_def)

lemma bt_get_or_insert_with:
  "bt_inv t \<Longrightarrow> bt_get (bt_or_insert_with k d f t) =
     (bt_get t)(k \<mapsto> f (case bt_get t k of None \<Rightarrow> d | Some v \<Rightarrow> v))"
proof (induction t)
  case Nil
  then show ?case by (simp add: fun_eq_iff)
next
  case (Cons e t)
  obtain a v where e: "e = (a, v)" by (cases e)
  have "bt_inv t" using Cons.prems by (simp add: bt_inv_def)
  with Cons e bt_get_less [of a v t k] show ?case by (auto simp: fun_eq_iff)
qed

interpretation bt: ordered_index "[]" bt_get bt_and_modify bt_or_insert_with bt_range bt_inv
proof unfold_locales
  show "bt_get [] = Map.empty" by (simp add: fun_eq_iff)
  show "bt_inv []" by (simp add: bt_inv_def)
next
  fix m :: "('k::linorder \<times> 'v) list" and k d and f :: "'v \<Rightarrow> 'v"
  show "bt_get (bt_and_modify k f m) = (bt_get m)(k := map_option f (bt_get m k))"
    by (rule bt_get_and_modify)
  assume "bt_inv m"
  then show "bt_get (bt_or_insert_with k d f m) =
      (bt_get m)(k \<mapsto> f (case bt_get m k of None \<Rightarrow> d | Some v \<Rightarrow> v))"
    and "bt_inv (bt_and_modify k f m)" and "bt_inv (bt_or_insert_with k d f m)"
    by (simp_all add: bt_get_or_insert_with bt_inv_or_insert_with)
      (simp add: bt_inv_def fst_bt_and_modify)
next
  fix m es :: "('k::linorder \<times> 'v) list" and lo hi :: 'k
  show "hi < lo \<Longrightarrow> bt_range lo hi m = Inl Range_Start_After_End"
    by (simp add: bt_range_def)
  assume m: "bt_inv m"
  show "bt_range lo hi m = Inr es \<Longrightarrow> sorted_wrt (<) (map fst es)"
    using m by (auto simp: bt_range_def bt_inv_def sorted_wrt_map sorted_wrt_filter split: if_splits)
  show "lo \<le> hi \<Longrightarrow> \<exists>es. bt_range lo hi m = Inr es \<and>
      set es = {(k, v). lo \<le> k \<and> k \<le> hi \<and> bt_get m k = Some v}"
    using m by (auto simp: bt_range_def bt_get_in)
qed

end
