(* ===== verification/Zset_Memory.thy ===== *)
theory Zset_Memory
  imports Dto Btree_Map
begin

text \<open>
  One sorted set (struct \<open>ZSet\<close> of \<open>storage.rs\<close> and the parts of \<open>zadd_memory\<close>,
  \<open>zrange\<close> and \<open>zrmv\<close> that work on one). It is kept twice: \<open>value_to_score\<close> maps a
  member to its score, \<open>score_to_values\<close> maps a score to the set of its members. The
  invariant \<open>zset_ok\<close> says that the two agree; the abstract value of a zset is the finite map
  from members to scores. Every operation here is one handler running alone; what the
  \<open>RwLock\<close>s around the index do and do not protect is theory \<open>Zset_Race\<close>.
\<close>

section \<open>State and operations\<close>

record 'vs zset =
  value_to_score :: 'vs
  score_to_values :: "(u32 \<times> string set) list"

definition zset_new :: "('vs, u32) cuckoo \<Rightarrow> 'vs zset" where
  "zset_new V = \<lparr>value_to_score = ck_new V, score_to_values = []\<rparr>"

text \<open>
  The two ways the index changes: a member leaves the bucket of its score (the bucket stays,
  possibly empty), a member enters the bucket of a score (created when missing).
\<close>

definition index_remove :: "u32 \<Rightarrow> string \<Rightarrow> (u32 \<times> string set) list \<Rightarrow> (u32 \<times> string set) list" where
  "index_remove score v idx = bt_and_modify score (\<lambda>values. values - {v}) idx"

definition index_add :: "u32 \<Rightarrow> string \<Rightarrow> (u32 \<times> string set) list \<Rightarrow> (u32 \<times> string set) list" where
  "index_add score v idx = bt_or_insert_with score {} (insert v) idx"

definition zset_add :: "('vs, u32) cuckoo \<Rightarrow> 'vs zset \<Rightarrow> score_value \<Rightarrow> 'vs zset" where
  "zset_add V z sv =
     (let v = sv_value sv; new_score = sv_score sv in
      case ck_get V (value_to_score z) v of
        Some score \<Rightarrow>
          (if score \<noteq> new_score
           then z\<lparr>score_to_values := index_add new_score v (index_remove score v (score_to_values z)),
                  value_to_score := ck_insert V (value_to_score z) v new_score\<rparr>
           else z)
      | None \<Rightarrow>
          z\<lparr>value_to_score := ck_insert V (value_to_score z) v new_score,
            score_to_values := index_add new_score v (score_to_values z)\<rparr>)"

text \<open>
  \<open>zset_remove\<close> also returns the score the member had: the caller deletes the member from the
  database only when there was one.
\<close>

definition zset_remove :: "('vs, u32) cuckoo \<Rightarrow> 'vs zset \<Rightarrow> string \<Rightarrow> 'vs zset \<times> u32 option" where
  "zset_remove V z v =
     (case ck_remove V (value_to_score z) v of
        (m, None) \<Rightarrow> (z\<lparr>value_to_score := m\<rparr>, None)
      | (m, Some score) \<Rightarrow>
          (z\<lparr>value_to_score := m, score_to_values := index_remove score v (score_to_values z)\<rparr>,
           Some score))"

definition zset_range ::
    "(string set \<Rightarrow> string list) \<Rightarrow> 'vs zset \<Rightarrow> score_range \<Rightarrow> score_value list result" where
  "zset_range it z r =
     (case bt_range (min_score r) (max_score r) (score_to_values z) of
        Inl e \<Rightarrow> Inl e
      | Inr es \<Rightarrow>
          Inr (concat (map (\<lambda>(score, values). map (Score_Value score) (it values)) es)))"

section \<open>Invariant and abstraction\<close>

definition zset_abs :: "('vs, u32) cuckoo \<Rightarrow> 'vs zset \<Rightarrow> string \<Rightarrow> u32 option" where
  "zset_abs V z = ck_get V (value_to_score z)"

definition index_of :: "(string \<Rightarrow> u32 option) \<Rightarrow> (u32 \<times> string set) list \<Rightarrow> bool" where
  "index_of m idx \<longleftrightarrow> bt_inv idx \<and>
     (\<forall>sc vs. bt_get idx sc = Some vs \<longrightarrow> finite vs) \<and>
     (\<forall>v sc. m v = Some sc \<longleftrightarrow> (\<exists>vs. bt_get idx sc = Some vs \<and> v \<in> vs))"

definition zset_ok :: "('vs, u32) cuckoo \<Rightarrow> 'vs zset \<Rightarrow> bool" where
  "zset_ok V z \<longleftrightarrow> index_of (zset_abs V z) (score_to_values z)"

lemma index_of_empty: "index_of Map.empty []"
  by (simp add: index_of_def bt.invar_empty)

lemma index_of_remove:
  assumes "index_of m idx" and "m v = Some score"
  shows "index_of (m(v := None)) (index_remove score v idx)"
proof -
  have inv: "bt_inv idx" and fin: "\<And>sc vs. bt_get idx sc = Some vs \<Longrightarrow> finite vs"
    and mem: "\<And>v sc. m v = Some sc \<longleftrightarrow> (\<exists>vs. bt_get idx sc = Some vs \<and> v \<in> vs)"
    using assms(1) by (auto simp: index_of_def)
  have get: "bt_get (index_remove score v idx) =
      (bt_get idx)(score := map_option (\<lambda>values. values - {v}) (bt_get idx score))"
    by (simp add: index_remove_def bt.get_and_modify [OF inv])
  have only: "sc = score" if "bt_get idx sc = Some vs" "v \<in> vs" for sc vs
    using that mem [of v sc] assms(2) by auto
  have "(m(v := None)) u = Some sc \<longleftrightarrow>
      (\<exists>vs. bt_get (index_remove score v idx) sc = Some vs \<and> u \<in> vs)" for u sc
    using only [of sc] by (auto simp: get mem)
  moreover have "bt_inv (index_remove score v idx)"
    by (simp add: index_remove_def bt.invar_and_modify [OF inv])
  ultimately show ?thesis
    unfolding index_of_def using fin by (auto simp: get split: if_splits)
qed

lemma index_of_add:
  assumes "index_of m idx" and "m v = None"
  shows "index_of (m(v \<mapsto> score)) (index_add score v idx)"
proof -
  have inv: "bt_inv idx" and fin: "\<And>sc vs. bt_get idx sc = Some vs \<Longrightarrow> finite vs"
    and mem: "\<And>v sc. m v = Some sc \<longleftrightarrow> (\<exists>vs. bt_get idx sc = Some vs \<and> v \<in> vs)"
    using assms(1) by (auto simp: index_of_def)
  have get: "bt_get (index_add score v idx) =
      (bt_get idx)(score \<mapsto> insert v (case bt_get idx score of None \<Rightarrow> {} | Some vs \<Rightarrow> vs))"
    by (simp add: index_add_def bt.get_or_insert_with [OF inv])
  have none: "v \<notin> vs" if "bt_get idx sc = Some vs" for sc vs
    using that mem [of v sc] assms(2) by auto
  have "(m(v \<mapsto> score)) u = Some sc \<longleftrightarrow>
      (\<exists>vs. bt_get (index_add score v idx) sc = Some vs \<and> u \<in> vs)" for u sc
    using none [of sc] by (auto simp: get mem split: option.splits)
  moreover have "bt_inv (index_add score v idx)"
    by (simp add: index_add_def bt.invar_or_insert_with [OF inv])
  ultimately show ?thesis
    unfolding index_of_def using fin by (auto simp: get split: if_splits option.splits)
qed

section \<open>What the operations do\<close>

lemma zset_new_ok: "cuckoo_laws V \<Longrightarrow> zset_ok V (zset_new V)"
  by (simp add: zset_ok_def zset_abs_def zset_new_def ck_laws index_of_empty)

lemma zset_abs_new [abs_simps]: "cuckoo_laws V \<Longrightarrow> zset_abs V (zset_new V) = Map.empty"
  by (simp add: zset_abs_def zset_new_def ck_laws)

lemma zset_abs_add [abs_simps]:
  "cuckoo_laws V \<Longrightarrow> zset_abs V (zset_add V z sv) = (zset_abs V z)(sv_value sv \<mapsto> sv_score sv)"
  by (auto simp: zset_abs_def zset_add_def ck_laws Let_def fun_eq_iff split: option.splits)

lemma zset_abs_remove [abs_simps]:
  assumes "cuckoo_laws V"
  shows "zset_abs V (fst (zset_remove V z v)) = (zset_abs V z)(v := None)"
    and "snd (zset_remove V z v) = zset_abs V z v"
  using ck_get_remove [OF assms, of "value_to_score z" v] ck_snd_remove [OF assms, of "value_to_score z" v]
  by (auto simp: zset_abs_def zset_remove_def split: prod.splits option.splits)

lemma zset_add_ok [inv_intros]:
  assumes V: "cuckoo_laws V" and ok: "zset_ok V z"
  shows "zset_ok V (zset_add V z sv)"
proof (cases "zset_abs V z (sv_value sv)")
  case None
  with ok have "index_of ((zset_abs V z)(sv_value sv \<mapsto> sv_score sv))
      (index_add (sv_score sv) (sv_value sv) (score_to_values z))"
    by (simp add: zset_ok_def index_of_add)
  with None show ?thesis
    by (simp add: zset_ok_def zset_abs_add [OF V]) (simp add: zset_add_def zset_abs_def Let_def)
next
  case (Some score)
  show ?thesis
  proof (cases "score = sv_score sv")
    case True
    with Some ok show ?thesis by (simp add: zset_add_def zset_abs_def)
  next
    case False
    have "index_of ((zset_abs V z)(sv_value sv := None))
        (index_remove score (sv_value sv) (score_to_values z))"
      using ok Some by (simp add: zset_ok_def index_of_remove)
    from index_of_add [OF this, of "sv_value sv" "sv_score sv"]
    have "index_of ((zset_abs V z)(sv_value sv \<mapsto> sv_score sv))
        (index_add (sv_score sv) (sv_value sv)
          (index_remove score (sv_value sv) (score_to_values z)))"
      by simp
    with Some False show ?thesis
      by (simp add: zset_ok_def zset_abs_add [OF V]) (simp add: zset_add_def zset_abs_def Let_def)
  qed
qed

lemma zset_remove_ok [inv_intros]:
  assumes V: "cuckoo_laws V" and ok: "zset_ok V z"
  shows "zset_ok V (fst (zset_remove V z v))"
proof (cases "zset_abs V z v")
  case None
  then have "(zset_abs V z)(v := None) = zset_abs V z"
    by (simp add: fun_upd_idem)
  moreover have "snd (ck_remove V (value_to_score z) v) = None"
    using None by (simp add: ck_snd_remove [OF V] zset_abs_def)
  ultimately show ?thesis
    using ok by (simp add: zset_ok_def zset_abs_remove [OF V])
      (auto simp: zset_remove_def split: prod.splits option.splits)
next
  case (Some score)
  with ok have "index_of ((zset_abs V z)(v := None)) (index_remove score v (score_to_values z))"
    by (simp add: zset_ok_def index_of_remove)
  moreover have "snd (ck_remove V (value_to_score z) v) = Some score"
    using Some by (simp add: ck_snd_remove [OF V] zset_abs_def)
  ultimately show ?thesis
    by (simp add: zset_ok_def zset_abs_remove [OF V])
      (auto simp: zset_remove_def split: prod.splits option.splits)
qed

section \<open>Range queries\<close>

text \<open>The range of scores from \<open>min_score\<close> to \<open>max_score\<close>, both included.\<close>

definition in_range :: "score_range \<Rightarrow> u32 \<Rightarrow> bool" where
  "in_range r score \<longleftrightarrow> min_score r \<le> score \<and> score \<le> max_score r"

definition range_answer :: "(string \<Rightarrow> u32 option) \<Rightarrow> score_range \<Rightarrow> score_value set" where
  "range_answer m r = {sv. m (sv_value sv) = Some (sv_score sv) \<and> in_range r (sv_score sv)}"

abbreviation flatten_buckets ::
    "(string set \<Rightarrow> string list) \<Rightarrow> (u32 \<times> string set) list \<Rightarrow> score_value list" where
  "flatten_buckets it es \<equiv> concat (map (\<lambda>(score, values). map (Score_Value score) (it values)) es)"

lemma set_flatten_buckets:
  "set (flatten_buckets it es) =
     {sv. \<exists>vs. (sv_score sv, vs) \<in> set es \<and> sv_value sv \<in> set (it vs)}"
  by (force simp: image_iff)

lemma flatten_buckets_sorted:
  assumes "sorted_wrt (<) (map fst es)" and "\<And>sc vs. (sc, vs) \<in> set es \<Longrightarrow> distinct (it vs)"
  shows "sorted (map sv_score (flatten_buckets it es)) \<and> distinct (flatten_buckets it es)"
  using assms
proof (induction es)
  case Nil
  then show ?case by simp
next
  case (Cons e es)
  obtain sc vs where e: "e = (sc, vs)" by (cases e)
  have IH: "sorted (map sv_score (flatten_buckets it es))" "distinct (flatten_buckets it es)"
    using Cons by auto
  have later: "sc < sv_score sv" if "sv \<in> set (flatten_buckets it es)" for sv
    using that Cons.prems(1) e by (force simp: set_flatten_buckets)
  have "distinct (it vs)" using Cons.prems(2) e by auto
  then have "distinct (map (Score_Value sc) (it vs))"
    by (auto simp: distinct_map inj_on_def)
  moreover have "sorted (map sv_score (map (Score_Value sc) (it vs)))"
    by (simp add: comp_def sorted_iff_nth_mono)
  moreover have "sv \<notin> set (flatten_buckets it es)" if "sv \<in> set (map (Score_Value sc) (it vs))" for sv
    using later [of sv] that by (auto simp del: set_concat)
  then have "set (map (Score_Value sc) (it vs)) \<inter> set (flatten_buckets it es) = {}"
    by blast
  ultimately show ?case
    using IH later by (auto simp: e sorted_append simp del: map_map set_concat dest: less_imp_le)
qed

lemma zset_range_panics: "zset_range it z r = Inl e \<longleftrightarrow> max_score r < min_score r \<and> e = Range_Start_After_End"
  by (auto simp: zset_range_def bt_range_def)

lemma zset_range_answer:
  assumes "zset_ok V z" and it: "iteration_laws it" and rs: "zset_range it z r = Inr rs"
  shows "set rs = range_answer (zset_abs V z) r" and "distinct rs"
    and "sorted (map sv_score rs)"
proof -
  have inv: "bt_inv (score_to_values z)"
    and fin: "\<And>sc vs. bt_get (score_to_values z) sc = Some vs \<Longrightarrow> finite vs"
    and mem: "\<And>v sc. zset_abs V z v = Some sc \<longleftrightarrow>
      (\<exists>vs. bt_get (score_to_values z) sc = Some vs \<and> v \<in> vs)"
    using assms(1) by (auto simp: zset_ok_def index_of_def)
  from rs obtain es where es: "bt_range (min_score r) (max_score r) (score_to_values z) = Inr es"
    and rs_eq: "rs = flatten_buckets it es"
    by (auto simp: zset_range_def split: sum.splits)
  have in_es: "(sc, vs) \<in> set es \<longleftrightarrow> in_range r sc \<and> bt_get (score_to_values z) sc = Some vs" for sc vs
    using bt.range_set [OF inv es] by (auto simp: in_range_def)
  show "set rs = range_answer (zset_abs V z) r"
    using fin by (auto simp: rs_eq set_flatten_buckets in_es mem range_answer_def
        iteration_set [OF it] simp del: set_concat)
  have "distinct (it vs)" if "(sc, vs) \<in> set es" for sc vs
    using that fin by (auto simp: in_es intro: iteration_distinct [OF it])
  from flatten_buckets_sorted [OF bt.range_sorted [OF inv es] this]
  show "distinct rs" and "sorted (map sv_score rs)"
    by (simp_all add: rs_eq)
qed

section \<open>Properties\<close>

datatype zset_op = Z_add score_value | Z_remove string

fun zset_exec :: "('vs, u32) cuckoo \<Rightarrow> zset_op \<Rightarrow> 'vs zset \<Rightarrow> 'vs zset" where
  "zset_exec V (Z_add sv) z = zset_add V z sv"
| "zset_exec V (Z_remove v) z = fst (zset_remove V z v)"

fun zset_exec_abs :: "zset_op \<Rightarrow> (string \<Rightarrow> u32 option) \<Rightarrow> string \<Rightarrow> u32 option" where
  "zset_exec_abs (Z_add sv) m = m(sv_value sv \<mapsto> sv_score sv)"
| "zset_exec_abs (Z_remove v) m = m(v := None)"

lemma zset_exec_run:
  "\<lbrakk>cuckoo_laws V; zset_ok V z\<rbrakk> \<Longrightarrow> zset_ok V (fold (zset_exec V) ops z) \<and>
     zset_abs V (fold (zset_exec V) ops z) = fold zset_exec_abs ops (zset_abs V z)"
proof (induction ops arbitrary: z)
  case (Cons opr ops)
  then show ?case by (cases opr) (simp_all add: inv_intros abs_simps)
qed simp

text \<open>
  C16. After any sequence of additions and removals on a new sorted set, the index by score and
  the map from members to scores agree, every bucket of the index is finite and its scores are
  strictly ascending; the map is the one the sequence makes of the empty map, the last score of a
  member winning.
\<close>

theorem zset_history:
  assumes "cuckoo_laws V"
  shows "zset_ok V (fold (zset_exec V) ops (zset_new V)) \<and>
    zset_abs V (fold (zset_exec V) ops (zset_new V)) = fold zset_exec_abs ops Map.empty"
  using zset_exec_run [OF assms zset_new_ok [OF assms], of ops] by (simp add: abs_simps assms)

theorem zset_history_witness:
  "zset_ok fun_cuckoo (fold (zset_exec fun_cuckoo)
      [Z_add (Score_Value 5 ''a''), Z_add (Score_Value 7 ''b''), Z_add (Score_Value 9 ''a''), Z_remove ''b'']
      (zset_new fun_cuckoo)) \<and>
    fold zset_exec_abs
      [Z_add (Score_Value 5 ''a''), Z_add (Score_Value 7 ''b''), Z_add (Score_Value 9 ''a''), Z_remove ''b'']
      Map.empty ''a'' = Some 9"
  using zset_history [OF fun_cuckoo_laws, of "[Z_add (Score_Value 5 ''a''), Z_add (Score_Value 7 ''b''),
    Z_add (Score_Value 9 ''a''), Z_remove ''b'']"]
  by simp

text \<open>
  C17. A range query on a consistent sorted set returns every member whose score lies in the
  range, both ends included, once, with its score, in ascending order of scores; if the range's
  lower end exceeds the upper one it panics instead, whatever the set holds.
\<close>

theorem zset_range_exact:
  assumes "zset_ok V z" and "iteration_laws it"
  shows "if max_score r < min_score r then zset_range it z r = Inl Range_Start_After_End
    else \<exists>rs. zset_range it z r = Inr rs \<and> set rs = range_answer (zset_abs V z) r \<and>
      distinct rs \<and> sorted (map sv_score rs)"
proof (cases "max_score r < min_score r")
  case True
  then show ?thesis by (simp add: zset_range_panics)
next
  case False
  then obtain rs where "zset_range it z r = Inr rs"
    using zset_range_panics [of it z r] by (cases "zset_range it z r") auto
  with False zset_range_answer [OF assms this] show ?thesis by auto
qed

definition sample_zset :: "(string \<Rightarrow> u32 option) zset" where
  "sample_zset = zset_add fun_cuckoo (zset_add fun_cuckoo (zset_new fun_cuckoo) (Score_Value 5 ''a''))
     (Score_Value 7 ''b'')"

lemma sample_zset_ok: "zset_ok fun_cuckoo sample_zset"
  by (simp add: sample_zset_def zset_add_ok zset_new_ok fun_cuckoo_laws)

theorem zset_range_exact_witness:
  "zset_range sorted_list_of_set sample_zset \<lparr>min_score = 6, max_score = 5\<rparr> = Inl Range_Start_After_End \<and>
   (\<exists>rs. zset_range sorted_list_of_set sample_zset \<lparr>min_score = 6, max_score = 9\<rparr> = Inr rs \<and>
      set rs = {Score_Value 7 ''b''})"
proof -
  have "range_answer (zset_abs fun_cuckoo sample_zset) \<lparr>min_score = 6, max_score = 9\<rparr> = {Score_Value 7 ''b''}"
    by (auto simp: range_answer_def in_range_def sample_zset_def abs_simps fun_cuckoo_laws
        split: if_splits) (auto intro: score_value.expand)
  then show ?thesis
    using zset_range_exact [OF sample_zset_ok sorted_list_iteration, of "\<lparr>min_score = 6, max_score = 5\<rparr>"]
      zset_range_exact [OF sample_zset_ok sorted_list_iteration, of "\<lparr>min_score = 6, max_score = 9\<rparr>"]
    by auto
qed

end
