(* ===== verification/Hashing.thy ===== *)
theory Hashing
  imports Prelude
begin

text \<open>
  Key placement (\<open>hash_key\<close> and \<open>get_shard\<close> of \<open>storage.rs\<close>). The standard
  library's \<open>DefaultHasher::new()\<close> is SipHash-1-3 with both key words zero, run over the
  bytes the value's \<open>Hash\<close> implementation feeds it. A \<open>str\<close> or \<open>String\<close> feeds its
  bytes and the byte \<open>0xff\<close>; a byte slice feeds its length as eight little-endian bytes and
  then its bytes. Both kinds of key reach \<open>get_shard\<close>: the request handlers pass strings, the
  loader of \<open>handle_init\<close> passes slices.
\<close>

section \<open>SipHash-1-3\<close>

type_synonym sip_state = "u64 \<times> u64 \<times> u64 \<times> u64"

definition rotate_left :: "nat \<Rightarrow> u64 \<Rightarrow> u64" where
  "rotate_left n x = push_bit n x OR drop_bit (64 - n) x"

definition sip_mix :: "nat \<Rightarrow> u64 \<Rightarrow> u64 \<Rightarrow> u64 \<times> u64" where
  "sip_mix r a b = (a + b, rotate_left r b XOR (a + b))"

fun sip_round :: "sip_state \<Rightarrow> sip_state" where
  "sip_round (v0, v1, v2, v3) =
     (case sip_mix 13 v0 v1 of (v0, v1) \<Rightarrow>
      case sip_mix 16 v2 v3 of (v2, v3) \<Rightarrow>
      case sip_mix 21 (rotate_left 32 v0) v3 of (v0, v3) \<Rightarrow>
      case sip_mix 17 v2 v1 of (v2, v1) \<Rightarrow> (v0, v1, rotate_left 32 v2, v3))"

definition sip_init :: sip_state where
  "sip_init = (0x736f6d6570736575, 0x646f72616e646f6d, 0x6c7967656e657261, 0x7465646279746573)"

fun sip_word :: "bytes \<Rightarrow> u64" where
  "sip_word [] = 0"
| "sip_word (b # bs) = ucast b OR push_bit 8 (sip_word bs)"

fun sip_xor3 :: "u64 \<Rightarrow> sip_state \<Rightarrow> sip_state" where
  "sip_xor3 m (v0, v1, v2, v3) = (v0, v1, v2, v3 XOR m)"

fun sip_xor0 :: "u64 \<Rightarrow> sip_state \<Rightarrow> sip_state" where
  "sip_xor0 m (v0, v1, v2, v3) = (v0 XOR m, v1, v2, v3)"

fun sip_xor2 :: "u64 \<Rightarrow> sip_state \<Rightarrow> sip_state" where
  "sip_xor2 m (v0, v1, v2, v3) = (v0, v1, v2 XOR m, v3)"

fun sip_fold :: "sip_state \<Rightarrow> u64" where
  "sip_fold (v0, v1, v2, v3) = v0 XOR v1 XOR v2 XOR v3"

definition sip_block :: "sip_state \<Rightarrow> u64 \<Rightarrow> sip_state" where
  "sip_block v m = sip_xor0 m (sip_round (sip_xor3 m v))"

fun sip_blocks :: "sip_state \<Rightarrow> bytes \<Rightarrow> sip_state \<times> bytes" where
  "sip_blocks v (b0 # b1 # b2 # b3 # b4 # b5 # b6 # b7 # bs) =
     sip_blocks (sip_block v (sip_word [b0, b1, b2, b3, b4, b5, b6, b7])) bs"
| "sip_blocks v bs = (v, bs)"

text \<open>The last block holds the remaining bytes and, in its top byte, the length mod 256.\<close>

definition siphash13 :: "bytes \<Rightarrow> u64" where
  "siphash13 bs = (case sip_blocks sip_init bs of (v, rest) \<Rightarrow>
     sip_fold (sip_round (sip_round (sip_round (sip_xor2 0xff
       (sip_block v (push_bit 56 (word_of_nat (length bs)) OR sip_word rest)))))))"

section \<open>\<open>hash_key\<close> and \<open>get_shard\<close>\<close>

datatype hashable = Hash_str string | Hash_slice bytes

definition usize_le_bytes :: "usize \<Rightarrow> bytes" where
  "usize_le_bytes n = map (\<lambda>i. ucast (drop_bit (8 * i) n)) [0..<8]"

fun hash_feed :: "hashable \<Rightarrow> bytes" where
  "hash_feed (Hash_str s) = as_bytes s @ [0xff]"
| "hash_feed (Hash_slice bs) = usize_le_bytes (word_of_nat (length bs)) @ bs"

definition hash_key :: "hashable \<Rightarrow> u64" where
  "hash_key key = siphash13 (hash_feed key)"

definition get_shard :: "hashable \<Rightarrow> u64 \<Rightarrow> usize" where
  "get_shard key count = (if count = 0 then 0 else hash_key key mod count)"

text \<open>The handlers compare \<open>get_shard(..) as u32\<close> with the node's own index.\<close>

definition shard_u32 :: "hashable \<Rightarrow> u64 \<Rightarrow> u32" where
  "shard_u32 key count = ucast (get_shard key count)"

lemma get_shard_less: "count \<noteq> 0 \<Longrightarrow> get_shard key count < count"
  by (simp add: get_shard_def word_mod_less_divisor word_gt_0)

lemma shard_u32_zero [simp]: "shard_u32 key 0 = 0"
  by (simp add: shard_u32_def get_shard_def)

lemma unat_shard_u32:
  assumes "0 < n" and "n < 2 ^ 32"
  shows "unat (shard_u32 key (word_of_nat n)) = unat (hash_key key) mod n"
proof -
  have n: "unat (word_of_nat n :: u64) = n" and nz: "(word_of_nat n :: u64) \<noteq> 0"
    using assms by (auto simp: unsigned_of_nat take_bit_nat_eq_self_iff word_of_nat_eq_0_iff dest: nat_dvd_not_less)
  have "unat (hash_key key mod word_of_nat n) = unat (hash_key key) mod n"
    by (simp add: unat_mod n)
  moreover have "unat (hash_key key) mod n < 2 ^ 32"
    using assms by (meson mod_less_divisor order.strict_trans)
  ultimately show ?thesis
    by (simp add: shard_u32_def get_shard_def nz unsigned_ucast_eq take_bit_nat_eq_self_iff)
qed

end
