(* ===== verification/Peer_Pool.thy ===== *)
theory Peer_Pool
  imports Prelude "HOL-Library.Multiset"
begin

text \<open>
  The connections to the other nodes (\<open>PeerClientQueue\<close> and \<open>PeerClientPool\<close> of
  \<open>storage.rs\<close>). A connection stands for the \<open>Arc<CachePeerClient>\<close> the crate \<open>tarpc\<close>
  returns: the address it is connected to and its position in the queue. Connecting retries for
  ever; the model takes the outcomes of the connection attempts in order, and \<open>None\<close> says that
  the code is still waiting after all of them.
\<close>

section \<open>One queue\<close>

type_synonym client = "string \<times> nat"

record peer_client_queue =
  q_addr :: string
  q_clients :: "client list"
  q_capacity :: usize
  q_next :: usize

text \<open>The two nested loops of \<open>PeerClientQueue::new\<close>: a failed attempt is repeated.\<close>

fun connect_clients :: "string \<Rightarrow> nat \<Rightarrow> client list \<Rightarrow> bool list \<Rightarrow> (client list \<times> bool list) option" where
  "connect_clients addr capacity clients [] =
     (if length clients < capacity then None else Some (clients, []))"
| "connect_clients addr capacity clients (connected # later) =
     (if length clients < capacity
      then connect_clients addr capacity
             (if connected then clients @ [(addr, length clients)] else clients) later
      else Some (clients, connected # later))"

definition queue_new :: "string \<Rightarrow> usize \<Rightarrow> bool list \<Rightarrow> (peer_client_queue \<times> bool list) option" where
  "queue_new addr capacity attempts =
     (case connect_clients addr (unat capacity) [] attempts of
        None \<Rightarrow> None
      | Some (clients, later) \<Rightarrow>
          Some (\<lparr>q_addr = addr, q_clients = clients, q_capacity = capacity, q_next = 0\<rparr>, later))"

text \<open>
  \<open>fetch_add\<close> wraps around; the remainder by a zero capacity and an index past the clients
  would panic. The \<open>Result\<close> is always \<open>Ok\<close>.
\<close>

definition queue_get_client :: "peer_client_queue \<Rightarrow> peer_client_queue \<times> client unit_result result" where
  "queue_get_client q =
     (q\<lparr>q_next := q_next q + 1\<rparr>,
      if q_capacity q = 0 then Inl Remainder_By_Zero
      else case index_vec (q_clients q) (unat (q_next q mod q_capacity q)) of
             Inl e \<Rightarrow> Inl e
           | Inr c \<Rightarrow> Inr (Inr c))"

section \<open>The pool\<close>

definition peer_port :: string where
  "peer_port = '':58080''"

definition pool_capacity :: usize where
  "pool_capacity = 16"

fun pool_new ::
    "(string \<Rightarrow> string option) \<Rightarrow> string list \<Rightarrow> bool list \<Rightarrow> peer_client_queue list result option" where
  "pool_new parse [] attempts = Some (Inr [])"
| "pool_new parse (p # peers) attempts =
     (case parse (p @ peer_port) of
        None \<Rightarrow> Some (Inl Unwrap_Failed)
      | Some addr \<Rightarrow>
          (case queue_new addr pool_capacity attempts of
             None \<Rightarrow> None
           | Some (q, later) \<Rightarrow>
               (case pool_new parse peers later of
                  Some (Inr qs) \<Rightarrow> Some (Inr (q # qs))
                | r \<Rightarrow> r)))"

definition pool_get_client ::
    "peer_client_queue list \<Rightarrow> nat \<Rightarrow> peer_client_queue list \<times> client unit_result result" where
  "pool_get_client pool idx =
     (if idx < length pool
      then (case queue_get_client (pool ! idx) of (q, r) \<Rightarrow> (pool[idx := q], r))
      else (pool, Inl Index_Out_Of_Bounds))"

section \<open>Well-formed queues\<close>

definition queue_ok :: "peer_client_queue \<Rightarrow> bool" where
  "queue_ok q \<longleftrightarrow> q_capacity q \<noteq> 0 \<and> length (q_clients q) = unat (q_capacity q) \<and>
     (\<forall>c \<in> set (q_clients q). fst c = q_addr q)"

lemma connect_clients_Some:
  assumes "connect_clients addr capacity clients attempts = Some (cs, later)"
    and "length clients \<le> capacity" and "\<forall>c \<in> set clients. fst c = addr"
  shows "length cs = capacity" and "\<forall>c \<in> set cs. fst c = addr"
proof -
  have "length cs = capacity \<and> (\<forall>c \<in> set cs. fst c = addr)"
    using assms
  proof (induction attempts arbitrary: clients)
    case Nil
    then show ?case by (simp split: if_splits)
  next
    case (Cons connected rest)
    show ?case
    proof (cases "length clients < capacity")
      case True
      show ?thesis
        by (rule Cons.IH [of "if connected then clients @ [(addr, length clients)] else clients"])
          (use Cons.prems True in auto)
    next
      case False
      with Cons.prems show ?thesis by auto
    qed
  qed
  then show "length cs = capacity" and "\<forall>c \<in> set cs. fst c = addr"
    by simp_all
qed

lemma connect_clients_returns:
  "length clients \<le> capacity \<Longrightarrow>
   connect_clients addr capacity clients attempts \<noteq> None \<longleftrightarrow>
     capacity \<le> length clients + count_list attempts True"
proof (induction attempts arbitrary: clients)
  case Nil
  then show ?case by simp
next
  case (Cons connected rest)
  have "connect_clients addr capacity (clients @ [c]) rest \<noteq> None \<longleftrightarrow>
      capacity \<le> Suc (length clients) + count_list rest True" if "length clients < capacity" for c
    using Cons.IH [of "clients @ [c]"] that by simp
  with Cons.IH [OF Cons.prems] show ?case by (cases connected) simp_all
qed

lemma queue_new_returns:
  "(\<exists>q later. queue_new addr capacity attempts = Some (q, later)) \<longleftrightarrow>
     unat capacity \<le> count_list attempts True"
  using connect_clients_returns [of "[]" "unat capacity" addr attempts]
  by (auto simp: queue_new_def split: option.splits)

lemma queue_new_ok:
  assumes "queue_new addr capacity attempts = Some (q, later)" and "capacity \<noteq> 0"
  shows "queue_ok q \<and> q_addr q = addr \<and> q_capacity q = capacity"
proof (cases "connect_clients addr (unat capacity) [] attempts")
  case None
  with assms(1) show ?thesis by (simp add: queue_new_def)
next
  case (Some r)
  obtain cs rest where r: "r = (cs, rest)" by (cases r)
  note cs = Some [unfolded r]
  have "length cs = unat capacity" and "\<forall>c \<in> set cs. fst c = addr"
    by (rule connect_clients_Some [OF cs]; simp)+
  moreover have "q = \<lparr>q_addr = addr, q_clients = cs, q_capacity = capacity, q_next = 0\<rparr>"
    using assms(1) cs by (simp add: queue_new_def)
  ultimately show ?thesis
    using assms(2) by (simp add: queue_ok_def)
qed

lemma queue_get_client_ok:
  assumes "queue_ok q"
  shows "\<exists>c. queue_get_client q = (q\<lparr>q_next := q_next q + 1\<rparr>, Inr (Inr c)) \<and>
     c = q_clients q ! (unat (q_next q) mod unat (q_capacity q)) \<and> fst c = q_addr q"
    and "queue_ok (fst (queue_get_client q))"
proof -
  have "0 < unat (q_capacity q)" using assms by (simp add: queue_ok_def unat_gt_0)
  then have "unat (q_next q) mod unat (q_capacity q) < length (q_clients q)"
    using assms by (simp add: queue_ok_def)
  with assms show "\<exists>c. queue_get_client q = (q\<lparr>q_next := q_next q + 1\<rparr>, Inr (Inr c)) \<and>
      c = q_clients q ! (unat (q_next q) mod unat (q_capacity q)) \<and> fst c = q_addr q"
    by (auto simp: queue_get_client_def queue_ok_def index_vec_def unat_mod)
  show "queue_ok (fst (queue_get_client q))"
    using assms by (simp add: queue_get_client_def queue_ok_def)
qed

section \<open>Round robin\<close>

fun take_clients :: "nat \<Rightarrow> peer_client_queue \<Rightarrow> client unit_result result list" where
  "take_clients 0 q = []"
| "take_clients (Suc n) q = (case queue_get_client q of (q', c) \<Rightarrow> c # take_clients n q')"

lemma take_clients_nth:
  assumes "queue_ok q" and "unat (q_capacity q) dvd 2 ^ 64"
  shows "take_clients n q =
    map (\<lambda>i. Inr (Inr (q_clients q ! ((unat (q_next q) + i) mod unat (q_capacity q))))) [0..<n]"
  using assms
proof (induction n arbitrary: q)
  case 0
  then show ?case by simp
next
  case (Suc n)
  let ?q = "q\<lparr>q_next := q_next q + 1\<rparr>"
  have get: "queue_get_client q =
      (?q, Inr (Inr (q_clients q ! (unat (q_next q) mod unat (q_capacity q)))))"
    using queue_get_client_ok(1) [OF Suc.prems(1)] by auto
  have ok: "queue_ok ?q" using queue_get_client_ok(2) [OF Suc.prems(1)] get by simp
  have wrap: "(unat (q_next q + 1) + i) mod unat (q_capacity q) =
      (unat (q_next q) + Suc i) mod unat (q_capacity q)" for i
  proof -
    have "unat (q_next q + 1) mod unat (q_capacity q) = (unat (q_next q) + 1) mod unat (q_capacity q)"
      using Suc.prems(2) by (simp add: unat_word_ariths mod_mod_cancel)
    then have "(unat (q_next q + 1) + i) mod unat (q_capacity q) =
        (unat (q_next q) + 1 + i) mod unat (q_capacity q)"
      by (metis mod_add_left_eq)
    then show ?thesis by simp
  qed
  have "take_clients n ?q =
      map (\<lambda>i. Inr (Inr (q_clients q ! ((unat (q_next q) + Suc i) mod unat (q_capacity q))))) [0..<n]"
    using Suc.IH [OF ok] Suc.prems(2) wrap by simp
  then show ?case by (simp add: get upt_conv_Cons map_Suc_upt [symmetric] comp_def del: upt_Suc)
qed

lemma inj_on_shift_mod: "inj_on (\<lambda>i. (k + i) mod n) {0..<n::nat}"
proof (rule inj_onI)
  fix i j
  assume "i \<in> {0..<n}" and "j \<in> {0..<n}" and eq: "(k + i) mod n = (k + j) mod n"
  from eq have "(int k + int i) mod int n = (int k + int j) mod int n"
    by (metis of_nat_add of_nat_mod)
  then have "int n dvd int i - int j"
    by (simp add: mod_eq_dvd_iff)
  with \<open>i \<in> {0..<n}\<close> \<open>j \<in> {0..<n}\<close> show "i = j"
    by (auto simp flip: mod_eq_dvd_iff)
qed

section \<open>Properties\<close>

text \<open>
  C31. Whatever the counter of a queue, even when it wraps around in the middle, as many
  consecutive requests for a client as the queue has clients get every client exactly once, and
  none of them panics, provided the capacity divides the range of the counter (as 16 does).
\<close>

theorem round_robin_fair:
  assumes "queue_ok q" and "unat (q_capacity q) dvd 2 ^ 64"
  shows "mset (take_clients (unat (q_capacity q)) q) = image_mset (\<lambda>c. Inr (Inr c)) (mset (q_clients q))"
proof -
  let ?n = "unat (q_capacity q)"
  let ?k = "unat (q_next q)"
  have len: "length (q_clients q) = ?n" and pos: "0 < ?n"
    using assms(1) by (auto simp: queue_ok_def unat_gt_0)
  have "inj_on (\<lambda>i. (?k + i) mod ?n) {0..<?n}" by (rule inj_on_shift_mod)
  moreover have "(\<lambda>i. (?k + i) mod ?n) ` {0..<?n} = {0..<?n}"
    using calculation pos by (intro endo_inj_surj) auto
  ultimately have perm: "mset (map (\<lambda>i. (?k + i) mod ?n) [0..<?n]) = mset [0..<?n]"
    by (simp add: image_mset_mset_set)
  have "take_clients ?n q = map (\<lambda>j. Inr (Inr (q_clients q ! j))) (map (\<lambda>i. (?k + i) mod ?n) [0..<?n])"
    using take_clients_nth [OF assms(1) assms(2)] by (simp add: comp_def)
  then have "mset (take_clients ?n q) = image_mset (\<lambda>j. Inr (Inr (q_clients q ! j))) (mset [0..<?n])"
    by (simp only: mset_map perm [unfolded mset_map])
  also have "\<dots> = image_mset (\<lambda>c. Inr (Inr c)) (mset (map (\<lambda>j. q_clients q ! j) [0..<?n]))"
    by (simp add: multiset.map_comp comp_def)
  also have "map (\<lambda>j. q_clients q ! j) [0..<?n] = q_clients q"
    by (simp add: map_nth flip: len)
  finally show ?thesis .
qed

theorem round_robin_fair_witness:
  "mset (take_clients 2 \<lparr>q_addr = ''h'', q_clients = [(''h'', 0), (''h'', 1)], q_capacity = 2, q_next = -1\<rparr>) =
     {#Inr (Inr (''h'', 0)), Inr (Inr (''h'', 1))#}"
  using round_robin_fair [of "\<lparr>q_addr = ''h'', q_clients = [(''h'', 0), (''h'', 1)], q_capacity = 2, q_next = -1\<rparr>"]
  by (simp add: queue_ok_def)

end
