(* ===== verification/Storage.thy ===== *)
theory Storage
  imports Zset_Memory Hashing Peer_Pool
begin

text \<open>
  One node's store (struct \<open>Storage\<close> of \<open>storage.rs\<close>, feature \<open>memory\<close>, which is the
  default): the key-value map, the map from zset keys to zsets, and the two databases behind
  them. A zset is a shared object: \<open>st_zsets\<close> maps a key to the address of its \<open>ZSet\<close>,
  \<open>st_heap\<close> holds the objects, \<open>st_next\<close> is the next free address. The result of a database
  write is dropped by the code and by the model; atomics are plain fields. The first parameter
  of an operation is the record of the libraries it calls.
\<close>

section \<open>State\<close>

record cluster_info =
  ci_pool :: "peer_client_queue list"
  ci_peers :: "string list"

definition LOAD_STATE_INIT :: u32 where "LOAD_STATE_INIT = 0"
definition LOAD_STATE_LOADING :: u32 where "LOAD_STATE_LOADING = 1"
definition LOAD_STATE_LOADED :: u32 where "LOAD_STATE_LOADED = 2"

record ('kv, 'vs, 'zm, 'db) storage =
  st_kv :: 'kv
  st_zsets :: 'zm
  st_heap :: "nat \<Rightarrow> 'vs zset"
  st_next :: nat
  st_cluster :: cluster_info
  st_me :: u32
  st_count :: u64
  st_peer_updated :: bool
  st_load_state :: u32
  st_db :: 'db
  st_zset_db :: 'db
  st_all_cores :: "nat list"

text \<open>The store \<open>main\<close> builds over the two opened databases, before \<open>load_from_disk\<close>.\<close>

definition new_storage :: "('kv, 'vs, 'zm, 'db) libs \<Rightarrow> 'db \<Rightarrow> 'db \<Rightarrow> ('kv, 'vs, 'zm, 'db) storage" where
  "new_storage L db zset_db =
     \<lparr>st_kv = ck_new (lib_kv L), st_zsets = ck_new (lib_zm L),
      st_heap = (\<lambda>_. zset_new (lib_vs L)), st_next = 0,
      st_cluster = \<lparr>ci_pool = [], ci_peers = []\<rparr>,
      st_me = 0, st_count = 0, st_peer_updated = False, st_load_state = LOAD_STATE_INIT,
      st_db = db, st_zset_db = zset_db, st_all_cores = []\<rparr>"

section \<open>Keys and values\<close>

definition get_kv_in_memory ::
    "('kv, 'vs, 'zm, 'db) libs \<Rightarrow> ('kv, 'vs, 'zm, 'db) storage \<Rightarrow> string \<Rightarrow> string option" where
  "get_kv_in_memory L s key = ck_get (lib_kv L) (st_kv s) key"

definition insert_kv_in_memory ::
    "('kv, 'vs, 'zm, 'db) libs \<Rightarrow> string \<Rightarrow> string \<Rightarrow> ('kv, 'vs, 'zm, 'db) storage \<Rightarrow>
     ('kv, 'vs, 'zm, 'db) storage \<times> unit unit_result" where
  "insert_kv_in_memory L key v s =
     (s\<lparr>st_kv := ck_insert (lib_kv L) (st_kv s) key v\<rparr>, Inr ())"

text \<open>The loop of \<open>batch_insert_kv_in_memory\<close> fills the write batch as it inserts.\<close>

fun batch_loop ::
    "('kv, 'vs, 'zm, 'db) libs \<Rightarrow> insrt_request list \<Rightarrow> (bytes \<times> bytes) list \<Rightarrow>
     ('kv, 'vs, 'zm, 'db) storage \<Rightarrow> ('kv, 'vs, 'zm, 'db) storage \<times> (bytes \<times> bytes) list" where
  "batch_loop L [] write_batch s = (s, write_batch)"
| "batch_loop L (r # kvs) write_batch s =
     batch_loop L kvs (write_batch @ [(as_bytes (ir_key r), as_bytes (ir_value r))])
       (s\<lparr>st_kv := ck_insert (lib_kv L) (st_kv s) (ir_key r) (ir_value r)\<rparr>)"

definition batch_insert_kv_in_memory ::
    "('kv, 'vs, 'zm, 'db) libs \<Rightarrow> insrt_request list \<Rightarrow> ('kv, 'vs, 'zm, 'db) storage \<Rightarrow>
     ('kv, 'vs, 'zm, 'db) storage \<times> unit unit_result" where
  "batch_insert_kv_in_memory L kvs s =
     (case batch_loop L kvs [] s of (s1, write_batch) \<Rightarrow>
        (s1\<lparr>st_db := fst (rdb_write (lib_db L) (st_db s1) write_batch)\<rparr>, Inr ()))"

definition list_keys_in_memory ::
    "('kv, 'vs, 'zm, 'db) libs \<Rightarrow> ('kv, 'vs, 'zm, 'db) storage \<Rightarrow> string set \<Rightarrow> insrt_request list" where
  "list_keys_in_memory L s keys =
     filter_map (\<lambda>key. map_option (\<lambda>v. \<lparr>ir_key = key, ir_value = v\<rparr>)
       (ck_get (lib_kv L) (st_kv s) key)) (lib_iter L keys)"

definition remove_key_in_memory ::
    "('kv, 'vs, 'zm, 'db) libs \<Rightarrow> string \<Rightarrow> ('kv, 'vs, 'zm, 'db) storage \<Rightarrow>
     ('kv, 'vs, 'zm, 'db) storage \<times> unit unit_result" where
  "remove_key_in_memory L key s =
     (s\<lparr>st_kv := fst (ck_remove (lib_kv L) (st_kv s) key)\<rparr>, Inr ())"

definition get_kv where "get_kv L s key = get_kv_in_memory L s key"

text \<open>\<open>self.zsets.remove(key)\<close>, which \<open>insert_kv\<close> and the two delete handlers call.\<close>

definition zsets_remove ::
    "('kv, 'vs, 'zm, 'db) libs \<Rightarrow> string \<Rightarrow> ('kv, 'vs, 'zm, 'db) storage \<Rightarrow>
     ('kv, 'vs, 'zm, 'db) storage" where
  "zsets_remove L key s = s\<lparr>st_zsets := fst (ck_remove (lib_zm L) (st_zsets s) key)\<rparr>"

definition insert_kv ::
    "('kv, 'vs, 'zm, 'db) libs \<Rightarrow> string \<Rightarrow> string \<Rightarrow> ('kv, 'vs, 'zm, 'db) storage \<Rightarrow>
     ('kv, 'vs, 'zm, 'db) storage \<times> unit unit_result" where
  "insert_kv L key v s =
     (let s1 = zsets_remove L key s;
          s2 = s1\<lparr>st_db := fst (rdb_put (lib_db L) (st_db s1) (as_bytes key) (as_bytes v))\<rparr>
      in insert_kv_in_memory L key v s2)"

definition batch_insert_kv where "batch_insert_kv L kvs s = batch_insert_kv_in_memory L kvs s"

definition list_keys where "list_keys L s keys = list_keys_in_memory L s keys"

definition remove_key ::
    "('kv, 'vs, 'zm, 'db) libs \<Rightarrow> string \<Rightarrow> ('kv, 'vs, 'zm, 'db) storage \<Rightarrow>
     ('kv, 'vs, 'zm, 'db) storage \<times> unit unit_result" where
  "remove_key L key s =
     remove_key_in_memory L key (s\<lparr>st_db := fst (rdb_delete (lib_db L) (st_db s) (as_bytes key))\<rparr>)"

section \<open>Sorted sets\<close>

definition get_zset_key :: "string \<Rightarrow> string \<Rightarrow> bytes" where
  "get_zset_key zkey v = as_bytes zkey @ [0] @ as_bytes v"

definition decode_zset_key :: "bytes \<Rightarrow> (string \<times> string) result" where
  "decode_zset_key key =
     (case splitn 2 0 key of
        [] \<Rightarrow> Inl Unwrap_Failed
      | [_] \<Rightarrow> Inl Unwrap_Failed
      | zkey # v # _ \<Rightarrow> Inr (from_utf8_unchecked zkey, from_utf8_unchecked v))"

text \<open>
  \<open>get_or_insert\<close> is given a fresh \<open>ZSet\<close> whether or not the key is there, so the model
  allocates one first; the returned address is the one the rest of the handler works on.
\<close>

definition zadd_memory ::
    "('kv, 'vs, 'zm, 'db) libs \<Rightarrow> string \<Rightarrow> score_value \<Rightarrow> ('kv, 'vs, 'zm, 'db) storage \<Rightarrow>
     ('kv, 'vs, 'zm, 'db) storage" where
  "zadd_memory L key sv s =
     (case ck_get_or_insert (lib_zm L) (st_zsets s) key (st_next s) of (zm, a) \<Rightarrow>
        let heap = (st_heap s)(st_next s := zset_new (lib_vs L))
        in s\<lparr>st_zsets := zm, st_next := Suc (st_next s),
             st_heap := heap(a := zset_add (lib_vs L) (heap a) sv)\<rparr>)"

definition zadd ::
    "('kv, 'vs, 'zm, 'db) libs \<Rightarrow> string \<Rightarrow> score_value \<Rightarrow> ('kv, 'vs, 'zm, 'db) storage \<Rightarrow>
     ('kv, 'vs, 'zm, 'db) storage" where
  "zadd L key sv s =
     zadd_memory L key sv
       (s\<lparr>st_zset_db := fst (rdb_put (lib_db L) (st_zset_db s)
          (get_zset_key key (sv_value sv)) (to_le_bytes (sv_score sv)))\<rparr>)"

definition zrange ::
    "('kv, 'vs, 'zm, 'db) libs \<Rightarrow> ('kv, 'vs, 'zm, 'db) storage \<Rightarrow> string \<Rightarrow> score_range \<Rightarrow>
     score_value list option result" where
  "zrange L s key r =
     (case ck_get (lib_zm L) (st_zsets s) key of
        None \<Rightarrow> Inr None
      | Some a \<Rightarrow> (case zset_range (lib_iter L) (st_heap s a) r of
                      Inl e \<Rightarrow> Inl e
                    | Inr svs \<Rightarrow> Inr (Some svs)))"

definition zrmv ::
    "('kv, 'vs, 'zm, 'db) libs \<Rightarrow> string \<Rightarrow> string \<Rightarrow> ('kv, 'vs, 'zm, 'db) storage \<Rightarrow>
     ('kv, 'vs, 'zm, 'db) storage" where
  "zrmv L key v s =
     (case ck_get (lib_zm L) (st_zsets s) key of
        None \<Rightarrow> s
      | Some a \<Rightarrow>
          (case zset_remove (lib_vs L) (st_heap s a) v of
             (z, None) \<Rightarrow> s\<lparr>st_heap := (st_heap s)(a := z)\<rparr>
           | (z, Some score) \<Rightarrow>
               s\<lparr>st_zset_db := fst (rdb_delete (lib_db L) (st_zset_db s) (get_zset_key key v)),
                 st_heap := (st_heap s)(a := z)\<rparr>))"

section \<open>Loading the databases\<close>

definition load_kv ::
    "('kv, 'vs, 'zm, 'db) libs \<Rightarrow> (bytes \<times> bytes) list \<Rightarrow> ('kv, 'vs, 'zm, 'db) storage \<Rightarrow>
     ('kv, 'vs, 'zm, 'db) storage" where
  "load_kv L es s = fold (\<lambda>(k, v) s. s\<lparr>st_kv :=
     ck_insert (lib_kv L) (st_kv s) (from_utf8_unchecked k) (from_utf8_unchecked v)\<rparr>) es s"

fun load_zsets ::
    "('kv, 'vs, 'zm, 'db) libs \<Rightarrow> (bytes \<times> bytes) list \<Rightarrow> ('kv, 'vs, 'zm, 'db) storage \<Rightarrow>
     ('kv, 'vs, 'zm, 'db) storage \<times> unit result" where
  "load_zsets L [] s = (s, Inr ())"
| "load_zsets L ((k, v) # es) s =
     (case decode_zset_key k of
        Inl e \<Rightarrow> (s, Inl e)
      | Inr (zkey, zvalue) \<Rightarrow>
          (case read_u32_le v of
             Inl e \<Rightarrow> (s, Inl e)
           | Inr score \<Rightarrow> load_zsets L es (zadd_memory L zkey (Score_Value score zvalue) s)))"

definition load_from_disk ::
    "('kv, 'vs, 'zm, 'db) libs \<Rightarrow> ('kv, 'vs, 'zm, 'db) storage \<Rightarrow>
     ('kv, 'vs, 'zm, 'db) storage \<times> unit result" where
  "load_from_disk L s =
     load_zsets L (rdb_scan (lib_db L) (st_zset_db s))
       (load_kv L (rdb_scan (lib_db L) (st_db s)) s)"

end
