(* ===== verification/Data_Store.thy ===== *)
theory Data_Store
  imports Dto
begin

text \<open>
  The contract of a store, with nothing of its representation: a map from keys to values and a
  map from zset keys to finite maps from members to scores, changed by four commands. The locale
  \<open>kv_store\<close> is what the batch and list code needs of a store; \<open>data_store\<close> is the
  whole contract. \<open>kv_store\<close> is interpreted on one node's storage (theory \<open>Storage_Facts\<close>),
  \<open>data_store\<close> on one node's remote methods (theory \<open>Peer_Server\<close>) and on a cluster of nodes
  reached through the request handlers (theory \<open>Cluster_Data\<close>).
\<close>

section \<open>The abstract store\<close>

record spec =
  sp_kv :: "string \<Rightarrow> string option"
  sp_zs :: "string \<Rightarrow> (string \<Rightarrow> u32 option) option"

definition spec_empty :: spec where
  "spec_empty = \<lparr>sp_kv = Map.empty, sp_zs = Map.empty\<rparr>"

datatype cmd =
    Add string string
  | Del string
  | Zadd string score_value
  | Zrmv string string

fun cmd_key :: "cmd \<Rightarrow> string" where
  "cmd_key (Add k v) = k"
| "cmd_key (Del k) = k"
| "cmd_key (Zadd k sv) = k"
| "cmd_key (Zrmv k v) = k"

definition zs_put ::
    "(string \<Rightarrow> (string \<Rightarrow> u32 option) option) \<Rightarrow> string \<Rightarrow> score_value \<Rightarrow>
     string \<Rightarrow> (string \<Rightarrow> u32 option) option" where
  "zs_put zs k sv =
     zs(k \<mapsto> (case zs k of None \<Rightarrow> Map.empty | Some m \<Rightarrow> m)(sv_value sv \<mapsto> sv_score sv))"

definition zs_del ::
    "(string \<Rightarrow> (string \<Rightarrow> u32 option) option) \<Rightarrow> string \<Rightarrow> string \<Rightarrow>
     string \<Rightarrow> (string \<Rightarrow> u32 option) option" where
  "zs_del zs k v = zs(k := map_option (\<lambda>m. m(v := None)) (zs k))"

text \<open>An added key stops being a zset; a deleted key is neither a value nor a zset.\<close>

fun spec_step :: "cmd \<Rightarrow> spec \<Rightarrow> spec" where
  "spec_step (Add k v) a = a\<lparr>sp_kv := (sp_kv a)(k \<mapsto> v), sp_zs := (sp_zs a)(k := None)\<rparr>"
| "spec_step (Del k) a = a\<lparr>sp_kv := (sp_kv a)(k := None), sp_zs := (sp_zs a)(k := None)\<rparr>"
| "spec_step (Zadd k sv) a = a\<lparr>sp_zs := zs_put (sp_zs a) k sv\<rparr>"
| "spec_step (Zrmv k v) a = a\<lparr>sp_zs := zs_del (sp_zs a) k v\<rparr>"

text \<open>Score of a member, absent when the zset or the member is.\<close>

definition sp_score :: "spec \<Rightarrow> string \<Rightarrow> string \<Rightarrow> u32 option" where
  "sp_score a k v = Option.bind (sp_zs a k) (\<lambda>m. m v)"

section \<open>The interfaces\<close>

locale kv_store =
  fixes invar :: "'s \<Rightarrow> bool"
    and lookup :: "'s \<Rightarrow> string \<Rightarrow> string option"
    and put :: "string \<Rightarrow> string \<Rightarrow> 's \<Rightarrow> 's"
  assumes lookup_put: "invar s \<Longrightarrow> lookup (put k v s) = (lookup s)(k \<mapsto> v)"
    and invar_put: "invar s \<Longrightarrow> invar (put k v s)"
begin

definition put_all :: "(string \<times> string) list \<Rightarrow> 's \<Rightarrow> 's" where
  "put_all kvs s = fold (\<lambda>(k, v). put k v) kvs s"

lemma put_all_simps [simp]:
  "put_all [] s = s" "put_all ((k, v) # kvs) s = put_all kvs (put k v s)"
  by (simp_all add: put_all_def)

lemma put_all_invar: "invar s \<Longrightarrow> invar (put_all kvs s)"
  by (induction kvs arbitrary: s) (auto simp: invar_put)

lemma lookup_put_all: "invar s \<Longrightarrow> lookup (put_all kvs s) = lookup s ++ map_of (rev kvs)"
  by (induction kvs arbitrary: s) (auto simp: invar_put lookup_put)

end

locale data_store =
  fixes invar :: "'s \<Rightarrow> bool"
    and abs :: "'s \<Rightarrow> spec"
    and cmd_of :: "'c \<Rightarrow> cmd"
    and step :: "'c \<Rightarrow> 's \<Rightarrow> 's"
  assumes abs_step: "invar s \<Longrightarrow> abs (step c s) = spec_step (cmd_of c) (abs s)"
    and invar_step: "invar s \<Longrightarrow> invar (step c s)"
begin

lemma run_refines:
  "invar s \<Longrightarrow>
     invar (fold step cs s) \<and> abs (fold step cs s) = fold spec_step (map cmd_of cs) (abs s)"
  by (induction cs arbitrary: s) (simp_all add: abs_step invar_step)

lemma run_observation:
  "invar s \<Longrightarrow> sp_kv (abs (fold step cs s)) k =
     sp_kv (fold spec_step (map cmd_of cs) (abs s)) k"
  by (simp add: run_refines)

end

section \<open>Facts about the abstract store\<close>

lemma sp_score_simps [simp]:
  "sp_score (spec_step (Add k v) a) k' v' = (if k' = k then None else sp_score a k' v')"
  "sp_score (spec_step (Del k) a) k' v' = (if k' = k then None else sp_score a k' v')"
  "sp_score (spec_step (Zadd k sv) a) k' v' =
     (if k' = k \<and> v' = sv_value sv then Some (sv_score sv) else sp_score a k' v')"
  "sp_score (spec_step (Zrmv k v) a) k' v' =
     (if k' = k \<and> v' = v then None else sp_score a k' v')"
  by (cases "sp_zs a k"; auto simp: sp_score_def zs_put_def zs_del_def)+

end
