(* ===== verification/Storage_Facts.thy ===== *)
theory Storage_Facts
  imports Storage Data_Store
begin

text \<open>
  What the operations of one node do to its abstract contents: the invariant \<open>storage_ok\<close>
  (every zset key has its own live, consistent zset object), the abstraction \<open>storage_abs\<close>
  onto the abstract store, the effect of every operation on it, and the interpretations of the
  store interfaces.
\<close>

section \<open>Invariant and abstraction\<close>

definition storage_ok :: "('kv, 'vs, 'zm, 'db) libs \<Rightarrow> ('kv, 'vs, 'zm, 'db) storage \<Rightarrow> bool" where
  "storage_ok L s \<longleftrightarrow>
     (\<forall>k a. ck_get (lib_zm L) (st_zsets s) k = Some a \<longrightarrow>
        a < st_next s \<and> zset_ok (lib_vs L) (st_heap s a)) \<and>
     (\<forall>k k' a. ck_get (lib_zm L) (st_zsets s) k = Some a \<longrightarrow>
        ck_get (lib_zm L) (st_zsets s) k' = Some a \<longrightarrow> k = k')"

definition kv_of ::
    "('kv, 'vs, 'zm, 'db) libs \<Rightarrow> ('kv, 'vs, 'zm, 'db) storage \<Rightarrow> string \<Rightarrow> string option" where
  "kv_of L s = ck_get (lib_kv L) (st_kv s)"

definition zs_of ::
    "('kv, 'vs, 'zm, 'db) libs \<Rightarrow> ('kv, 'vs, 'zm, 'db) storage \<Rightarrow>
     string \<Rightarrow> (string \<Rightarrow> u32 option) option" where
  "zs_of L s k =
     map_option (\<lambda>a. zset_abs (lib_vs L) (st_heap s a)) (ck_get (lib_zm L) (st_zsets s) k)"

definition storage_abs :: "('kv, 'vs, 'zm, 'db) libs \<Rightarrow> ('kv, 'vs, 'zm, 'db) storage \<Rightarrow> spec" where
  "storage_abs L s = \<lparr>sp_kv = kv_of L s, sp_zs = zs_of L s\<rparr>"

lemma sp_storage_abs: "sp_kv (storage_abs L s) = kv_of L s" "sp_zs (storage_abs L s) = zs_of L s"
  by (simp_all add: storage_abs_def)

lemma storage_abs_kv_update:
  "\<lbrakk>kv_of L s' = m; zs_of L s' = zs_of L s\<rbrakk> \<Longrightarrow> storage_abs L s' = (storage_abs L s)\<lparr>sp_kv := m\<rparr>"
  by (simp add: storage_abs_def)

lemma storage_okD:
  assumes "storage_ok L s" and "ck_get (lib_zm L) (st_zsets s) k = Some a"
  shows "a < st_next s" and "zset_ok (lib_vs L) (st_heap s a)"
    and "ck_get (lib_zm L) (st_zsets s) k' = Some a \<Longrightarrow> k' = k"
  using assms by (auto simp: storage_ok_def)

lemma new_storage_ok: "libs_ok L \<Longrightarrow> storage_ok L (new_storage L db zset_db)"
  by (simp add: storage_ok_def new_storage_def zm_laws)

lemma new_storage_abs: "libs_ok L \<Longrightarrow> storage_abs L (new_storage L db zset_db) = spec_empty"
  by (simp add: storage_abs_def spec_empty_def kv_of_def zs_of_def new_storage_def
      kv_laws zm_laws fun_eq_iff)

section \<open>Keys and values\<close>

lemma get_kv_kv_of: "get_kv L s = kv_of L s"
  by (simp add: fun_eq_iff get_kv_def get_kv_in_memory_def kv_of_def)

lemma insert_kv_Ok: "snd (insert_kv L k v s) = Inr ()"
  by (simp add: insert_kv_def insert_kv_in_memory_def Let_def)

lemma remove_key_Ok: "snd (remove_key L k s) = Inr ()"
  by (simp add: remove_key_def remove_key_in_memory_def)

lemma kv_of_insert_kv [abs_simps]:
  "libs_ok L \<Longrightarrow> kv_of L (fst (insert_kv L k v s)) = (kv_of L s)(k \<mapsto> v)"
  by (simp add: insert_kv_def insert_kv_in_memory_def zsets_remove_def kv_of_def Let_def kv_laws)

lemma zs_of_insert_kv [abs_simps]:
  "libs_ok L \<Longrightarrow> zs_of L (fst (insert_kv L k v s)) = (zs_of L s)(k := None)"
  by (simp add: insert_kv_def insert_kv_in_memory_def zsets_remove_def zs_of_def Let_def zm_laws
      fun_eq_iff)

lemma kv_of_remove_key [abs_simps]:
  "libs_ok L \<Longrightarrow> kv_of L (fst (remove_key L k s)) = (kv_of L s)(k := None)"
  by (simp add: remove_key_def remove_key_in_memory_def kv_of_def kv_laws)

lemma zs_of_remove_key [abs_simps]: "zs_of L (fst (remove_key L k s)) = zs_of L s"
  by (simp add: remove_key_def remove_key_in_memory_def zs_of_def fun_eq_iff)

lemma zsets_remove_abs [abs_simps]:
  "kv_of L (zsets_remove L k s) = kv_of L s"
  "libs_ok L \<Longrightarrow> zs_of L (zsets_remove L k s) = (zs_of L s)(k := None)"
  by (simp_all add: zsets_remove_def kv_of_def zs_of_def zm_laws fun_eq_iff)

lemma storage_ok_remove [inv_intros]:
  "\<lbrakk>libs_ok L; storage_ok L s\<rbrakk> \<Longrightarrow> storage_ok L (zsets_remove L k s)"
  by (auto simp: storage_ok_def zsets_remove_def zm_laws split: if_splits)

lemma storage_ok_frame:
  assumes "st_zsets s' = st_zsets s" "st_heap s' = st_heap s" "st_next s' = st_next s"
  shows "storage_ok L s' \<longleftrightarrow> storage_ok L s" and "zs_of L s' = zs_of L s"
  using assms by (simp_all add: storage_ok_def zs_of_def fun_eq_iff)

lemma storage_ok_insert_kv [inv_intros]:
  assumes "libs_ok L" and "storage_ok L s"
  shows "storage_ok L (fst (insert_kv L k v s))"
proof -
  have "storage_ok L (zsets_remove L k s)" using assms by (rule storage_ok_remove)
  then show ?thesis
    by (simp add: insert_kv_def insert_kv_in_memory_def Let_def storage_ok_def)
qed

lemma storage_ok_remove_key [inv_intros]: "storage_ok L s \<Longrightarrow> storage_ok L (fst (remove_key L k s))"
  by (simp add: remove_key_def remove_key_in_memory_def storage_ok_def)

lemma batch_loop_eq:
  "batch_loop L kvs wb s =
     (s\<lparr>st_kv := fold (\<lambda>r m. ck_insert (lib_kv L) m (ir_key r) (ir_value r)) kvs (st_kv s)\<rparr>,
      wb @ map (\<lambda>r. (as_bytes (ir_key r), as_bytes (ir_value r))) kvs)"
  by (induction L kvs wb s rule: batch_loop.induct) auto

lemma ck_get_fold_insert:
  "libs_ok L \<Longrightarrow>
     ck_get (lib_kv L) (fold (\<lambda>r m. ck_insert (lib_kv L) m (ir_key r) (ir_value r)) kvs m) =
     ck_get (lib_kv L) m ++ map_of (rev (map kv_pair kvs))"
  by (induction kvs arbitrary: m) (auto simp: kv_laws kv_pair_def)

lemma batch_insert_kv_eq:
  "batch_insert_kv L kvs s =
     (s\<lparr>st_kv := fold (\<lambda>r m. ck_insert (lib_kv L) m (ir_key r) (ir_value r)) kvs (st_kv s),
        st_db := fst (rdb_write (lib_db L) (st_db s)
          (map (\<lambda>r. (as_bytes (ir_key r), as_bytes (ir_value r))) kvs))\<rparr>, Inr ())"
  by (simp add: batch_insert_kv_def batch_insert_kv_in_memory_def batch_loop_eq)

lemma kv_of_batch [abs_simps]:
  "libs_ok L \<Longrightarrow> kv_of L (fst (batch_insert_kv L kvs s)) =
     kv_of L s ++ map_of (rev (map kv_pair kvs))"
  by (simp add: batch_insert_kv_eq kv_of_def ck_get_fold_insert)

lemma zs_of_batch [abs_simps]: "zs_of L (fst (batch_insert_kv L kvs s)) = zs_of L s"
  by (simp add: batch_insert_kv_eq zs_of_def fun_eq_iff)

lemma storage_ok_batch [inv_intros]: "storage_ok L s \<Longrightarrow> storage_ok L (fst (batch_insert_kv L kvs s))"
  by (simp add: batch_insert_kv_eq storage_ok_def)

lemma list_keys_answer:
  assumes "libs_ok L" and "finite keys"
  shows "set (list_keys L s keys) =
      {r. ir_key r \<in> keys \<and> kv_of L s (ir_key r) = Some (ir_value r)}"
    and "distinct (map ir_key (list_keys L s keys))"
proof -
  have it: "set (lib_iter L keys) = keys" "distinct (lib_iter L keys)"
    using assms(2) libs_okD(5) [OF assms(1)]
    by (simp_all add: iteration_set iteration_distinct)
  have keys: "map ir_key (list_keys L s keys) = filter (\<lambda>k. kv_of L s k \<noteq> None) ks"
    if "ks = lib_iter L keys" for ks
  proof -
    have "map ir_key (filter_map (\<lambda>key. map_option (\<lambda>v. \<lparr>ir_key = key, ir_value = v\<rparr>)
        (ck_get (lib_kv L) (st_kv s) key)) ks) = filter (\<lambda>k. kv_of L s k \<noteq> None) ks"
      by (induction ks) (auto simp: kv_of_def split: option.splits)
    with that show ?thesis by (simp add: list_keys_def list_keys_in_memory_def)
  qed
  show "distinct (map ir_key (list_keys L s keys))"
    using it(2) by (simp add: keys)
  show "set (list_keys L s keys) =
      {r. ir_key r \<in> keys \<and> kv_of L s (ir_key r) = Some (ir_value r)}"
    (is "?lhs = ?rhs")
  proof (rule set_eqI)
    fix r :: insrt_request
    show "r \<in> ?lhs \<longleftrightarrow> r \<in> ?rhs"
      by (cases r) (auto simp: list_keys_def list_keys_in_memory_def set_filter_map it(1) kv_of_def)
  qed
qed

section \<open>Sorted sets\<close>

lemma kv_of_zadd_memory [abs_simps]: "kv_of L (zadd_memory L k sv s) = kv_of L s"
  by (simp add: zadd_memory_def kv_of_def Let_def split: prod.splits)

lemma kv_of_zadd [abs_simps]: "kv_of L (zadd L k sv s) = kv_of L s"
  by (simp add: zadd_def kv_of_zadd_memory) (simp add: kv_of_def)

lemma kv_of_zrmv [abs_simps]: "kv_of L (zrmv L k v s) = kv_of L s"
  by (auto simp: zrmv_def kv_of_def split: option.splits prod.splits)

text \<open>
  Every change of an existing zset replaces the object at its address; the other keys do not see
  it because no two keys share an address.
\<close>

lemma heap_update:
  assumes ok: "storage_ok L s" and at: "ck_get (lib_zm L) (st_zsets s) k = Some a"
    and same: "ck_get (lib_zm L) (st_zsets s') = ck_get (lib_zm L) (st_zsets s)"
    and "st_next s \<le> st_next s'"
    and heap: "\<And>b. \<lbrakk>b < st_next s; b \<noteq> a\<rbrakk> \<Longrightarrow> st_heap s' b = st_heap s b"
    and zok: "zset_ok (lib_vs L) (st_heap s' a)"
  shows "storage_ok L s'"
    and "zs_of L s' = (zs_of L s)(k \<mapsto> zset_abs (lib_vs L) (st_heap s' a))"
proof -
  have other: "b < st_next s \<and> zset_ok (lib_vs L) (st_heap s' b) \<and> (b = a \<longleftrightarrow> k' = k) \<and>
      (b \<noteq> a \<longrightarrow> st_heap s' b = st_heap s b)"
    if k': "ck_get (lib_zm L) (st_zsets s) k' = Some b" for k' b
  proof (cases "b = a")
    case True
    with storage_okD(1) [OF ok at] storage_okD(3) [OF ok at k' [unfolded True]] zok
    show ?thesis by simp
  next
    case False
    with k' at have "k' \<noteq> k" by auto
    with False storage_okD(1,2) [OF ok k'] heap [of b] show ?thesis by simp
  qed
  show "storage_ok L s'"
    unfolding storage_ok_def same
  proof (intro conjI allI impI)
    fix k' b
    assume k': "ck_get (lib_zm L) (st_zsets s) k' = Some b"
    show "b < st_next s'" and "zset_ok (lib_vs L) (st_heap s' b)"
      using other [OF k'] assms(4) by simp_all
    fix k''
    assume "ck_get (lib_zm L) (st_zsets s) k'' = Some b"
    then show "k' = k''" using storage_okD(3) [OF ok _ k'] by blast
  qed
  have "zs_of L s' k' = ((zs_of L s)(k \<mapsto> zset_abs (lib_vs L) (st_heap s' a))) k'" for k'
    using at other [of k'] by (cases "ck_get (lib_zm L) (st_zsets s) k'") (auto simp: zs_of_def same)
  then show "zs_of L s' = (zs_of L s)(k \<mapsto> zset_abs (lib_vs L) (st_heap s' a))"
    by (simp add: fun_eq_iff)
qed

text \<open>A key that was no zset gets the next free address.\<close>

lemma heap_alloc:
  assumes ok: "storage_ok L s" and none: "ck_get (lib_zm L) (st_zsets s) k = None"
    and zm: "ck_get (lib_zm L) (st_zsets s') = (ck_get (lib_zm L) (st_zsets s))(k \<mapsto> st_next s)"
    and nxt: "st_next s' = Suc (st_next s)"
    and heap: "st_heap s' = (st_heap s)(st_next s := z)" and zok: "zset_ok (lib_vs L) z"
  shows "storage_ok L s'" and "zs_of L s' = (zs_of L s)(k \<mapsto> zset_abs (lib_vs L) z)"
proof -
  have other: "b < st_next s \<and> zset_ok (lib_vs L) (st_heap s b)"
    if "ck_get (lib_zm L) (st_zsets s) k' = Some b" for k' b
    using storage_okD(1,2) [OF ok that] by simp
  have inj: "k' = k''" if "ck_get (lib_zm L) (st_zsets s) k' = Some b"
      "ck_get (lib_zm L) (st_zsets s) k'' = Some b" for k' k'' b
    using storage_okD(3) [OF ok that(2) that(1)] .
  show "storage_ok L s'"
    unfolding storage_ok_def zm nxt heap using other inj zok
    by (auto simp: less_Suc_eq split: if_splits dest: other)
  have "zs_of L s' k' = ((zs_of L s)(k \<mapsto> zset_abs (lib_vs L) z)) k'" for k'
    using other [of k'] by (cases "ck_get (lib_zm L) (st_zsets s) k'") (auto simp: zs_of_def zm heap)
  then show "zs_of L s' = (zs_of L s)(k \<mapsto> zset_abs (lib_vs L) z)"
    by (simp add: fun_eq_iff)
qed

lemma zadd_memory_abs:
  assumes L: "libs_ok L" and ok: "storage_ok L s"
  shows "storage_ok L (zadd_memory L k sv s) \<and>
    zs_of L (zadd_memory L k sv s) = zs_put (zs_of L s) k sv"
proof -
  let ?V = "lib_vs L"
  note V = libs_okD(2) [OF L]
  obtain zm a where goi: "ck_get_or_insert (lib_zm L) (st_zsets s) k (st_next s) = (zm, a)"
    by (cases "ck_get_or_insert (lib_zm L) (st_zsets s) k (st_next s)")
  note zm = zm_laws(5) [OF L, of "st_zsets s" k "st_next s", unfolded goi fst_conv]
    and a = zm_laws(6) [OF L, of "st_zsets s" k "st_next s", unfolded goi snd_conv]
  show ?thesis
  proof (cases "ck_get (lib_zm L) (st_zsets s) k")
    case None
    let ?z = "zset_add ?V (zset_new ?V) sv"
    have z: "zset_ok ?V ?z" "zset_abs ?V ?z = Map.empty(sv_value sv \<mapsto> sv_score sv)"
      using V by (simp_all add: zset_add_ok zset_new_ok abs_simps)
    have eq: "zadd_memory L k sv s = s\<lparr>st_zsets := zm, st_next := Suc (st_next s),
        st_heap := (st_heap s)(st_next s := ?z)\<rparr>"
      using None a by (simp add: zadd_memory_def goi)
    from heap_alloc [OF ok None, of "zadd_memory L k sv s" ?z] zm None z show ?thesis
      by (simp add: eq zs_put_def zs_of_def)
  next
    case (Some b)
    let ?z = "zset_add ?V (st_heap s b) sv"
    note b = storage_okD [OF ok Some]
    have z: "zset_ok ?V ?z"
        "zset_abs ?V ?z = (zset_abs ?V (st_heap s b))(sv_value sv \<mapsto> sv_score sv)"
      using V b by (simp_all add: zset_add_ok abs_simps)
    have eq: "zadd_memory L k sv s = s\<lparr>st_zsets := zm, st_next := Suc (st_next s),
        st_heap := (st_heap s)(st_next s := zset_new ?V, b := ?z)\<rparr>"
      using Some a b(1) by (simp add: zadd_memory_def goi)
    from heap_update [OF ok Some, of "zadd_memory L k sv s"] zm Some z show ?thesis
      by (simp add: eq zs_put_def zs_of_def)
  qed
qed

lemma zrmv_abs:
  assumes L: "libs_ok L" and ok: "storage_ok L s"
  shows "storage_ok L (zrmv L k v s) \<and> zs_of L (zrmv L k v s) = zs_del (zs_of L s) k v"
proof (cases "ck_get (lib_zm L) (st_zsets s) k")
  case None
  then have "zs_del (zs_of L s) k v = zs_of L s"
    by (auto simp: zs_del_def zs_of_def fun_eq_iff)
  with None ok show ?thesis by (simp add: zrmv_def)
next
  case (Some a)
  let ?z = "fst (zset_remove (lib_vs L) (st_heap s a) v)"
  have z: "zset_ok (lib_vs L) ?z"
      "zset_abs (lib_vs L) ?z = (zset_abs (lib_vs L) (st_heap s a))(v := None)"
    using storage_okD(2) [OF ok Some] libs_okD(2) [OF L]
    by (simp_all add: zset_remove_ok abs_simps)
  have eq: "st_zsets (zrmv L k v s) = st_zsets s" "st_next (zrmv L k v s) = st_next s"
      "st_heap (zrmv L k v s) = (st_heap s)(a := ?z)"
    using Some by (auto simp: zrmv_def split: prod.splits option.splits)
  from heap_update [OF ok Some, of "zrmv L k v s"] z Some show ?thesis
    by (simp add: eq zs_del_def zs_of_def)
qed

lemma zadd_abs:
  assumes L: "libs_ok L" and ok: "storage_ok L s"
  shows "storage_ok L (zadd L k sv s) \<and> zs_of L (zadd L k sv s) = zs_put (zs_of L s) k sv"
proof -
  let ?s = "s\<lparr>st_zset_db := fst (rdb_put (lib_db L) (st_zset_db s)
    (get_zset_key k (sv_value sv)) (to_le_bytes (sv_score sv)))\<rparr>"
  have "storage_ok L ?s" and "zs_of L ?s = zs_of L s"
    using ok by (simp_all add: storage_ok_def zs_of_def fun_eq_iff)
  then show ?thesis
    using zadd_memory_abs [OF L, of ?s k sv] by (simp add: zadd_def)
qed

text \<open>A range query of a key that is no zset is \<open>None\<close>; of a zset, the answer or the panic.\<close>

lemma zrange_None: "zs_of L s k = None \<Longrightarrow> zrange L s k r = Inr None"
  by (simp add: zrange_def zs_of_def)

lemma zrange_Some:
  assumes L: "libs_ok L" and ok: "storage_ok L s" and m: "zs_of L s k = Some m"
  shows "max_score r < min_score r \<Longrightarrow> zrange L s k r = Inl Range_Start_After_End"
    and "min_score r \<le> max_score r \<Longrightarrow> \<exists>svs. zrange L s k r = Inr (Some svs) \<and>
      set svs = range_answer m r \<and> distinct svs \<and> sorted (map sv_score svs)"
proof -
  from m obtain a where a: "ck_get (lib_zm L) (st_zsets s) k = Some a"
    and m_eq: "m = zset_abs (lib_vs L) (st_heap s a)"
    by (auto simp: zs_of_def)
  show "max_score r < min_score r \<Longrightarrow> zrange L s k r = Inl Range_Start_After_End"
    using a zset_range_panics [of "lib_iter L" "st_heap s a" r Range_Start_After_End]
    by (simp add: zrange_def)
  assume le: "min_score r \<le> max_score r"
  obtain svs where svs: "zset_range (lib_iter L) (st_heap s a) r = Inr svs"
  proof (cases "zset_range (lib_iter L) (st_heap s a) r")
    case (Inl e)
    then have "max_score r < min_score r" by (simp add: zset_range_panics)
    with le show thesis by simp
  next
    case (Inr svs)
    then show thesis by (rule that)
  qed
  then have "zrange L s k r = Inr (Some svs)" by (simp add: zrange_def a)
  moreover have "set svs = range_answer m r" and "distinct svs" and "sorted (map sv_score svs)"
    unfolding m_eq
    by (rule zset_range_answer [OF storage_okD(2) [OF ok a] libs_okD(5) [OF L] svs])+
  ultimately show "\<exists>svs. zrange L s k r = Inr (Some svs) \<and>
      set svs = range_answer m r \<and> distinct svs \<and> sorted (map sv_score svs)"
    by blast
qed

section \<open>One node is a key-value store\<close>

interpretation node_kv: kv_store "\<lambda>s. libs_ok L \<and> storage_ok L s" "kv_of L"
    "\<lambda>k v s. fst (insert_kv L k v s)" for L :: "('kv, 'vs, 'zm, 'db) libs"
  by unfold_locales (auto simp: kv_of_insert_kv storage_ok_insert_kv)

end
