(* ===== verification/Peer_Server.thy ===== *)
theory Peer_Server
  imports Storage_Facts
begin

text \<open>
  The server side of the remote procedure calls between nodes (\<open>CachePeerServer\<close> of
  \<open>cluster.rs\<close>): one operation per method of the service \<open>CachePeer\<close>, each a change of
  the node's storage with a reply or the panic of an \<open>unwrap\<close>. The dispatch of a request to
  its method is generated by \<open>tarpc\<close>.
\<close>

section \<open>The methods\<close>

type_synonym ('s, 'r) rpc_method = "'s \<Rightarrow> 's \<times> 'r result"

definition rpc_query ::
    "('kv, 'vs, 'zm, 'db) libs \<Rightarrow> string \<Rightarrow>
     (('kv, 'vs, 'zm, 'db) storage, string option) rpc_method" where
  "rpc_query L key s = (s, Inr (get_kv L s key))"

definition rpc_add ::
    "('kv, 'vs, 'zm, 'db) libs \<Rightarrow> string \<Rightarrow> string \<Rightarrow>
     (('kv, 'vs, 'zm, 'db) storage, unit) rpc_method" where
  "rpc_add L key v s = (case insert_kv L key v s of (s1, r) \<Rightarrow> (s1, unwrap r))"

definition rpc_del ::
    "('kv, 'vs, 'zm, 'db) libs \<Rightarrow> string \<Rightarrow> (('kv, 'vs, 'zm, 'db) storage, unit) rpc_method" where
  "rpc_del L key s =
     (case remove_key L key s of (s1, r) \<Rightarrow>
        (case unwrap r of
           Inl e \<Rightarrow> (s1, Inl e)
         | Inr _ \<Rightarrow> (zsets_remove L key s1, Inr ())))"

fun rpc_list_loop ::
    "('kv, 'vs, 'zm, 'db) libs \<Rightarrow> ('kv, 'vs, 'zm, 'db) storage \<Rightarrow> string list \<Rightarrow>
     insrt_request list \<Rightarrow> insrt_request list" where
  "rpc_list_loop L s [] out = out"
| "rpc_list_loop L s (key # keys) out =
     rpc_list_loop L s keys
       (case get_kv L s key of
          None \<Rightarrow> out
        | Some v \<Rightarrow> out @ [\<lparr>ir_key = key, ir_value = v\<rparr>])"

definition rpc_list ::
    "('kv, 'vs, 'zm, 'db) libs \<Rightarrow> string list \<Rightarrow>
     (('kv, 'vs, 'zm, 'db) storage, insrt_request list) rpc_method" where
  "rpc_list L keys s = (s, Inr (rpc_list_loop L s keys []))"

fun rpc_batch ::
    "('kv, 'vs, 'zm, 'db) libs \<Rightarrow> insrt_request list \<Rightarrow>
     (('kv, 'vs, 'zm, 'db) storage, unit) rpc_method" where
  "rpc_batch L [] s = (s, Inr ())"
| "rpc_batch L (r # kvs) s =
     (case insert_kv L (ir_key r) (ir_value r) s of (s1, res) \<Rightarrow>
        (case unwrap res of
           Inl e \<Rightarrow> (s1, Inl e)
         | Inr _ \<Rightarrow> rpc_batch L kvs s1))"

definition rpc_zadd ::
    "('kv, 'vs, 'zm, 'db) libs \<Rightarrow> string \<Rightarrow> score_value \<Rightarrow>
     (('kv, 'vs, 'zm, 'db) storage, unit) rpc_method" where
  "rpc_zadd L key sv s = (zadd L key sv s, Inr ())"

definition rpc_zrange ::
    "('kv, 'vs, 'zm, 'db) libs \<Rightarrow> string \<Rightarrow> score_range \<Rightarrow>
     (('kv, 'vs, 'zm, 'db) storage, score_value list option) rpc_method" where
  "rpc_zrange L key r s = (s, zrange L s key r)"

definition rpc_zrmv ::
    "('kv, 'vs, 'zm, 'db) libs \<Rightarrow> string \<Rightarrow> string \<Rightarrow>
     (('kv, 'vs, 'zm, 'db) storage, unit) rpc_method" where
  "rpc_zrmv L key v s = (zrmv L key v s, Inr ())"

section \<open>What they do\<close>

lemma rpc_add_eq: "rpc_add L k v s = (fst (insert_kv L k v s), Inr ())"
  by (simp add: rpc_add_def split_beta insert_kv_Ok)

lemma rpc_del_eq: "rpc_del L k s = (zsets_remove L k (fst (remove_key L k s)), Inr ())"
  by (simp add: rpc_del_def split_beta remove_key_Ok)

lemma rpc_list_loop_eq:
  "rpc_list_loop L s keys out =
     out @ filter_map (\<lambda>k. map_option (\<lambda>v. \<lparr>ir_key = k, ir_value = v\<rparr>) (kv_of L s k)) keys"
  by (induction L s keys out rule: rpc_list_loop.induct) (auto simp: get_kv_kv_of split: option.splits)

lemma rpc_list_answer:
  "snd (rpc_list L keys s) = Inr rs \<Longrightarrow>
     set rs = {r. ir_key r \<in> set keys \<and> kv_of L s (ir_key r) = Some (ir_value r)}"
proof (rule set_eqI)
  fix r :: insrt_request
  assume "snd (rpc_list L keys s) = Inr rs"
  then show "r \<in> set rs \<longleftrightarrow>
      r \<in> {r. ir_key r \<in> set keys \<and> kv_of L s (ir_key r) = Some (ir_value r)}"
    by (cases r) (auto simp: rpc_list_def rpc_list_loop_eq set_filter_map)
qed

lemma rpc_list_distinct:
  assumes "snd (rpc_list L keys s) = Inr rs" and "distinct keys"
  shows "distinct (map ir_key rs)"
proof -
  have "map ir_key (filter_map (\<lambda>k. map_option (\<lambda>v. \<lparr>ir_key = k, ir_value = v\<rparr>) (kv_of L s k)) ks) =
      filter (\<lambda>k. kv_of L s k \<noteq> None) ks" for ks
    by (induction ks) (auto split: option.splits)
  with assms show ?thesis by (auto simp: rpc_list_def rpc_list_loop_eq)
qed

text \<open>A remote batch is a sequence of single insertions.\<close>

lemma rpc_batch_eq:
  "rpc_batch L kvs s = (node_kv.put_all L (map kv_pair kvs) s, Inr ())"
  by (induction kvs arbitrary: s) (simp_all add: split_beta insert_kv_Ok kv_pair_def)

lemma kv_of_rpc_batch [abs_simps]:
  "\<lbrakk>libs_ok L; storage_ok L s\<rbrakk> \<Longrightarrow>
     kv_of L (fst (rpc_batch L kvs s)) = kv_of L s ++ map_of (rev (map kv_pair kvs))"
  by (simp add: rpc_batch_eq node_kv.lookup_put_all rev_map)

lemma storage_ok_rpc_batch [inv_intros]:
  "\<lbrakk>libs_ok L; storage_ok L s\<rbrakk> \<Longrightarrow> storage_ok L (fst (rpc_batch L kvs s))"
  using node_kv.put_all_invar [of L s "map kv_pair kvs"] by (simp add: rpc_batch_eq)

lemma zs_of_rpc_batch [abs_simps]:
  assumes "libs_ok L"
  shows "zs_of L (fst (rpc_batch L kvs s)) =
    (\<lambda>k. if k \<in> ir_key ` set kvs then None else zs_of L s k)"
proof (induction kvs arbitrary: s)
  case Nil
  then show ?case by simp
next
  case (Cons r kvs)
  then show ?case
    using insert_kv_Ok [of L "ir_key r" "ir_value r" s]
    by (auto simp: split_beta fun_eq_iff zs_of_insert_kv [OF assms])
qed

section \<open>The methods implement the abstract store\<close>

fun server_step ::
    "('kv, 'vs, 'zm, 'db) libs \<Rightarrow> cmd \<Rightarrow> ('kv, 'vs, 'zm, 'db) storage \<Rightarrow>
     ('kv, 'vs, 'zm, 'db) storage" where
  "server_step L (Add k v) s = fst (rpc_add L k v s)"
| "server_step L (Del k) s = fst (rpc_del L k s)"
| "server_step L (Zadd k sv) s = fst (rpc_zadd L k sv s)"
| "server_step L (Zrmv k v) s = fst (rpc_zrmv L k v s)"

lemma server_step_ok [inv_intros]:
  "\<lbrakk>libs_ok L; storage_ok L s\<rbrakk> \<Longrightarrow> storage_ok L (server_step L c s)"
  by (cases c) (simp_all add: rpc_add_eq rpc_del_eq rpc_zadd_def rpc_zrmv_def inv_intros
      zadd_abs zrmv_abs)

lemma server_step_abs:
  "\<lbrakk>libs_ok L; storage_ok L s\<rbrakk> \<Longrightarrow>
     storage_abs L (server_step L c s) = spec_step c (storage_abs L s)"
  by (cases c) (simp_all add: rpc_add_eq rpc_del_eq rpc_zadd_def rpc_zrmv_def storage_abs_def
      abs_simps zadd_abs zrmv_abs)

interpretation server: data_store "\<lambda>s. libs_ok L \<and> storage_ok L s" "storage_abs L"
    "\<lambda>c. c" "server_step L" for L :: "('kv, 'vs, 'zm, 'db) libs"
  by unfold_locales (auto simp: server_step_abs server_step_ok)

section \<open>Properties\<close>

text \<open>
  C18. One node implements the abstract store: after any sequence of add, delete, zadd and zrmv
  calls on a store built over any two databases, its contents are what the abstract store makes
  of the sequence, and its sorted sets are consistent.
\<close>

theorem node_refines_store:
  assumes "libs_ok L"
  shows "storage_ok L (fold (server_step L) cs (new_storage L db zset_db)) \<and>
    storage_abs L (fold (server_step L) cs (new_storage L db zset_db)) = fold spec_step cs spec_empty"
  using server.run_refines [of L "new_storage L db zset_db" cs] assms
  by (simp add: new_storage_ok new_storage_abs)

theorem node_refines_store_witness:
  "sp_kv (storage_abs ref_libs (fold (server_step ref_libs)
      [Add ''k'' ''v'', Zadd ''z'' (Score_Value 3 ''m''), Add ''k'' ''w'', Del ''q'']
      (new_storage ref_libs [] []))) ''k'' = Some ''w''"
  using node_refines_store [OF ref_libs_ok, of "[Add ''k'' ''v'', Zadd ''z'' (Score_Value 3 ''m''),
    Add ''k'' ''w'', Del ''q'']" "[]" "[]"]
  by simp

text \<open>
  A batch that arrives from another node is the same as adding its pairs one by one, so it
  also drops the sorted sets under its keys; a batch inserted by the node itself changes the
  values in the same way and leaves every sorted set alone.
\<close>

theorem batch_insertion:
  assumes "libs_ok L" and "storage_ok L s"
  shows "storage_abs L (fst (rpc_batch L kvs s)) =
      fold spec_step (map (\<lambda>r. Add (ir_key r) (ir_value r)) kvs) (storage_abs L s) \<and>
    storage_abs L (fst (batch_insert_kv L kvs s)) =
      (storage_abs L s)\<lparr>sp_kv := sp_kv (fold spec_step (map (\<lambda>r. Add (ir_key r) (ir_value r)) kvs) (storage_abs L s))\<rparr>"
proof -
  have "rpc_batch L kvs s = (fold (server_step L) (map (\<lambda>r. Add (ir_key r) (ir_value r)) kvs) s, Inr ())"
    by (induction kvs arbitrary: s) (simp_all add: split_beta insert_kv_Ok rpc_add_eq)
  then have remote: "storage_abs L (fst (rpc_batch L kvs s)) =
      fold spec_step (map (\<lambda>r. Add (ir_key r) (ir_value r)) kvs) (storage_abs L s)"
    using server.run_refines [of L s "map (\<lambda>r. Add (ir_key r) (ir_value r)) kvs"] assms
    by (simp del: server_step.simps add: comp_def)
  have "kv_of L (fst (batch_insert_kv L kvs s)) = kv_of L (fst (rpc_batch L kvs s))"
    using assms by (simp add: kv_of_batch kv_of_rpc_batch)
  also have "\<dots> = sp_kv (fold spec_step (map (\<lambda>r. Add (ir_key r) (ir_value r)) kvs) (storage_abs L s))"
    by (simp only: remote flip: sp_storage_abs)
  finally show ?thesis
    using remote storage_abs_kv_update zs_of_batch by blast
qed

theorem batch_insertion_witness:
  "sp_kv (storage_abs ref_libs (fst (rpc_batch ref_libs [\<lparr>ir_key = ''k'', ir_value = ''v''\<rparr>]
      (new_storage ref_libs [] [])))) ''k'' = Some ''v''"
  using batch_insertion [OF ref_libs_ok new_storage_ok [OF ref_libs_ok],
    of "[\<lparr>ir_key = ''k'', ir_value = ''v''\<rparr>]" "[]" "[]"]
  by simp

end
