(* ===== verification/Durability.thy ===== *)
theory Durability
  imports Peer_Server
begin

text \<open>
  What survives a restart: \<open>restart\<close> is \<open>main\<close> building a fresh store over the two
  databases and loading them. A zset member is one database entry, its key the zset key, a zero
  byte and the member, its value the score as four little-endian bytes. \<open>disk_synced\<close> says
  that the databases hold exactly the contents of the store; the commands that keep it are
  \<open>durable_cmd\<close>, and adding over or deleting a zset that has members is not one of them.
\<close>

section \<open>Database keys\<close>

definition key_clean :: "string \<Rightarrow> bool" where
  "key_clean k \<longleftrightarrow> 0 \<notin> set (as_bytes k)"

lemma decode_get_zset_key: "key_clean k \<Longrightarrow> decode_zset_key (get_zset_key k v) = Inr (k, v)"
  by (simp add: decode_zset_key_def get_zset_key_def key_clean_def numeral_2_eq_2 split_first_sep
      bytes_simps)

interpretation zset_key: codec "\<lambda>(k, v). get_zset_key k v" decode_zset_key "\<lambda>(k, v). key_clean k"
  by unfold_locales (auto simp: decode_get_zset_key)

lemma get_zset_key_inject:
  "\<lbrakk>key_clean k; key_clean k'\<rbrakk> \<Longrightarrow> get_zset_key k v = get_zset_key k' v' \<longleftrightarrow> k = k' \<and> v = v'"
  using zset_key.enc_inject [of "(k, v)" "(k', v')"] by simp

section \<open>Restarting\<close>

definition restart ::
    "('kv, 'vs, 'zm, 'db) libs \<Rightarrow> ('kv, 'vs, 'zm, 'db) storage \<Rightarrow>
     ('kv, 'vs, 'zm, 'db) storage \<times> unit result" where
  "restart L s = load_from_disk L (new_storage L (st_db s) (st_zset_db s))"

definition score_of :: "('kv, 'vs, 'zm, 'db) libs \<Rightarrow> ('kv, 'vs, 'zm, 'db) storage \<Rightarrow>
    string \<Rightarrow> string \<Rightarrow> u32 option" where
  "score_of L s k v = sp_score (storage_abs L s) k v"

definition disk_kv :: "('kv, 'vs, 'zm, 'db) libs \<Rightarrow> ('kv, 'vs, 'zm, 'db) storage \<Rightarrow>
    string \<Rightarrow> string option" where
  "disk_kv L s k = map_option from_utf8_unchecked (rdb_lookup (lib_db L) (st_db s) (as_bytes k))"

definition disk_score :: "('kv, 'vs, 'zm, 'db) libs \<Rightarrow> ('kv, 'vs, 'zm, 'db) storage \<Rightarrow>
    string \<Rightarrow> string \<Rightarrow> u32 option" where
  "disk_score L s k v =
     (if key_clean k
      then Option.bind (rdb_lookup (lib_db L) (st_zset_db s) (get_zset_key k v))
             (\<lambda>b. case read_u32_le b of Inl _ \<Rightarrow> None | Inr sc \<Rightarrow> Some sc)
      else None)"

text \<open>Every entry of the zset database was written by \<open>zadd\<close> under a key without zero byte.\<close>

definition zset_entry_ok :: "bytes \<times> bytes \<Rightarrow> bool" where
  "zset_entry_ok e \<longleftrightarrow>
     (\<exists>k v sc. key_clean k \<and> e = (get_zset_key k v, to_le_bytes sc))"

definition disk_wf :: "('kv, 'vs, 'zm, 'db) libs \<Rightarrow> ('kv, 'vs, 'zm, 'db) storage \<Rightarrow> bool" where
  "disk_wf L s \<longleftrightarrow>
     (\<forall>b v. rdb_lookup (lib_db L) (st_zset_db s) b = Some v \<longrightarrow> zset_entry_ok (b, v))"

definition disk_synced :: "('kv, 'vs, 'zm, 'db) libs \<Rightarrow> ('kv, 'vs, 'zm, 'db) storage \<Rightarrow> bool" where
  "disk_synced L s \<longleftrightarrow>
     disk_wf L s \<and> disk_kv L s = kv_of L s \<and> (\<forall>k v. disk_score L s k v = score_of L s k v)"

section \<open>Loading\<close>

lemma score_of_zadd_memory:
  "\<lbrakk>libs_ok L; storage_ok L s\<rbrakk> \<Longrightarrow>
     score_of L (zadd_memory L k sv s) k' v' =
       (if k' = k \<and> v' = sv_value sv then Some (sv_score sv) else score_of L s k' v')"
  by (auto simp: score_of_def storage_abs_def sp_score_def zadd_memory_abs zs_put_def split: option.splits)

lemma load_kv_kv_of:
  assumes L: "libs_ok L"
  shows "kv_of L (load_kv L es s) k =
    (case map_of (rev es) (as_bytes k) of None \<Rightarrow> kv_of L s k | Some v \<Rightarrow> Some (from_utf8_unchecked v))"
proof (induction es arbitrary: s)
  case Nil
  then show ?case by (simp add: load_kv_def)
next
  case (Cons e es)
  obtain b v where e: "e = (b, v)" by (cases e)
  let ?s = "s\<lparr>st_kv := ck_insert (lib_kv L) (st_kv s) (from_utf8_unchecked b) (from_utf8_unchecked v)\<rparr>"
  have "kv_of L ?s k = (if as_bytes k = b then Some (from_utf8_unchecked v) else kv_of L s k)"
    by (auto simp: kv_of_def kv_laws [OF L] bytes_simps)
  moreover have "load_kv L (e # es) s = load_kv L es ?s"
    by (simp add: load_kv_def e)
  ultimately show ?case
    by (simp add: Cons.IH e map_add_def split: option.splits)
qed

lemma load_kv_frame:
  "st_zsets (load_kv L es s) = st_zsets s" "st_heap (load_kv L es s) = st_heap s"
  "st_next (load_kv L es s) = st_next s" "st_db (load_kv L es s) = st_db s"
  "st_zset_db (load_kv L es s) = st_zset_db s"
  by (induction es arbitrary: s; simp add: load_kv_def split_beta)+

lemma load_zsets_kv_of: "kv_of L (fst (load_zsets L es s)) = kv_of L s"
  by (induction L es s rule: load_zsets.induct)
    (auto simp: kv_of_zadd_memory split: sum.splits prod.splits)

text \<open>What loading the entries \<open>es\<close> makes of the score of a member.\<close>

definition loaded_score :: "(bytes \<times> bytes) list \<Rightarrow> string \<Rightarrow> string \<Rightarrow> u32 option \<Rightarrow> u32 option" where
  "loaded_score es k v old =
     (if key_clean k
      then (case map_of es (get_zset_key k v) of
              None \<Rightarrow> old
            | Some b \<Rightarrow> (case read_u32_le b of Inl _ \<Rightarrow> None | Inr sc \<Rightarrow> Some sc))
      else old)"

lemma loaded_score_Nil [simp]: "loaded_score [] k v old = old"
  by (simp add: loaded_score_def)

lemma loaded_score_Cons:
  assumes "key_clean k0" and "get_zset_key k0 v0 \<notin> fst ` set es"
  shows "loaded_score ((get_zset_key k0 v0, to_le_bytes sc0) # es) k v old =
    loaded_score es k v (if k = k0 \<and> v = v0 then Some sc0 else old)"
proof -
  have "map_of es (get_zset_key k0 v0) = None"
    using assms(2) by (simp add: map_of_eq_None_iff)
  then show ?thesis
    using assms(1) get_zset_key_inject [of k k0 v v0]
    by (auto simp: loaded_score_def bytes_simps)
qed

lemma load_zsets_correct:
  assumes L: "libs_ok L"
  shows "\<lbrakk>storage_ok L s; distinct (map fst es); \<forall>e \<in> set es. zset_entry_ok e\<rbrakk> \<Longrightarrow>
    \<exists>s'. load_zsets L es s = (s', Inr ()) \<and> storage_ok L s' \<and>
      (\<forall>k v. score_of L s' k v = loaded_score es k v (score_of L s k v))"
proof (induction es arbitrary: s)
  case Nil
  then show ?case by simp
next
  case (Cons e es)
  from Cons.prems(3) obtain k0 v0 sc0 where clean: "key_clean k0"
    and e: "e = (get_zset_key k0 v0, to_le_bytes sc0)"
    by (auto simp: zset_entry_ok_def)
  let ?s = "zadd_memory L k0 (Score_Value sc0 v0) s"
  have load: "load_zsets L (e # es) s = load_zsets L es ?s"
    by (simp add: e decode_get_zset_key [OF clean] bytes_simps)
  have "storage_ok L ?s" using zadd_memory_abs [OF L Cons.prems(1)] by simp
  moreover have "distinct (map fst es)" "\<forall>e \<in> set es. zset_entry_ok e"
    using Cons.prems by simp_all
  ultimately obtain s' where s': "load_zsets L es ?s = (s', Inr ())" "storage_ok L s'"
    and score: "\<forall>k v. score_of L s' k v = loaded_score es k v (score_of L ?s k v)"
    using Cons.IH by blast
  have "get_zset_key k0 v0 \<notin> fst ` set es" using Cons.prems(2) by (simp add: e)
  from loaded_score_Cons [OF clean this]
  have "score_of L s' k v = loaded_score (e # es) k v (score_of L s k v)" for k v
    by (simp add: score score_of_zadd_memory [OF L Cons.prems(1)] e)
  with s' show ?case by (simp add: load)
qed

lemma map_of_rev_distinct: "distinct (map fst xs) \<Longrightarrow> map_of (rev xs) = map_of xs"
  by (rule map_of_eqI) (auto simp: rev_map [symmetric])

lemma restart_contents:
  assumes L: "libs_ok L" and wf: "disk_wf L s"
  shows "\<exists>s'. restart L s = (s', Inr ()) \<and> storage_ok L s' \<and> kv_of L s' = disk_kv L s \<and>
    (\<forall>k v. score_of L s' k v = disk_score L s k v)"
proof -
  let ?R = "lib_db L"
  let ?n = "new_storage L (st_db s) (st_zset_db s)"
  let ?es = "rdb_scan ?R (st_zset_db s)"
  let ?s0 = "load_kv L (rdb_scan ?R (st_db s)) ?n"
  note R = libs_okD(4) [OF L]
  have empty: "kv_of L ?n = Map.empty" "\<And>k. zs_of L ?n k = None"
    using new_storage_abs [OF L, of "st_db s" "st_zset_db s"]
    by (simp_all add: storage_abs_def spec_empty_def)
  have ok0: "storage_ok L ?s0" and zs0: "zs_of L ?s0 = zs_of L ?n"
    using new_storage_ok [OF L, of "st_db s" "st_zset_db s"]
    by (simp_all add: storage_ok_def zs_of_def load_kv_frame fun_eq_iff)
  have score0: "score_of L ?s0 k v = None" for k v
    by (simp add: score_of_def sp_score_def storage_abs_def zs0 empty)
  have "\<forall>e \<in> set ?es. zset_entry_ok e"
    using wf by (auto simp: disk_wf_def rdb_scan_lookup [OF R])
  from load_zsets_correct [OF L ok0 rdb_scan_distinct [OF R] this] obtain s' where
    s': "load_zsets L ?es ?s0 = (s', Inr ())" "storage_ok L s'"
    and score: "\<forall>k v. score_of L s' k v = loaded_score ?es k v (score_of L ?s0 k v)"
    by blast
  have scan: "map_of (rev (rdb_scan ?R d)) = rdb_lookup ?R d" for d
    by (simp add: rdb_lookup_def rdb_scan_distinct [OF R] map_of_rev_distinct)
  have "restart L s = (s', Inr ())"
    using s'(1) by (simp add: restart_def load_from_disk_def new_storage_def)
  moreover have "kv_of L s' = disk_kv L s"
    using load_zsets_kv_of [of L ?es ?s0] s'(1)
    by (auto simp: fun_eq_iff load_kv_kv_of [OF L] scan empty disk_kv_def split: option.splits)
  moreover have "score_of L s' k v = disk_score L s k v" for k v
    by (simp add: score score0 loaded_score_def disk_score_def rdb_lookup_def split: option.splits)
  ultimately show ?thesis using s'(2) by blast
qed

section \<open>Commands that keep the databases in step\<close>

definition durable_cmd ::
    "('kv, 'vs, 'zm, 'db) libs \<Rightarrow> ('kv, 'vs, 'zm, 'db) storage \<Rightarrow> cmd \<Rightarrow> bool" where
  "durable_cmd L s c =
     (case c of
        Add k _ \<Rightarrow> (\<forall>v. score_of L s k v = None)
      | Del k \<Rightarrow> (\<forall>v. score_of L s k v = None)
      | Zadd k _ \<Rightarrow> key_clean k
      | Zrmv _ _ \<Rightarrow> True)"

fun durable_run ::
    "('kv, 'vs, 'zm, 'db) libs \<Rightarrow> ('kv, 'vs, 'zm, 'db) storage \<Rightarrow> cmd list \<Rightarrow> bool" where
  "durable_run L s [] = True"
| "durable_run L s (c # cs) \<longleftrightarrow> durable_cmd L s c \<and> durable_run L (server_step L c s) cs"

lemma server_step_dbs:
  "st_db (server_step L (Add k v) s) =
     fst (rdb_put (lib_db L) (st_db s) (as_bytes k) (as_bytes v))"
  "st_zset_db (server_step L (Add k v) s) = st_zset_db s"
  "st_db (server_step L (Del k) s) = fst (rdb_delete (lib_db L) (st_db s) (as_bytes k))"
  "st_zset_db (server_step L (Del k) s) = st_zset_db s"
  "st_db (server_step L (Zadd k sv) s) = st_db s"
  "st_zset_db (server_step L (Zadd k sv) s) = fst (rdb_put (lib_db L) (st_zset_db s)
     (get_zset_key k (sv_value sv)) (to_le_bytes (sv_score sv)))"
  "st_db (server_step L (Zrmv k v) s) = st_db s"
  by (auto simp: rpc_add_eq rpc_del_eq rpc_zadd_def rpc_zrmv_def insert_kv_def Let_def
      insert_kv_in_memory_def zsets_remove_def remove_key_def remove_key_in_memory_def zadd_def
      zadd_memory_def zrmv_def split: option.splits prod.splits)

text \<open>The entry of a member is deleted exactly when the member was there.\<close>

lemma server_step_zrmv_db:
  assumes L: "libs_ok L"
  shows "st_zset_db (server_step L (Zrmv k v) s) =
    (if score_of L s k v = None then st_zset_db s
     else fst (rdb_delete (lib_db L) (st_zset_db s) (get_zset_key k v)))"
proof (cases "ck_get (lib_zm L) (st_zsets s) k")
  case None
  then show ?thesis
    by (simp add: rpc_zrmv_def zrmv_def score_of_def storage_abs_def sp_score_def zs_of_def)
next
  case (Some a)
  then have "score_of L s k v = snd (zset_remove (lib_vs L) (st_heap s a) v)"
    by (simp add: score_of_def storage_abs_def sp_score_def zs_of_def
        zset_abs_remove(2) [OF libs_okD(2) [OF L]])
  with Some show ?thesis
    by (auto simp: rpc_zrmv_def zrmv_def split: prod.splits option.splits)
qed

lemma disk_kv_step:
  assumes "libs_ok L" and "rocks_reliable (lib_db L)"
  shows "disk_kv L (server_step L c s) = (case c of
      Add k v \<Rightarrow> (disk_kv L s)(k \<mapsto> v) | Del k \<Rightarrow> (disk_kv L s)(k := None) | _ \<Rightarrow> disk_kv L s)"
  by (cases c)
    (auto simp del: server_step.simps
      simp: disk_kv_def fun_eq_iff server_step_dbs db_laws [OF assms] as_bytes_inject bytes_simps)

lemma kv_of_step:
  "\<lbrakk>libs_ok L; storage_ok L s\<rbrakk> \<Longrightarrow> kv_of L (server_step L c s) = (case c of
      Add k v \<Rightarrow> (kv_of L s)(k \<mapsto> v) | Del k \<Rightarrow> (kv_of L s)(k := None) | _ \<Rightarrow> kv_of L s)"
  using server_step_abs [of L s c] by (cases c) (auto simp: storage_abs_def)

lemma score_of_step:
  "\<lbrakk>libs_ok L; storage_ok L s\<rbrakk> \<Longrightarrow>
     score_of L (server_step L c s) k v = sp_score (spec_step c (storage_abs L s)) k v"
  by (simp add: score_of_def server_step_abs del: server_step.simps)

lemma disk_score_zadd:
  assumes "libs_ok L" and "rocks_reliable (lib_db L)" and "key_clean k"
  shows "disk_score L (server_step L (Zadd k sv) s) k' v' =
    (if k' = k \<and> v' = sv_value sv then Some (sv_score sv) else disk_score L s k' v')"
  using assms(3) get_zset_key_inject [of k' k v' "sv_value sv"]
  by (auto simp del: server_step.simps
      simp: disk_score_def server_step_dbs db_laws [OF assms(1,2)] bytes_simps)

lemma disk_score_zrmv:
  assumes "libs_ok L" and "rocks_reliable (lib_db L)" and "disk_score L s k v = score_of L s k v"
  shows "disk_score L (server_step L (Zrmv k v) s) k' v' =
    (if k' = k \<and> v' = v then None else disk_score L s k' v')"
proof (cases "score_of L s k v")
  case None
  with assms(3) show ?thesis
    using server_step_zrmv_db [OF assms(1), of k v s]
    by (auto simp: disk_score_def simp del: server_step.simps)
next
  case (Some sc)
  then have "key_clean k" using assms(3) by (auto simp: disk_score_def split: if_splits)
  then show ?thesis
    using Some server_step_zrmv_db [OF assms(1), of k v s] get_zset_key_inject [of k' k v' v]
    by (auto simp: disk_score_def db_laws [OF assms(1,2)] simp del: server_step.simps)
qed

lemma disk_wf_step:
  assumes L: "libs_ok L" "rocks_reliable (lib_db L)" and wf: "disk_wf L s"
    and c: "\<And>k sv. c = Zadd k sv \<Longrightarrow> key_clean k"
  shows "disk_wf L (server_step L c s)"
proof (cases c)
  case (Zrmv k v)
  then show ?thesis
    using wf server_step_zrmv_db [OF L(1), of k v s]
    by (auto simp: disk_wf_def db_laws [OF L] simp del: server_step.simps split: if_splits)
next
  case (Zadd k sv)
  have "zset_entry_ok (get_zset_key k (sv_value sv), to_le_bytes (sv_score sv))"
    using c [OF Zadd] by (auto simp: zset_entry_ok_def)
  with Zadd wf show ?thesis
    by (auto simp: disk_wf_def server_step_dbs db_laws [OF L] simp del: server_step.simps)
qed (use wf in \<open>auto simp: disk_wf_def server_step_dbs simp del: server_step.simps\<close>)

lemma disk_synced_step:
  assumes L: "libs_ok L" "rocks_reliable (lib_db L)" and ok: "storage_ok L s"
    and synced: "disk_synced L s" and c: "durable_cmd L s c"
  shows "disk_synced L (server_step L c s)"
proof -
  have scores: "disk_score L s k v = score_of L s k v" for k v
    using synced by (simp add: disk_synced_def)
  have wf: "disk_wf L (server_step L c s)"
    by (rule disk_wf_step [OF L]) (use synced c in \<open>auto simp: disk_synced_def durable_cmd_def\<close>)
  have kv: "disk_kv L (server_step L c s) = kv_of L (server_step L c s)"
    using synced by (simp add: disk_kv_step [OF L] kv_of_step [OF L(1) ok] disk_synced_def split: cmd.split)
  have "disk_score L (server_step L c s) k v = sp_score (spec_step c (storage_abs L s)) k v" for k v
  proof (cases c)
    case (Add k' v')
    then have "disk_score L (server_step L c s) k v = disk_score L s k v"
      by (simp add: disk_score_def server_step_dbs del: server_step.simps)
    with Add c scores show ?thesis
      by (simp add: durable_cmd_def score_of_def del: server_step.simps spec_step.simps)
  next
    case (Del k')
    then have "disk_score L (server_step L c s) k v = disk_score L s k v"
      by (simp add: disk_score_def server_step_dbs del: server_step.simps)
    with Del c scores show ?thesis
      by (simp add: durable_cmd_def score_of_def del: server_step.simps spec_step.simps)
  next
    case (Zadd k' sv)
    with c have "key_clean k'" by (simp add: durable_cmd_def)
    from disk_score_zadd [OF L this, of sv s k v] scores Zadd show ?thesis
      by (simp add: score_of_def del: server_step.simps spec_step.simps)
  next
    case (Zrmv k' v')
    from disk_score_zrmv [OF L scores, of k' v' k v] scores Zrmv show ?thesis
      by (simp add: score_of_def del: server_step.simps spec_step.simps)
  qed
  then show ?thesis
    using wf kv by (simp add: disk_synced_def score_of_step [OF L(1) ok])
qed

lemma disk_synced_run:
  assumes L: "libs_ok L" "rocks_reliable (lib_db L)"
  shows "\<lbrakk>storage_ok L s; disk_synced L s; durable_run L s cs\<rbrakk> \<Longrightarrow>
    disk_synced L (fold (server_step L) cs s) \<and> storage_ok L (fold (server_step L) cs s)"
  by (induction cs arbitrary: s)
    (auto simp: disk_synced_step [OF L] server_step_ok [OF L(1)] simp del: server_step.simps)

lemma run_keeps_disk:
  assumes L: "libs_ok L" "rocks_reliable (lib_db L)" and ok: "storage_ok L s" and wf: "disk_wf L s"
    and kv: "disk_kv L s = kv_of L s" and clean: "\<forall>k sv. Zadd k sv \<in> set cs \<longrightarrow> key_clean k"
  shows "disk_wf L (fold (server_step L) cs s) \<and>
    disk_kv L (fold (server_step L) cs s) = kv_of L (fold (server_step L) cs s)"
  using ok wf kv clean
proof (induction cs arbitrary: s)
  case (Cons c cs)
  have "storage_ok L (server_step L c s)" by (rule server_step_ok [OF L(1) Cons.prems(1)])
  moreover have "disk_wf L (server_step L c s)"
    by (rule disk_wf_step [OF L Cons.prems(2)]) (use Cons.prems(4) in auto)
  moreover have "disk_kv L (server_step L c s) = kv_of L (server_step L c s)"
    using Cons.prems(3) by (simp add: disk_kv_step [OF L] kv_of_step [OF L(1) Cons.prems(1)]
        split: cmd.split)
  moreover have "\<forall>k sv. Zadd k sv \<in> set cs \<longrightarrow> key_clean k" using Cons.prems(4) by simp
  ultimately have "disk_wf L (fold (server_step L) cs (server_step L c s)) \<and>
      disk_kv L (fold (server_step L) cs (server_step L c s)) = kv_of L (fold (server_step L) cs (server_step L c s))"
    by (rule Cons.IH)
  then show ?case by simp
qed simp

lemma new_storage_synced:
  assumes L: "libs_ok L" and "rdb_scan (lib_db L) db = []" and "rdb_scan (lib_db L) zset_db = []"
  shows "disk_synced L (new_storage L db zset_db)"
  using assms(2,3) new_storage_abs [OF L, of db zset_db]
  by (auto simp: disk_synced_def disk_wf_def disk_kv_def disk_score_def score_of_def sp_score_def
      storage_abs_def spec_empty_def new_storage_def rdb_lookup_def fun_eq_iff)

lemma synced_restart:
  assumes L: "libs_ok L" and "disk_synced L s"
  shows "\<exists>s'. restart L s = (s', Inr ()) \<and> storage_ok L s' \<and> kv_of L s' = kv_of L s \<and>
    score_of L s' = score_of L s"
  using restart_contents [OF L, of s] assms(2) by (auto simp: disk_synced_def fun_eq_iff)

section \<open>Properties\<close>

lemma sample_synced: "disk_synced ref_libs (new_storage ref_libs [] [])"
  by (rule new_storage_synced [OF ref_libs_ok]) (simp_all add: ref_defs)

text \<open>
  C4. A history of commands on a new store over empty databases, none of which adds over or
  deletes a sorted set with members and all of whose sorted-set keys are free of zero bytes,
  survives a restart: loading the databases succeeds and gives back every value and the score of
  every member.
\<close>

theorem durable_restart:
  assumes "libs_ok L" and "rocks_reliable (lib_db L)"
    and "rdb_scan (lib_db L) db = []" and "rdb_scan (lib_db L) zset_db = []"
    and "durable_run L (new_storage L db zset_db) cs"
  shows "\<exists>s'. restart L (fold (server_step L) cs (new_storage L db zset_db)) = (s', Inr ()) \<and>
    storage_ok L s' \<and> kv_of L s' = sp_kv (fold spec_step cs spec_empty) \<and>
    (\<forall>k v. score_of L s' k v = sp_score (fold spec_step cs spec_empty) k v)"
proof -
  let ?s = "new_storage L db zset_db"
  have synced: "disk_synced L (fold (server_step L) cs ?s)"
    using disk_synced_run [OF assms(1,2) new_storage_ok [OF assms(1)] new_storage_synced [OF assms(1,3,4)] assms(5)]
    by simp
  have "storage_abs L (fold (server_step L) cs ?s) = fold spec_step cs spec_empty"
    using server.run_refines [of L ?s cs] assms(1) by (simp add: new_storage_ok new_storage_abs)
  then have "kv_of L (fold (server_step L) cs ?s) = sp_kv (fold spec_step cs spec_empty)"
    and "score_of L (fold (server_step L) cs ?s) k v = sp_score (fold spec_step cs spec_empty) k v" for k v
    by (simp_all add: score_of_def flip: sp_storage_abs)
  with synced_restart [OF assms(1) synced] show ?thesis by auto
qed

theorem durable_restart_witness:
  "\<exists>s'. restart ref_libs (fold (server_step ref_libs)
      [Add ''k'' ''v'', Zadd ''z'' (Score_Value 3 ''m''), Zadd ''z'' (Score_Value 4 ''n''), Zrmv ''z'' ''m'']
      (new_storage ref_libs [] [])) = (s', Inr ()) \<and>
    kv_of ref_libs s' ''k'' = Some ''v'' \<and> score_of ref_libs s' ''z'' ''n'' = Some 4 \<and>
    score_of ref_libs s' ''z'' ''m'' = None"
proof -
  have "durable_run ref_libs (new_storage ref_libs [] [])
      [Add ''k'' ''v'', Zadd ''z'' (Score_Value 3 ''m''), Zadd ''z'' (Score_Value 4 ''n''), Zrmv ''z'' ''m'']"
    using new_storage_abs [OF ref_libs_ok, of "[]" "[]"]
    by (simp add: durable_cmd_def key_clean_def as_bytes_def score_of_def sp_score_def spec_empty_def)
  from durable_restart [OF ref_libs_ok ref_libs_reliable ref_scan_empty ref_scan_empty this]
  show ?thesis by (auto simp: spec_empty_def sp_score_def zs_put_def zs_del_def)
qed

text \<open>
  C22. After any history whose sorted-set keys are free of zero bytes, the databases load again
  without a panic and every value is back, also when sorted sets were deleted or overwritten.
\<close>

theorem restart_keeps_values:
  assumes "libs_ok L" and "rocks_reliable (lib_db L)"
    and "rdb_scan (lib_db L) db = []" and "rdb_scan (lib_db L) zset_db = []"
    and "\<forall>k sv. Zadd k sv \<in> set cs \<longrightarrow> key_clean k"
  shows "\<exists>s'. restart L (fold (server_step L) cs (new_storage L db zset_db)) = (s', Inr ()) \<and>
    storage_ok L s' \<and> kv_of L s' = sp_kv (fold spec_step cs spec_empty)"
proof -
  let ?s = "new_storage L db zset_db"
  have "disk_synced L ?s" by (rule new_storage_synced [OF assms(1,3,4)])
  then have "disk_wf L (fold (server_step L) cs ?s)"
    "disk_kv L (fold (server_step L) cs ?s) = kv_of L (fold (server_step L) cs ?s)"
    using run_keeps_disk [OF assms(1,2) new_storage_ok [OF assms(1)] _ _ assms(5)] by (simp_all add: disk_synced_def)
  moreover have "storage_abs L (fold (server_step L) cs ?s) = fold spec_step cs spec_empty"
    using server.run_refines [of L ?s cs] assms(1) by (simp add: new_storage_ok new_storage_abs)
  then have "kv_of L (fold (server_step L) cs ?s) = sp_kv (fold spec_step cs spec_empty)"
    by (simp flip: sp_storage_abs)
  ultimately show ?thesis using restart_contents [OF assms(1)] by metis
qed

theorem restart_keeps_values_witness:
  "\<exists>s'. restart ref_libs (fold (server_step ref_libs)
      [Zadd ''z'' (Score_Value 3 ''m''), Add ''z'' ''v'', Add ''k'' ''w'', Del ''k'']
      (new_storage ref_libs [] [])) = (s', Inr ()) \<and>
    kv_of ref_libs s' ''z'' = Some ''v'' \<and> kv_of ref_libs s' ''k'' = None"
proof -
  have "\<forall>k sv. Zadd k sv \<in> set [Zadd ''z'' (Score_Value 3 ''m''), Add ''z'' ''v'', Add ''k'' ''w'', Del ''k''] \<longrightarrow> key_clean k"
    by (simp add: key_clean_def as_bytes_def)
  from restart_keeps_values [OF ref_libs_ok ref_libs_reliable ref_scan_empty ref_scan_empty this]
  show ?thesis by (auto simp: spec_empty_def)
qed

text \<open>
  C23. Deleting a key that is a sorted set, or adding over it, takes its members out of memory
  only: after the next restart every member is back with its score.
\<close>

theorem deleted_zset_returns:
  assumes "libs_ok L" and "rocks_reliable (lib_db L)" and "storage_ok L s" and "disk_synced L s"
    and "score_of L s k v = Some sc" and "c = Del k \<or> c = Add k x"
  shows "score_of L (server_step L c s) k v = None \<and>
    (\<exists>s'. restart L (server_step L c s) = (s', Inr ()) \<and> score_of L s' k v = Some sc)"
proof -
  have wf: "disk_wf L (server_step L c s)"
    by (rule disk_wf_step [OF assms(1,2)]) (use assms(4,6) in \<open>auto simp: disk_synced_def\<close>)
  have "disk_score L (server_step L c s) k v = disk_score L s k v"
    using assms(6) by (auto simp: disk_score_def server_step_dbs simp del: server_step.simps)
  then have "disk_score L (server_step L c s) k v = Some sc"
    using assms(4,5) by (simp add: disk_synced_def)
  moreover have "score_of L (server_step L c s) k v = None"
    using assms(6) by (auto simp: score_of_step [OF assms(1,3)] simp del: server_step.simps spec_step.simps)
  ultimately show ?thesis using restart_contents [OF assms(1) wf] by auto
qed

theorem deleted_zset_returns_witness:
  "\<exists>s'. restart ref_libs (server_step ref_libs (Del ''z'')
      (server_step ref_libs (Zadd ''z'' (Score_Value 3 ''m'')) (new_storage ref_libs [] []))) = (s', Inr ()) \<and>
    score_of ref_libs s' ''z'' ''m'' = Some 3"
proof -
  let ?t = "new_storage ref_libs [] []"
  let ?s = "server_step ref_libs (Zadd ''z'' (Score_Value 3 ''m'')) ?t"
  note ok = new_storage_ok [OF ref_libs_ok, of "[]" "[]"]
  have "durable_cmd ref_libs ?t (Zadd ''z'' (Score_Value 3 ''m''))"
    by (simp add: durable_cmd_def key_clean_def as_bytes_def)
  then have "disk_synced ref_libs ?s"
    by (rule disk_synced_step [OF ref_libs_ok ref_libs_reliable ok sample_synced])
  moreover have "score_of ref_libs ?s ''z'' ''m'' = Some 3"
    by (simp add: score_of_step [OF ref_libs_ok ok] del: server_step.simps spec_step.simps)
  ultimately show ?thesis
    using deleted_zset_returns [OF ref_libs_ok ref_libs_reliable server_step_ok [OF ref_libs_ok ok],
        of "Zadd ''z'' (Score_Value 3 ''m'')" "''z''" "''m''" 3 "Del ''z''"]
    by blast
qed

text \<open>
  C34. The database key of a sorted-set member decodes to the set's key and the member exactly if
  the set's key has no zero byte; a score is read back from the four bytes it is written as, and
  no other byte string reads as that score.
\<close>

lemma read_u32_le_inject:
  assumes "read_u32_le bs = Inr w"
  shows "bs = to_le_bytes w"
proof -
  from assms obtain a b c d where bs: "bs = [a, b, c, d]"
    and w: "w = ucast a OR push_bit 8 (ucast b) OR push_bit 16 (ucast c) OR push_bit 24 (ucast d)"
    by (cases bs rule: read_u32_le.cases) auto
  show ?thesis
    unfolding bs to_le_bytes_def w
    by (intro arg_cong2 [where f = Cons] refl; rule bit_word_eqI)
      (auto simp: bit_simps dest: bit_imp_le_length)
qed

theorem disk_encodings:
  "(decode_zset_key (get_zset_key k v) = Inr (k, v) \<longleftrightarrow> key_clean k) \<and>
   (read_u32_le bs = Inr w \<longleftrightarrow> bs = to_le_bytes w)"
proof (intro conjI iffI)
  assume dec: "decode_zset_key (get_zset_key k v) = Inr (k, v)"
  have "split_first 0 (as_bytes k @ 0 # as_bytes v) \<noteq> None" by (simp add: split_first_is_None)
  then obtain a b where sp: "split_first 0 (as_bytes k @ 0 # as_bytes v) = Some (a, b)" by auto
  with dec have "from_utf8_unchecked a = k"
    by (simp add: decode_zset_key_def get_zset_key_def numeral_2_eq_2)
  then have "as_bytes k = a" by (auto simp: bytes_simps)
  with split_first_Some [OF sp] show "key_clean k" by (simp add: key_clean_def)
next
  assume "key_clean k"
  then show "decode_zset_key (get_zset_key k v) = Inr (k, v)" by (rule decode_get_zset_key)
next
  assume "read_u32_le bs = Inr w"
  then show "bs = to_le_bytes w" by (rule read_u32_le_inject)
next
  assume "bs = to_le_bytes w"
  then show "read_u32_le bs = Inr w" by (simp add: bytes_simps)
qed

end
