(* ===== verification/Remote.thy ===== *)
theory Remote
  imports Durability
begin

text \<open>
  Nodes that call each other (\<open>get_kv_remote\<close> and the seven other \<open>_remote\<close> operations of
  \<open>storage.rs\<close>). A world holds the store of every address, the cluster file on its disk, and
  the fate of each remote call, which stands for the network and the crate \<open>tarpc\<close>: a call is
  delivered and answered, lost on its way, or executed with its reply lost. The caller sees an
  error in the last two cases, and also when the method panics.
\<close>

section \<open>The world\<close>

datatype rpc_fate = Delivered | Lost_request | Lost_reply

datatype file_fate = Create_fails | Write_fails | Write_succeeds

record 's world =
  w_node :: "string \<Rightarrow> 's"
  w_fate :: "nat \<Rightarrow> rpc_fate"
  w_calls :: nat
  w_file :: "string \<Rightarrow> string option"
  w_disk :: "string \<Rightarrow> file_fate"
  w_connects :: "string \<Rightarrow> bool list"
  w_loaders :: "string \<Rightarrow> nat"
  w_progress :: "string \<Rightarrow> ((u64 \<times> u32 \<times> bytes \<times> bytes) list \<times> bool) list"

definition set_node :: "string \<Rightarrow> 's \<Rightarrow> 's world \<Rightarrow> 's world" where
  "set_node h s w = w\<lparr>w_node := (w_node w)(h := s)\<rparr>"

lemma set_node_simps [simp]:
  "w_node (set_node h s w) = (w_node w)(h := s)" "w_fate (set_node h s w) = w_fate w"
  "w_calls (set_node h s w) = w_calls w" "w_file (set_node h s w) = w_file w"
  "w_disk (set_node h s w) = w_disk w" "w_connects (set_node h s w) = w_connects w"
  "w_loaders (set_node h s w) = w_loaders w" "w_progress (set_node h s w) = w_progress w"
  by (simp_all add: set_node_def)

definition rpc_call :: "string \<Rightarrow> ('s, 'r) rpc_method \<Rightarrow> 's world \<Rightarrow> 's world \<times> 'r unit_result" where
  "rpc_call addr f w =
     (let w1 = w\<lparr>w_calls := Suc (w_calls w)\<rparr>;
          s' = fst (f (w_node w addr))
      in case w_fate w (w_calls w) of
           Lost_request \<Rightarrow> (w1, Inl ())
         | Lost_reply \<Rightarrow> (set_node addr s' w1, Inl ())
         | Delivered \<Rightarrow>
             (set_node addr s' w1,
              case snd (f (w_node w addr)) of Inl _ \<Rightarrow> Inl () | Inr r \<Rightarrow> Inr r))"

section \<open>Calling a peer\<close>

text \<open>
  The part the eight operations share: take a client of the pool (which advances the queue and
  panics when the pool has no such shard), call it, and give it back (which does nothing).
\<close>

definition call_peer ::
    "string \<Rightarrow> nat \<Rightarrow> (('kv, 'vs, 'zm, 'db) storage, 'r) rpc_method \<Rightarrow>
     ('kv, 'vs, 'zm, 'db) storage world \<Rightarrow>
     ('kv, 'vs, 'zm, 'db) storage world \<times> 'r unit_result result" where
  "call_peer h shard f w =
     (let s = w_node w h in
      case pool_get_client (ci_pool (st_cluster s)) shard of (pool, c) \<Rightarrow>
        (let w1 = set_node h (s\<lparr>st_cluster := (st_cluster s)\<lparr>ci_pool := pool\<rparr>\<rparr>) w in
         case c of
           Inl e \<Rightarrow> (w1, Inl e)
         | Inr (Inl _) \<Rightarrow> (w1, Inr (Inl ()))
         | Inr (Inr client) \<Rightarrow>
             (case rpc_call (fst client) f w1 of (w2, r) \<Rightarrow> (w2, Inr r))))"

definition get_kv_remote where
  "get_kv_remote L h key shard w = call_peer h shard (rpc_query L key) w"

definition insert_kv_remote where
  "insert_kv_remote L h key v shard w = call_peer h shard (rpc_add L key v) w"

definition batch_insert_kv_remote where
  "batch_insert_kv_remote L h kvs shard w = call_peer h shard (rpc_batch L kvs) w"

definition list_keys_remote where
  "list_keys_remote L h keys shard w = call_peer h shard (rpc_list L keys) w"

definition remove_key_remote where
  "remove_key_remote L h key shard w = call_peer h shard (rpc_del L key) w"

definition zadd_remote where
  "zadd_remote L h key sv shard w = call_peer h shard (rpc_zadd L key sv) w"

definition zrange_remote where
  "zrange_remote L h key r shard w = call_peer h shard (rpc_zrange L key r) w"

definition zrmv_remote where
  "zrmv_remote L h key v shard w = call_peer h shard (rpc_zrmv L key v) w"

lemmas remote_defs = get_kv_remote_def insert_kv_remote_def batch_insert_kv_remote_def
  list_keys_remote_def remove_key_remote_def zadd_remote_def zrange_remote_def zrmv_remote_def

section \<open>A node whose pool is right\<close>

text \<open>
  The pool of node \<open>h\<close> leads to the nodes of \<open>hosts\<close>, in order. Calling a peer then never
  panics, and changes, besides what the method does at the peer, only the round-robin counters
  of \<open>h\<close>.
\<close>

definition pool_ok :: "string list \<Rightarrow> ('kv, 'vs, 'zm, 'db) storage \<Rightarrow> bool" where
  "pool_ok hosts s \<longleftrightarrow> map q_addr (ci_pool (st_cluster s)) = hosts \<and>
     (\<forall>q \<in> set (ci_pool (st_cluster s)). queue_ok q)"

definition advance_pool :: "nat \<Rightarrow> ('kv, 'vs, 'zm, 'db) storage \<Rightarrow> ('kv, 'vs, 'zm, 'db) storage" where
  "advance_pool i s = s\<lparr>st_cluster := (st_cluster s)\<lparr>ci_pool :=
     (ci_pool (st_cluster s))[i := fst (queue_get_client (ci_pool (st_cluster s) ! i))]\<rparr>\<rparr>"

lemma pool_ok_advance:
  assumes "pool_ok hosts s" and "i < length hosts"
  shows "pool_ok hosts (advance_pool i s)"
proof -
  let ?p = "ci_pool (st_cluster s)"
  have p: "map q_addr ?p = hosts" "\<And>q. q \<in> set ?p \<Longrightarrow> queue_ok q" and i: "i < length ?p"
    using assms by (auto simp: pool_ok_def)
  have "q_addr (fst (queue_get_client (?p ! i))) = q_addr (?p ! i)"
    by (simp add: queue_get_client_def)
  then have "map q_addr (?p[i := fst (queue_get_client (?p ! i))]) = map q_addr ?p"
    by (metis list_update_id map_update)
  then have "map q_addr (?p[i := fst (queue_get_client (?p ! i))]) = hosts"
    using p(1) by simp
  moreover have "queue_ok q" if "q \<in> set (?p[i := fst (queue_get_client (?p ! i))])" for q
  proof -
    have "q = fst (queue_get_client (?p ! i)) \<or> q \<in> set ?p"
      using that set_update_subset_insert by fastforce
    then show ?thesis
      using p(2) queue_get_client_ok(2) [OF p(2), of "?p ! i"] i by auto
  qed
  ultimately show ?thesis by (simp add: pool_ok_def advance_pool_def)
qed

lemma call_peer_ok:
  assumes "pool_ok hosts (w_node w h)" and "i < length hosts"
  shows "call_peer h i f w =
    (case rpc_call (hosts ! i) f (set_node h (advance_pool i (w_node w h)) w) of (w', r) \<Rightarrow> (w', Inr r))"
proof -
  let ?p = "ci_pool (st_cluster (w_node w h))"
  have i: "i < length ?p" and q: "queue_ok (?p ! i)" and addr: "q_addr (?p ! i) = hosts ! i"
    using assms by (auto simp: pool_ok_def)
  obtain c where c: "queue_get_client (?p ! i) = ((?p ! i)\<lparr>q_next := q_next (?p ! i) + 1\<rparr>, Inr (Inr c))"
    and "fst c = hosts ! i"
    using queue_get_client_ok(1) [OF q] unfolding addr by blast
  then have "pool_get_client ?p i =
      (?p[i := fst (queue_get_client (?p ! i))], Inr (Inr c))"
    using i c by (simp add: pool_get_client_def)
  then show ?thesis
    using \<open>fst c = hosts ! i\<close> by (simp add: call_peer_def advance_pool_def Let_def)
qed

lemma call_peer_panics:
  "length (ci_pool (st_cluster (w_node w h))) \<le> i \<Longrightarrow>
     snd (call_peer h i f w) = Inl Index_Out_Of_Bounds"
  by (simp add: call_peer_def pool_get_client_def Let_def)

text \<open>Advancing the counters changes nothing the store is about.\<close>

lemma advance_pool_frame [simp]:
  "st_kv (advance_pool i s) = st_kv s" "st_zsets (advance_pool i s) = st_zsets s"
  "st_heap (advance_pool i s) = st_heap s" "st_next (advance_pool i s) = st_next s"
  "st_me (advance_pool i s) = st_me s" "st_count (advance_pool i s) = st_count s"
  "st_db (advance_pool i s) = st_db s" "st_zset_db (advance_pool i s) = st_zset_db s"
  by (simp_all add: advance_pool_def)

lemma advance_pool_abs [simp]:
  "kv_of L (advance_pool i s) = kv_of L s" "zs_of L (advance_pool i s) = zs_of L s"
  "storage_abs L (advance_pool i s) = storage_abs L s"
  "storage_ok L (advance_pool i s) = storage_ok L s"
  by (simp_all add: kv_of_def zs_of_def storage_abs_def storage_ok_def fun_eq_iff)

end
