(* ===== verification/Handlers.thy ===== *)
theory Handlers
  imports Remote
begin

text \<open>
  The request handlers of \<open>hcache.rs\<close> that read and write data: each decides by the shard of
  the key whether to work on its own store or to call a peer. A handler runs at the node \<open>h\<close>
  and returns the world it leaves and its response, or the fault it ended with. What
  \<open>serde_json\<close> makes of a body, and the other things the program asks its environment for,
  are the fields of the record \<open>env\<close>; no definition looks into them.
\<close>

section \<open>Environment and responses\<close>

record env =
  env_parse_addr :: "string \<Rightarrow> string option"
  env_init_dirs :: "string option"
  env_open_db :: "string \<Rightarrow> (bytes \<times> bytes) list option"
  js_read_insrt :: "string \<Rightarrow> insrt_request option"
  js_read_insrts :: "string \<Rightarrow> insrt_request list option"
  js_read_keys :: "string \<Rightarrow> string list option"
  js_read_score_value :: "string \<Rightarrow> score_value option"
  js_read_score_range :: "string \<Rightarrow> score_range option"
  js_read_score_values :: "string \<Rightarrow> score_value list option"
  js_read_cluster :: "string \<Rightarrow> update_cluster option"
  js_write_insrt :: "insrt_request \<Rightarrow> string"
  js_write_insrts :: "insrt_request list \<Rightarrow> string"
  js_write_keys :: "string list \<Rightarrow> string"
  js_write_score_value :: "score_value \<Rightarrow> string"
  js_write_score_range :: "score_range \<Rightarrow> string"
  js_write_score_values :: "score_value list \<Rightarrow> string"

record http_response =
  rs_status :: nat
  rs_body :: string

definition ok_response :: "string \<Rightarrow> http_response" where
  "ok_response body = \<lparr>rs_status = 200, rs_body = body\<rparr>"

definition empty_response :: "nat \<Rightarrow> http_response" where
  "empty_response status = \<lparr>rs_status = status, rs_body = ''''\<rparr>"

abbreviation "NOT_FOUND \<equiv> (404::nat)"
abbreviation "INTERNAL_SERVER_ERROR \<equiv> (500::nat)"

text \<open>A body that may fail to arrive, and \<open>serde_json::from_slice(..).unwrap()\<close>.\<close>

type_synonym http_body = "string unit_result"

definition read_json :: "(string \<Rightarrow> 'a option) \<Rightarrow> http_body \<Rightarrow> 'a result" where
  "read_json parse body =
     (case body of
        Inl _ \<Rightarrow> Inl Hyper_Error
      | Inr data \<Rightarrow> (case parse data of None \<Rightarrow> Inl Unwrap_Failed | Some x \<Rightarrow> Inr x))"

type_synonym ('kv, 'vs, 'zm, 'db) handler =
  "('kv, 'vs, 'zm, 'db) storage world \<Rightarrow> ('kv, 'vs, 'zm, 'db) storage world \<times> http_response result"

definition local_shard :: "string \<Rightarrow> string \<Rightarrow> ('kv, 'vs, 'zm, 'db) storage world \<Rightarrow> u32" where
  "local_shard h key w = shard_u32 (Hash_str key) (st_count (w_node w h))"

text \<open>The reply to a remote call whose result the handler only checks for an error.\<close>

definition reply_unit :: "'s \<times> 'r unit_result result \<Rightarrow> 's \<times> http_response result" where
  "reply_unit x =
     (case x of
        (w, Inl e) \<Rightarrow> (w, Inl e)
      | (w, Inr (Inl _)) \<Rightarrow> (w, Inr (empty_response INTERNAL_SERVER_ERROR))
      | (w, Inr (Inr _)) \<Rightarrow> (w, Inr (ok_response '''')))"

text \<open>The reply to an optional value, local or remote.\<close>

definition reply_option ::
    "('a \<Rightarrow> string) \<Rightarrow> 's \<times> 'a option unit_result result \<Rightarrow> 's \<times> http_response result" where
  "reply_option render x =
     (case x of
        (w, Inl e) \<Rightarrow> (w, Inl e)
      | (w, Inr (Inl _)) \<Rightarrow> (w, Inr (empty_response INTERNAL_SERVER_ERROR))
      | (w, Inr (Inr None)) \<Rightarrow> (w, Inr (empty_response NOT_FOUND))
      | (w, Inr (Inr (Some v))) \<Rightarrow> (w, Inr (ok_response (render v))))"

section \<open>Single keys\<close>

definition handle_query ::
    "('kv, 'vs, 'zm, 'db) libs \<Rightarrow> string \<Rightarrow> string \<Rightarrow> ('kv, 'vs, 'zm, 'db) handler" where
  "handle_query L h key w =
     (let s = w_node w h; shard = local_shard h key w in
      reply_option (\<lambda>v. v)
        (if shard = st_me s then (w, Inr (Inr (get_kv L s key)))
         else get_kv_remote L h key (unat shard) w))"

definition handle_del ::
    "('kv, 'vs, 'zm, 'db) libs \<Rightarrow> string \<Rightarrow> string \<Rightarrow> ('kv, 'vs, 'zm, 'db) handler" where
  "handle_del L h key w =
     (let s = w_node w h; shard = local_shard h key w in
      if shard = st_me s
      then (case remove_key L key s of (s1, r) \<Rightarrow>
              (case unwrap r of
                 Inl e \<Rightarrow> (set_node h s1 w, Inl e)
               | Inr _ \<Rightarrow> (set_node h (zsets_remove L key s1) w, Inr (ok_response ''''))))
      else reply_unit (remove_key_remote L h key (unat shard) w))"

definition handle_add ::
    "('kv, 'vs, 'zm, 'db) libs \<Rightarrow> env \<Rightarrow> string \<Rightarrow> http_body \<Rightarrow> ('kv, 'vs, 'zm, 'db) handler" where
  "handle_add L E h body w =
     (case read_json (js_read_insrt E) body of
        Inl e \<Rightarrow> (w, Inl e)
      | Inr r \<Rightarrow>
          (let s = w_node w h; shard = local_shard h (ir_key r) w in
           if shard = st_me s
           then (case insert_kv L (ir_key r) (ir_value r) s of (s1, res) \<Rightarrow>
                   (set_node h s1 w,
                    case unwrap res of Inl e \<Rightarrow> Inl e | Inr _ \<Rightarrow> Inr (ok_response '''')))
           else reply_unit (insert_kv_remote L h (ir_key r) (ir_value r) (unat shard) w)))"

definition handle_zadd ::
    "('kv, 'vs, 'zm, 'db) libs \<Rightarrow> env \<Rightarrow> string \<Rightarrow> string \<Rightarrow> http_body \<Rightarrow>
     ('kv, 'vs, 'zm, 'db) handler" where
  "handle_zadd L E h key body w =
     (case read_json (js_read_score_value E) body of
        Inl e \<Rightarrow> (w, Inl e)
      | Inr sv \<Rightarrow>
          (let s = w_node w h; shard = local_shard h key w in
           if shard = st_me s
           then (set_node h (zadd L key sv s) w, Inr (ok_response ''''))
           else reply_unit (zadd_remote L h key sv (unat shard) w)))"

definition handle_zrange ::
    "('kv, 'vs, 'zm, 'db) libs \<Rightarrow> env \<Rightarrow> string \<Rightarrow> string \<Rightarrow> http_body \<Rightarrow>
     ('kv, 'vs, 'zm, 'db) handler" where
  "handle_zrange L E h key body w =
     (case read_json (js_read_score_range E) body of
        Inl e \<Rightarrow> (w, Inl e)
      | Inr r \<Rightarrow>
          (let s = w_node w h; shard = local_shard h key w in
           reply_option (js_write_score_values E)
             (if shard = st_me s
              then (w, case zrange L s key r of Inl e \<Rightarrow> Inl e | Inr svs \<Rightarrow> Inr (Inr svs))
              else zrange_remote L h key r (unat shard) w)))"

definition handle_zrmv ::
    "('kv, 'vs, 'zm, 'db) libs \<Rightarrow> string \<Rightarrow> string \<Rightarrow> string \<Rightarrow> ('kv, 'vs, 'zm, 'db) handler" where
  "handle_zrmv L h key v w =
     (let s = w_node w h; shard = local_shard h key w in
      if shard = st_me s
      then (set_node h (zrmv L key v s) w, Inr (ok_response ''''))
      else reply_unit (zrmv_remote L h key v (unat shard) w))"

section \<open>Batches and lists\<close>

text \<open>
  Grouping by shard into a \<open>HashMap\<close>. Its iteration order is \<open>lib_shards\<close>. The remote
  calls are spawned as tasks of their own; as they work on different nodes, the model runs them in
  that order. Their results are dropped by \<open>handle_batch\<close>; \<open>handle_list\<close> appends those that
  succeeded. A panic in a spawned task is a join error, which both ignore.
\<close>

definition group_batch :: "u64 \<Rightarrow> insrt_request list \<Rightarrow> u32 \<Rightarrow> insrt_request list option" where
  "group_batch peers_count kvs =
     fold (\<lambda>r acc. let shard = shard_u32 (Hash_str (ir_key r)) peers_count in
       acc(shard \<mapsto> (case acc shard of None \<Rightarrow> [] | Some rs \<Rightarrow> rs) @ [r])) kvs Map.empty"

definition group_keys :: "u64 \<Rightarrow> string list \<Rightarrow> u32 \<Rightarrow> string set option" where
  "group_keys peers_count keys =
     fold (\<lambda>key acc. let shard = shard_u32 (Hash_str key) peers_count in
       acc(shard \<mapsto> insert key (case acc shard of None \<Rightarrow> {} | Some ks \<Rightarrow> ks))) keys Map.empty"

fun batch_remotes ::
    "('kv, 'vs, 'zm, 'db) libs \<Rightarrow> string \<Rightarrow> (u32 \<Rightarrow> insrt_request list option) \<Rightarrow> u32 list \<Rightarrow>
     ('kv, 'vs, 'zm, 'db) storage world \<Rightarrow> ('kv, 'vs, 'zm, 'db) storage world" where
  "batch_remotes L h sharded [] w = w"
| "batch_remotes L h sharded (shard # shards) w =
     batch_remotes L h sharded shards
       (if shard \<noteq> st_me (w_node w h)
        then (case sharded shard of
                None \<Rightarrow> w
              | Some kvs \<Rightarrow> fst (batch_insert_kv_remote L h kvs (unat shard) w))
        else w)"

definition handle_batch ::
    "('kv, 'vs, 'zm, 'db) libs \<Rightarrow> env \<Rightarrow> string \<Rightarrow> http_body \<Rightarrow> ('kv, 'vs, 'zm, 'db) handler" where
  "handle_batch L E h body w =
     (case read_json (js_read_insrts E) body of
        Inl e \<Rightarrow> (w, Inl e)
      | Inr kvs \<Rightarrow>
          (let sharded = group_batch (st_count (w_node w h)) kvs;
               me = st_me (w_node w h);
               my_keys = (case sharded me of None \<Rightarrow> [] | Some rs \<Rightarrow> rs);
               others = sharded(me := None);
               w1 = batch_remotes L h others (lib_shards L (dom others)) w
           in case batch_insert_kv L my_keys (w_node w1 h) of (s1, res) \<Rightarrow>
                (set_node h s1 w1,
                 case unwrap res of Inl e \<Rightarrow> Inl e | Inr _ \<Rightarrow> Inr (ok_response ''''))))"

fun list_remotes ::
    "('kv, 'vs, 'zm, 'db) libs \<Rightarrow> string \<Rightarrow> (u32 \<Rightarrow> string set option) \<Rightarrow> u32 list \<Rightarrow>
     ('kv, 'vs, 'zm, 'db) storage world \<Rightarrow>
     ('kv, 'vs, 'zm, 'db) storage world \<times> insrt_request list" where
  "list_remotes L h sharded [] w = (w, [])"
| "list_remotes L h sharded (shard # shards) w =
     (if shard \<noteq> st_me (w_node w h)
      then (case sharded shard of
              None \<Rightarrow> list_remotes L h sharded shards w
            | Some keys \<Rightarrow>
                (case list_keys_remote L h (lib_iter L keys) (unat shard) w of (w1, r) \<Rightarrow>
                   (case list_remotes L h sharded shards w1 of (w2, later) \<Rightarrow>
                      (w2, (case r of Inr (Inr rs) \<Rightarrow> rs | _ \<Rightarrow> []) @ later))))
      else list_remotes L h sharded shards w)"

definition handle_list ::
    "('kv, 'vs, 'zm, 'db) libs \<Rightarrow> env \<Rightarrow> string \<Rightarrow> http_body \<Rightarrow> ('kv, 'vs, 'zm, 'db) handler" where
  "handle_list L E h body w =
     (case read_json (js_read_keys E) body of
        Inl e \<Rightarrow> (w, Inl e)
      | Inr keys \<Rightarrow>
          (let sharded = group_keys (st_count (w_node w h)) keys;
               me = st_me (w_node w h);
               my_keys = (case sharded me of None \<Rightarrow> {} | Some ks \<Rightarrow> ks);
               others = sharded(me := None)
           in case list_remotes L h others (lib_shards L (dom others)) w of (w1, remote) \<Rightarrow>
                (let result = list_keys L (w_node w1 h) my_keys @ remote in
                 (w1, Inr (if result = [] then empty_response NOT_FOUND
                           else ok_response (js_write_insrts E result))))))"

end
