(* ===== verification/Init.thy ===== *)
theory Init
  imports Handlers
begin

text \<open>
  Joining the cluster and starting to load the initial data (\<open>update_peers\<close> of
  \<open>storage.rs\<close>; \<open>handle_updatecluster\<close>, \<open>try_load_peers\<close> and \<open>handle_init\<close> of
  \<open>hcache.rs\<close>). The cluster file of a node is \<open>w_file\<close>; \<open>w_disk\<close> is what creating and
  writing it does. The peers are loaded at most once in the life of a process, and one loader
  thread is spawned; \<open>w_loaders\<close> counts them. The copying of one entry (\<open>load_entry\<close>) is here, the
  threads that do it are theory \<open>Loader\<close>; \<open>w_progress\<close> is how far they get during a request.
\<close>

section \<open>Joining\<close>

text \<open>
  \<open>me - 1\<close> wraps around for the index 0, as it does in a release build. The write lock on the
  cluster is held while the pool connects, so a remote operation of the node waits for it.
\<close>

definition update_peers ::
    "env \<Rightarrow> string list \<Rightarrow> u32 \<Rightarrow> bool list \<Rightarrow> ('kv, 'vs, 'zm, 'db) storage \<Rightarrow>
     ('kv, 'vs, 'zm, 'db) storage \<times> unit result" where
  "update_peers E peers index attempts s =
     (let s1 = s\<lparr>st_peer_updated := True, st_me := index - 1,
                 st_count := word_of_nat (length peers)\<rparr>
      in case pool_new (env_parse_addr E) peers attempts of
           None \<Rightarrow> (s1, Inl Still_Waiting)
         | Some (Inl e) \<Rightarrow> (s1, Inl e)
         | Some (Inr pool) \<Rightarrow>
             (s1\<lparr>st_cluster := (st_cluster s1)\<lparr>ci_pool := pool\<rparr>\<rparr>, Inr ()))"

definition handle_updatecluster :: "string \<Rightarrow> http_body \<Rightarrow> ('kv, 'vs, 'zm, 'db) handler" where
  "handle_updatecluster h body w =
     (case body of
        Inl _ \<Rightarrow> (w, Inl Hyper_Error)
      | Inr data \<Rightarrow>
          (case w_disk w h of
             Create_fails \<Rightarrow> (w, Inr (ok_response ''fail''))
           | Write_fails \<Rightarrow> (w\<lparr>w_file := (w_file w)(h \<mapsto> '''')\<rparr>, Inl Unwrap_Failed)
           | Write_succeeds \<Rightarrow> (w\<lparr>w_file := (w_file w)(h \<mapsto> data)\<rparr>, Inr (ok_response ''ok''))))"

definition try_load_peers ::
    "env \<Rightarrow> string \<Rightarrow> ('kv, 'vs, 'zm, 'db) storage world \<Rightarrow>
     ('kv, 'vs, 'zm, 'db) storage world \<times> unit result" where
  "try_load_peers E h w =
     (case w_file w h of
        None \<Rightarrow> (w, Inr ())
      | Some data \<Rightarrow>
          (case js_read_cluster E data of
             None \<Rightarrow> (w, Inr ())
           | Some info \<Rightarrow>
               (if st_peer_updated (w_node w h) then (w, Inr ())
                else (case update_peers E (uc_hosts info) (uc_index info) (w_connects w h)
                             ((w_node w h)\<lparr>st_peer_updated := True\<rparr>) of
                        (s1, r) \<Rightarrow> (set_node h s1 w, r)))))"

section \<open>\<open>/init\<close>\<close>

text \<open>
  One round of the copying loop. The shard is taken of the key's bytes as a slice. The result of
  the database write is dropped.
\<close>

definition own_entry :: "u64 \<Rightarrow> u32 \<Rightarrow> bytes \<times> bytes \<Rightarrow> bool" where
  "own_entry peers me e \<longleftrightarrow> shard_u32 (Hash_slice (fst e)) peers = me"

definition load_entry ::
    "('kv, 'vs, 'zm, 'db) libs \<Rightarrow> u64 \<Rightarrow> u32 \<Rightarrow> bytes \<times> bytes \<Rightarrow>
     ('kv, 'vs, 'zm, 'db) storage \<Rightarrow> ('kv, 'vs, 'zm, 'db) storage" where
  "load_entry L peers me e s =
     (if own_entry peers me e
      then s\<lparr>st_db := fst (rdb_put (lib_db L) (st_db s) (fst e) (snd e)),
             st_kv := ck_insert (lib_kv L) (st_kv s)
               (from_utf8_unchecked (fst e)) (from_utf8_unchecked (snd e))\<rparr>
      else s)"

text \<open>
  The compare-and-exchange that lets exactly one request spawn the loader, and the reply, which
  reads the state again. In between the loading threads run. The world lists what they get done
  before the reply to each \<open>/init\<close> in turn: the entries their copying loops take up, each with the
  shard count and the index its thread has read, and whether they come to the end. It may be
  anything; what they do in all, step by step, is theory \<open>Loader\<close>.
\<close>

definition init_claim ::
    "string \<Rightarrow> ('kv, 'vs, 'zm, 'db) storage world \<Rightarrow> ('kv, 'vs, 'zm, 'db) storage world" where
  "init_claim h w =
     (if st_load_state (w_node w h) = LOAD_STATE_INIT
      then (set_node h ((w_node w h)\<lparr>st_load_state := LOAD_STATE_LOADING\<rparr>) w)
             \<lparr>w_loaders := (w_loaders w)(h := Suc (w_loaders w h))\<rparr>
      else w)"

definition init_progress ::
    "('kv, 'vs, 'zm, 'db) libs \<Rightarrow> string \<Rightarrow> ('kv, 'vs, 'zm, 'db) storage world \<Rightarrow>
     ('kv, 'vs, 'zm, 'db) storage world" where
  "init_progress L h w =
     (case w_progress w h of
        [] \<Rightarrow> w
      | (copied, over) # later \<Rightarrow>
          (let s = w_node w h; w1 = w\<lparr>w_progress := (w_progress w)(h := later)\<rparr>;
               s1 = fold (\<lambda>(peers, me, e). load_entry L peers me e) copied s
           in if st_load_state s = LOAD_STATE_LOADING
              then set_node h (if over then s1\<lparr>st_load_state := LOAD_STATE_LOADED\<rparr> else s1) w1
              else w1))"

definition init_reply ::
    "string \<Rightarrow> ('kv, 'vs, 'zm, 'db) storage world \<Rightarrow> http_response" where
  "init_reply h w =
     (if st_load_state (w_node w h) = LOAD_STATE_LOADED then ok_response ''ok''
      else ok_response ''loading'')"

definition handle_init ::
    "('kv, 'vs, 'zm, 'db) libs \<Rightarrow> env \<Rightarrow> string \<Rightarrow> ('kv, 'vs, 'zm, 'db) handler" where
  "handle_init L E h w =
     (case try_load_peers E h w of
        (w1, Inl e) \<Rightarrow> (w1, Inl e)
      | (w1, Inr _) \<Rightarrow>
          (let w2 = init_progress L h (init_claim h w1) in (w2, Inr (init_reply h w2))))"

section \<open>Facts\<close>

text \<open>
  With every host parsed to an address and enough connections made, \<open>update_peers\<close> leaves a
  pool of sixteen clients for each host.
\<close>

lemma pool_new_ok:
  "\<lbrakk>pool_new parse peers attempts = Some (Inr qs); \<forall>p \<in> set peers. parse (p @ peer_port) = Some (f p)\<rbrakk> \<Longrightarrow>
     map q_addr qs = map f peers \<and> (\<forall>q \<in> set qs. queue_ok q \<and> q_capacity q = pool_capacity)"
proof (induction peers arbitrary: attempts qs)
  case Nil
  then show ?case by simp
next
  case (Cons p peers)
  from Cons.prems obtain q later qs' where
    q: "queue_new (f p) pool_capacity attempts = Some (q, later)"
    and qs': "pool_new parse peers later = Some (Inr qs')" and qs: "qs = q # qs'"
    by (auto split: option.splits sum.splits)
  have "queue_ok q \<and> q_addr q = f p \<and> q_capacity q = pool_capacity"
    by (rule queue_new_ok [OF q]) (simp add: pool_capacity_def)
  with Cons.IH [OF qs'] Cons.prems(2) show ?case by (simp add: qs)
qed

lemma connect_clients_later:
  "connect_clients addr capacity clients attempts = Some (cs, later) \<Longrightarrow>
     length clients \<le> capacity \<Longrightarrow>
     count_list attempts True = (capacity - length clients) + count_list later True"
proof (induction attempts arbitrary: clients)
  case Nil
  then show ?case by (simp split: if_splits)
next
  case (Cons connected rest)
  show ?case
  proof (cases "length clients < capacity")
    case False
    with Cons.prems show ?thesis by auto
  next
    case True
    show ?thesis
      using Cons.IH [of "if connected then clients @ [(addr, length clients)] else clients"]
        Cons.prems True
      by (cases connected) simp_all
  qed
qed

lemma pool_new_returns:
  assumes "\<forall>p \<in> set peers. parse (p @ peer_port) \<noteq> None"
  shows "(\<exists>qs. pool_new parse peers attempts = Some (Inr qs)) \<longleftrightarrow>
    16 * length peers \<le> count_list attempts True"
  using assms
proof (induction peers arbitrary: attempts)
  case Nil
  then show ?case by simp
next
  case (Cons p peers)
  then obtain addr where addr: "parse (p @ peer_port) = Some addr" by auto
  have cap: "unat pool_capacity = 16" by (simp add: pool_capacity_def)
  show ?case
  proof (cases "queue_new addr pool_capacity attempts")
    case None
    then have "\<not> 16 \<le> count_list attempts True"
      using queue_new_returns [of addr pool_capacity attempts] by (auto simp: cap)
    with None addr show ?thesis by simp
  next
    case (Some r)
    obtain q later where r: "r = (q, later)" by (cases r)
    with Some obtain cs where "connect_clients addr (unat pool_capacity) [] attempts = Some (cs, later)"
      by (auto simp: queue_new_def split: option.splits)
    from connect_clients_later [OF this] have
      n: "count_list attempts True = 16 + count_list later True"
      by (simp add: cap)
    have "(\<exists>qs. pool_new parse (p # peers) attempts = Some (Inr qs)) \<longleftrightarrow>
        (\<exists>qs. pool_new parse peers later = Some (Inr qs))"
      using addr Some r by (auto split: option.splits sum.splits)
    with Cons n show ?thesis by simp
  qed
qed

text \<open>
  How a request changes the load state: only a claim changes it, and only from \<open>INIT\<close> to
  \<open>LOADING\<close>, together with spawning a loader.
\<close>

lemma init_claim_cases:
  "st_load_state (w_node (init_claim h w) h) =
     (if st_load_state (w_node w h) = LOAD_STATE_INIT then LOAD_STATE_LOADING
      else st_load_state (w_node w h))"
  "w_loaders (init_claim h w) h =
     (if st_load_state (w_node w h) = LOAD_STATE_INIT then Suc (w_loaders w h) else w_loaders w h)"
  by (simp_all add: init_claim_def)

lemma load_entry_frame [simp]:
  "st_load_state (load_entry L n m e s) = st_load_state s" "st_me (load_entry L n m e s) = st_me s"
  "st_count (load_entry L n m e s) = st_count s"
  "st_peer_updated (load_entry L n m e s) = st_peer_updated s"
  "st_all_cores (load_entry L n m e s) = st_all_cores s"
  "st_cluster (load_entry L n m e s) = st_cluster s"
  by (simp_all add: load_entry_def)

lemma copied_frame:
  "st_load_state (fold (\<lambda>(peers, me, e). load_entry L peers me e) es s) = st_load_state s \<and>
   st_me (fold (\<lambda>(peers, me, e). load_entry L peers me e) es s) = st_me s \<and>
   st_count (fold (\<lambda>(peers, me, e). load_entry L peers me e) es s) = st_count s \<and>
   st_peer_updated (fold (\<lambda>(peers, me, e). load_entry L peers me e) es s) = st_peer_updated s \<and>
   st_cluster (fold (\<lambda>(peers, me, e). load_entry L peers me e) es s) = st_cluster s"
  by (induction es arbitrary: s) (simp_all add: split_beta)

text \<open>What the threads do before the reply can only turn \<open>LOADING\<close> into \<open>LOADED\<close>.\<close>

lemma init_progress_frame:
  "st_load_state (w_node (init_progress L h w) h) =
     (if st_load_state (w_node w h) = LOAD_STATE_LOADING \<and> w_progress w h \<noteq> [] \<and> snd (hd (w_progress w h))
      then LOAD_STATE_LOADED else st_load_state (w_node w h))"
  "w_loaders (init_progress L h w) = w_loaders w"
  "st_me (w_node (init_progress L h w) h) = st_me (w_node w h)"
  "st_count (w_node (init_progress L h w) h) = st_count (w_node w h)"
  "st_peer_updated (w_node (init_progress L h w) h) = st_peer_updated (w_node w h)"
  "st_cluster (w_node (init_progress L h w) h) = st_cluster (w_node w h)"
  by (cases "w_progress w h"; simp add: init_progress_def split_beta Let_def copied_frame)+

text \<open>The reply says what the state is when it is read.\<close>

lemma handle_init_reply:
  "handle_init L E h w = (w1, Inr r) \<Longrightarrow>
     r = (if st_load_state (w_node w1 h) = LOAD_STATE_LOADED then ok_response ''ok'' else ok_response ''loading'')"
  by (auto simp: handle_init_def Let_def init_reply_def split: prod.splits sum.splits)

lemma update_peers_frame:
  "st_load_state (fst (update_peers E peers i att s)) = st_load_state s"
  "st_peer_updated (fst (update_peers E peers i att s))"
  "st_me (fst (update_peers E peers i att s)) = i - 1"
  "st_count (fst (update_peers E peers i att s)) = word_of_nat (length peers)"
  by (auto simp: update_peers_def Let_def split: option.splits sum.splits)

lemma try_load_peers_frame:
  "st_load_state (w_node (fst (try_load_peers E h w)) h) = st_load_state (w_node w h)"
  "w_loaders (fst (try_load_peers E h w)) = w_loaders w"
  "w_file (fst (try_load_peers E h w)) = w_file w"
  by (auto simp: try_load_peers_def split_beta update_peers_frame split: option.splits)

section \<open>Properties\<close>

text \<open>
  C32. With addresses that parse, building the pool for a list of peers returns exactly if at
  least sixteen connection attempts per peer succeed, however many fail in between; the pool
  then has one queue for each peer, in order, each with sixteen clients of that peer. With fewer
  the node waits for ever.
\<close>

theorem pool_connects:
  assumes "\<forall>p \<in> set peers. parse (p @ peer_port) \<noteq> None"
  shows "((\<exists>qs. pool_new parse peers attempts = Some (Inr qs)) \<longleftrightarrow> 16 * length peers \<le> count_list attempts True) \<and>
    (\<forall>qs. pool_new parse peers attempts = Some (Inr qs) \<longrightarrow>
       map q_addr qs = map (\<lambda>p. the (parse (p @ peer_port))) peers \<and>
       (\<forall>q \<in> set qs. queue_ok q \<and> length (q_clients q) = 16))"
proof (rule conjI)
  show "(\<exists>qs. pool_new parse peers attempts = Some (Inr qs)) \<longleftrightarrow> 16 * length peers \<le> count_list attempts True"
    using assms by (rule pool_new_returns)
  show "\<forall>qs. pool_new parse peers attempts = Some (Inr qs) \<longrightarrow>
      map q_addr qs = map (\<lambda>p. the (parse (p @ peer_port))) peers \<and>
      (\<forall>q \<in> set qs. queue_ok q \<and> length (q_clients q) = 16)"
  proof (intro allI impI)
    fix qs assume qs: "pool_new parse peers attempts = Some (Inr qs)"
    have "\<forall>p \<in> set peers. parse (p @ peer_port) = Some (the (parse (p @ peer_port)))" using assms by auto
    from pool_new_ok [OF qs this] show "map q_addr qs = map (\<lambda>p. the (parse (p @ peer_port))) peers \<and>
        (\<forall>q \<in> set qs. queue_ok q \<and> length (q_clients q) = 16)"
      by (auto simp: queue_ok_def pool_capacity_def)
  qed
qed

theorem pool_connects_witness:
  "pool_new Some [''h''] (replicate 15 True) = None \<or> (\<forall>qs. pool_new Some [''h''] (replicate 15 True) \<noteq> Some (Inr qs))"
  using pool_connects [of "[''h'']" Some "replicate 15 True"] by (simp add: eval_nat_numeral)

text \<open>What a node does for \<open>/updateCluster\<close> and \<open>/init\<close>, in any order.\<close>

datatype init_event = Update_request http_body | Init_request

fun init_event_step ::
    "('kv, 'vs, 'zm, 'db) libs \<Rightarrow> env \<Rightarrow> string \<Rightarrow> init_event \<Rightarrow> ('kv, 'vs, 'zm, 'db) storage world \<Rightarrow>
     ('kv, 'vs, 'zm, 'db) storage world" where
  "init_event_step L E h (Update_request body) w = fst (handle_updatecluster h body w)"
| "init_event_step L E h Init_request w = fst (handle_init L E h w)"

lemma handle_updatecluster_node: "w_node (fst (handle_updatecluster h body w)) = w_node w \<and>
    w_loaders (fst (handle_updatecluster h body w)) = w_loaders w"
  by (auto simp: handle_updatecluster_def split: sum.split file_fate.split)

lemma handle_init_state:
  "w_loaders w h = (if st_load_state (w_node w h) = LOAD_STATE_INIT then 0 else 1) \<Longrightarrow>
     w_loaders (fst (handle_init L E h w)) h =
       (if st_load_state (w_node (fst (handle_init L E h w)) h) = LOAD_STATE_INIT then 0 else 1)"
  using try_load_peers_frame [of E h w] init_claim_cases [of h "fst (try_load_peers E h w)"]
  by (cases "try_load_peers E h w")
    (auto simp: handle_init_def Let_def init_progress_frame LOAD_STATE_INIT_def LOAD_STATE_LOADING_def
      LOAD_STATE_LOADED_def split: sum.split)

lemma peers_settled_step:
  assumes "st_peer_updated (w_node w h)"
  shows "st_peer_updated (w_node (init_event_step L E h ev w) h) \<and>
    st_me (w_node (init_event_step L E h ev w) h) = st_me (w_node w h) \<and>
    st_count (w_node (init_event_step L E h ev w) h) = st_count (w_node w h) \<and>
    st_cluster (w_node (init_event_step L E h ev w) h) = st_cluster (w_node w h)"
proof (cases ev)
  case Init_request
  have "try_load_peers E h w = (w, Inr ())"
    using assms by (auto simp: try_load_peers_def split: option.split)
  then show ?thesis
    using assms by (simp add: Init_request handle_init_def Let_def init_progress_frame init_claim_def)
qed (simp add: assms handle_updatecluster_node)

text \<open>
  C28. Over any sequence of \<open>/updateCluster\<close> and \<open>/init\<close> requests, whatever the loading threads
  get done meanwhile, a process spawns at most one loader thread, and exactly when it leaves the
  state \<open>INIT\<close>; and once its peers are set, its
  index, the number of shards and its connections never change again, whatever is written to
  the cluster file.
\<close>

theorem init_history:
  assumes "w_loaders w h = (if st_load_state (w_node w h) = LOAD_STATE_INIT then 0 else 1)"
  shows "w_loaders (fold (init_event_step L E h) evs w) h =
      (if st_load_state (w_node (fold (init_event_step L E h) evs w) h) = LOAD_STATE_INIT then 0 else 1) \<and>
    (st_peer_updated (w_node w h) \<longrightarrow>
      st_me (w_node (fold (init_event_step L E h) evs w) h) = st_me (w_node w h) \<and>
      st_count (w_node (fold (init_event_step L E h) evs w) h) = st_count (w_node w h) \<and>
      st_cluster (w_node (fold (init_event_step L E h) evs w) h) = st_cluster (w_node w h))"
proof (intro conjI impI)
  show "w_loaders (fold (init_event_step L E h) evs w) h =
      (if st_load_state (w_node (fold (init_event_step L E h) evs w) h) = LOAD_STATE_INIT then 0 else 1)"
    using assms
  proof (induction evs arbitrary: w)
    case (Cons ev evs)
    have "w_loaders (init_event_step L E h ev w) h =
        (if st_load_state (w_node (init_event_step L E h ev w) h) = LOAD_STATE_INIT then 0 else 1)"
      using Cons.prems handle_updatecluster_node [of h _ w] handle_init_state [OF Cons.prems]
      by (cases ev) auto
    then show ?case using Cons.IH by simp
  qed simp
  assume "st_peer_updated (w_node w h)"
  then have "st_peer_updated (w_node (fold (init_event_step L E h) evs w) h) \<and>
      st_me (w_node (fold (init_event_step L E h) evs w) h) = st_me (w_node w h) \<and>
      st_count (w_node (fold (init_event_step L E h) evs w) h) = st_count (w_node w h) \<and>
      st_cluster (w_node (fold (init_event_step L E h) evs w) h) = st_cluster (w_node w h)"
  proof (induction evs arbitrary: w)
    case (Cons ev evs)
    with peers_settled_step [OF Cons.prems, of L E ev] show ?case by simp
  qed simp
  then show "st_me (w_node (fold (init_event_step L E h) evs w) h) = st_me (w_node w h)"
    and "st_count (w_node (fold (init_event_step L E h) evs w) h) = st_count (w_node w h)"
    and "st_cluster (w_node (fold (init_event_step L E h) evs w) h) = st_cluster (w_node w h)"
    by simp_all
qed

end
