(* ===== verification/Router.thy ===== *)
theory Router
  imports Init
begin

text \<open>
  The dispatch of a request to its handler (\<open>hyper_handler\<close> of \<open>hcache.rs\<close>). The path is
  split at slashes, at most four pieces for \<open>GET\<close> and three for \<open>POST\<close>, and its pieces are
  read by index, which panics when the path has too few. Nothing is percent-decoded.
\<close>

datatype http_method = Method_GET | Method_POST | Method_other

record http_request =
  rq_method :: http_method
  rq_path :: string
  rq_body :: http_body

text \<open>\<open>path[i]\<close>, handed to the rest of the handler.\<close>

definition with_piece ::
    "string list \<Rightarrow> nat \<Rightarrow> (string \<Rightarrow> ('kv, 'vs, 'zm, 'db) handler) \<Rightarrow> ('kv, 'vs, 'zm, 'db) handler" where
  "with_piece path i f w =
     (case index_vec path i of Inl e \<Rightarrow> (w, Inl e) | Inr p \<Rightarrow> f p w)"

definition route_get ::
    "('kv, 'vs, 'zm, 'db) libs \<Rightarrow> env \<Rightarrow> string \<Rightarrow> string \<Rightarrow> ('kv, 'vs, 'zm, 'db) handler" where
  "route_get L E h full_path =
     (let path = splitn 4 CHR ''/'' full_path in
      with_piece path 1 (\<lambda>p.
        if p = ''query'' then with_piece path 2 (\<lambda>key. handle_query L h key)
        else if p = ''del'' then with_piece path 2 (\<lambda>key. handle_del L h key)
        else if p = ''zrmv'' then
          with_piece path 2 (\<lambda>key. with_piece path 3 (\<lambda>v. handle_zrmv L h key v))
        else if p = ''init'' then handle_init L E h
        else (\<lambda>w. (w, Inr (ok_response ''ok'')))))"

definition route_post ::
    "('kv, 'vs, 'zm, 'db) libs \<Rightarrow> env \<Rightarrow> string \<Rightarrow> string \<Rightarrow> http_body \<Rightarrow> ('kv, 'vs, 'zm, 'db) handler" where
  "route_post L E h full_path body =
     (let path = splitn 3 CHR ''/'' full_path in
      with_piece path 1 (\<lambda>p.
        if p = ''add'' then handle_add L E h body
        else if p = ''batch'' then handle_batch L E h body
        else if p = ''list'' then handle_list L E h body
        else if p = ''zadd'' then with_piece path 2 (\<lambda>key. handle_zadd L E h key body)
        else if p = ''zrange'' then with_piece path 2 (\<lambda>key. handle_zrange L E h key body)
        else if p = ''updateCluster'' then handle_updatecluster h body
        else (\<lambda>w. (w, Inr (empty_response NOT_FOUND)))))"

definition hyper_handler ::
    "('kv, 'vs, 'zm, 'db) libs \<Rightarrow> env \<Rightarrow> string \<Rightarrow> http_request \<Rightarrow> ('kv, 'vs, 'zm, 'db) handler" where
  "hyper_handler L E h rq =
     (case rq_method rq of
        Method_GET \<Rightarrow> route_get L E h (rq_path rq)
      | Method_POST \<Rightarrow> route_post L E h (rq_path rq) (rq_body rq)
      | Method_other \<Rightarrow>
          (\<lambda>w. (w, Inr \<lparr>rs_status = NOT_FOUND, rs_body = ''404 not found''\<rparr>)))"

section \<open>Paths\<close>

text \<open>
  The piece a \<open>GET\<close> handler takes as its key ends at the next slash; the one a \<open>POST\<close>
  handler takes is the rest of the path.
\<close>

definition upto_slash :: "string \<Rightarrow> string" where
  "upto_slash k = takeWhile (\<lambda>c. c \<noteq> CHR ''/'') k"

lemma upto_slash_id [simp]: "CHR ''/'' \<notin> set k \<Longrightarrow> upto_slash k = k"
  by (auto simp: upto_slash_def takeWhile_eq_all_conv)

lemma split_first_upto: "split_first CHR ''/'' k = None \<Longrightarrow> upto_slash k = k"
  "split_first CHR ''/'' k = Some (a, b) \<Longrightarrow> upto_slash k = a"
  unfolding upto_slash_def
  by (induction k arbitrary: a b) (auto split: if_splits)

lemmas route_simps = with_piece_def index_vec_def Let_def eval_nat_numeral fun_eq_iff

lemma route_get_query: "route_get L E h (''/query/'' @ key) = handle_query L h (upto_slash key)"
  using split_first_upto [of key]
  by (cases "split_first CHR ''/'' key") (auto simp: route_get_def route_simps)

lemma route_get_del: "route_get L E h (''/del/'' @ key) = handle_del L h (upto_slash key)"
  using split_first_upto [of key]
  by (cases "split_first CHR ''/'' key") (auto simp: route_get_def route_simps)

lemma route_get_zrmv:
  "CHR ''/'' \<notin> set key \<Longrightarrow>
     route_get L E h (''/zrmv/'' @ key @ ''/'' @ v) = handle_zrmv L h key v"
  using split_first_sep [of "CHR ''/''" key v] by (simp add: route_get_def route_simps)

lemma route_post_zadd: "route_post L E h (''/zadd/'' @ key) body = handle_zadd L E h key body"
  by (simp add: route_post_def route_simps)

lemma route_post_zrange: "route_post L E h (''/zrange/'' @ key) body = handle_zrange L E h key body"
  by (simp add: route_post_def route_simps)

lemma route_post_plain:
  "route_post L E h ''/add'' body = handle_add L E h body"
  "route_post L E h ''/batch'' body = handle_batch L E h body"
  "route_post L E h ''/list'' body = handle_list L E h body"
  by (simp_all add: route_post_def route_simps)

text \<open>A request of a data route with too few pieces panics.\<close>

lemma route_get_short:
  "snd (route_get L E h ''/query'' w) = Inl Index_Out_Of_Bounds"
  "snd (route_get L E h ''/del'' w) = Inl Index_Out_Of_Bounds"
  "CHR ''/'' \<notin> set key \<Longrightarrow> snd (route_get L E h (''/zrmv/'' @ key) w) = Inl Index_Out_Of_Bounds"
  by (simp_all add: route_get_def route_simps)

section \<open>Properties\<close>

text \<open>The path of a request whose first piece is \<open>p\<close>: nothing follows it, or a slash.\<close>

definition path_of :: "string \<Rightarrow> string option \<Rightarrow> string" where
  "path_of p rest = CHR ''/'' # p @ (case rest of None \<Rightarrow> '''' | Some r \<Rightarrow> CHR ''/'' # r)"

lemma splitn_path_of:
  assumes "CHR ''/'' \<notin> set p"
  shows "\<exists>ps. splitn (Suc (Suc (Suc n))) CHR ''/'' (path_of p rest) = '''' # p # ps"
  using assms by (cases rest) (auto simp: path_of_def split_first_sep)

lemma route_unknown:
  assumes "CHR ''/'' \<notin> set p"
  shows "p \<notin> {''query'', ''del'', ''zrmv'', ''init''} \<Longrightarrow>
      route_get L E h (path_of p rest) w = (w, Inr (ok_response ''ok''))"
    and "p \<notin> {''add'', ''batch'', ''list'', ''zadd'', ''zrange'', ''updateCluster''} \<Longrightarrow>
      route_post L E h (path_of p rest) body w = (w, Inr (empty_response NOT_FOUND))"
proof -
  from splitn_path_of [OF assms, of 1 rest] obtain ps where
    "splitn 4 CHR ''/'' (path_of p rest) = '''' # p # ps" by (auto simp: eval_nat_numeral)
  then show "p \<notin> {''query'', ''del'', ''zrmv'', ''init''} \<Longrightarrow>
      route_get L E h (path_of p rest) w = (w, Inr (ok_response ''ok''))"
    by (simp add: route_get_def Let_def with_piece_def index_vec_def)
  from splitn_path_of [OF assms, of 0 rest] obtain qs where
    "splitn 3 CHR ''/'' (path_of p rest) = '''' # p # qs" by (auto simp: eval_nat_numeral)
  then show "p \<notin> {''add'', ''batch'', ''list'', ''zadd'', ''zrange'', ''updateCluster''} \<Longrightarrow>
      route_post L E h (path_of p rest) body w = (w, Inr (empty_response NOT_FOUND))"
    by (simp add: route_post_def Let_def with_piece_def index_vec_def)
qed

lemma route_no_slash:
  assumes "CHR ''/'' \<notin> set path"
  shows "route_get L E h path w = (w, Inl Index_Out_Of_Bounds)"
    and "route_post L E h path body w = (w, Inl Index_Out_Of_Bounds)"
  using assms by (simp_all add: route_get_def route_post_def Let_def with_piece_def index_vec_def eval_nat_numeral)

lemma upto_slash_append: "upto_slash (a @ CHR ''/'' # b) = upto_slash a"
  by (induction a) (simp_all add: upto_slash_def)

text \<open>
  C38. How the router reads a path. A query or a delete takes the key up to the next slash, \<open>zrmv\<close>
  the key up to the slash and the whole rest as the member, \<open>zadd\<close> and \<open>zrange\<close> the whole rest as
  the key, so a key with a slash in it is stored under one name and asked for under another;
  nothing is decoded. Every other \<open>POST\<close> path is answered with 404, every other \<open>GET\<close> path with
  200 and \<open>ok\<close>, and every request of another method with 404, and none of them changes anything;
  a path without any slash panics under the two methods.
\<close>

theorem request_keys:
  "hyper_handler L E h \<lparr>rq_method = Method_GET, rq_path = ''/query/'' @ key, rq_body = body\<rparr> =
     handle_query L h (upto_slash key) \<and>
   hyper_handler L E h \<lparr>rq_method = Method_GET, rq_path = ''/del/'' @ key, rq_body = body\<rparr> =
     handle_del L h (upto_slash key) \<and>
   (CHR ''/'' \<notin> set key \<longrightarrow>
     hyper_handler L E h \<lparr>rq_method = Method_GET, rq_path = ''/zrmv/'' @ key @ ''/'' @ v, rq_body = body\<rparr> =
       handle_zrmv L h key v) \<and>
   hyper_handler L E h \<lparr>rq_method = Method_POST, rq_path = ''/zadd/'' @ key, rq_body = body\<rparr> =
     handle_zadd L E h key body \<and>
   hyper_handler L E h \<lparr>rq_method = Method_POST, rq_path = ''/zrange/'' @ key, rq_body = body\<rparr> =
     handle_zrange L E h key body \<and>
   upto_slash (a @ CHR ''/'' # b) = upto_slash a \<and>
   (CHR ''/'' \<notin> set p \<and> p \<notin> {''query'', ''del'', ''zrmv'', ''init''} \<longrightarrow>
     hyper_handler L E h \<lparr>rq_method = Method_GET, rq_path = path_of p rest, rq_body = body\<rparr> w =
       (w, Inr (ok_response ''ok''))) \<and>
   (CHR ''/'' \<notin> set p \<and> p \<notin> {''add'', ''batch'', ''list'', ''zadd'', ''zrange'', ''updateCluster''} \<longrightarrow>
     hyper_handler L E h \<lparr>rq_method = Method_POST, rq_path = path_of p rest, rq_body = body\<rparr> w =
       (w, Inr (empty_response NOT_FOUND))) \<and>
   (CHR ''/'' \<notin> set path \<and> meth \<noteq> Method_other \<longrightarrow>
     hyper_handler L E h \<lparr>rq_method = meth, rq_path = path, rq_body = body\<rparr> w = (w, Inl Index_Out_Of_Bounds)) \<and>
   hyper_handler L E h \<lparr>rq_method = Method_other, rq_path = path, rq_body = body\<rparr> w =
     (w, Inr \<lparr>rs_status = NOT_FOUND, rs_body = ''404 not found''\<rparr>)"
proof -
  have "CHR ''/'' \<notin> set path \<Longrightarrow> meth \<noteq> Method_other \<Longrightarrow>
      hyper_handler L E h \<lparr>rq_method = meth, rq_path = path, rq_body = body\<rparr> w = (w, Inl Index_Out_Of_Bounds)"
    by (cases meth) (simp_all add: hyper_handler_def route_no_slash)
  then show ?thesis
    by (simp add: hyper_handler_def route_get_query route_get_del route_get_zrmv route_post_zadd
        route_post_zrange upto_slash_append route_unknown del: append.simps append_Cons insert_iff)
qed

theorem request_keys_witness:
  "\<forall>E h w. hyper_handler ref_libs E h \<lparr>rq_method = Method_GET, rq_path = ''/zrmv/k/a/b'', rq_body = Inr ''''\<rparr> w =
     handle_zrmv ref_libs h ''k'' ''a/b'' w \<and>
   hyper_handler ref_libs E h \<lparr>rq_method = Method_GET, rq_path = ''/add/k'', rq_body = Inr ''''\<rparr> w =
     (w, Inr (ok_response ''ok'')) \<and>
   hyper_handler ref_libs E h \<lparr>rq_method = Method_POST, rq_path = ''/query'', rq_body = Inr ''''\<rparr> w =
     (w, Inr (empty_response NOT_FOUND)) \<and>
   hyper_handler ref_libs E h \<lparr>rq_method = Method_POST, rq_path = ''*'', rq_body = Inr ''''\<rparr> w =
     (w, Inl Index_Out_Of_Bounds)"
proof (intro allI)
  fix E h and w :: "(string \<Rightarrow> string option, string \<Rightarrow> u32 option, string \<Rightarrow> nat option, (bytes \<times> bytes) list) storage world"
  note keys = request_keys [where L = ref_libs and E = E and h = h and w = w and body = "Inr ''''"
      and key = "''k''" and v = "''a/b''" and path = "''*''" and meth = Method_POST]
  from keys [where p = "''add''" and rest = "Some ''k''"] keys [where p = "''query''" and rest = None]
  show "hyper_handler ref_libs E h \<lparr>rq_method = Method_GET, rq_path = ''/zrmv/k/a/b'', rq_body = Inr ''''\<rparr> w =
     handle_zrmv ref_libs h ''k'' ''a/b'' w \<and>
   hyper_handler ref_libs E h \<lparr>rq_method = Method_GET, rq_path = ''/add/k'', rq_body = Inr ''''\<rparr> w =
     (w, Inr (ok_response ''ok'')) \<and>
   hyper_handler ref_libs E h \<lparr>rq_method = Method_POST, rq_path = ''/query'', rq_body = Inr ''''\<rparr> w =
     (w, Inr (empty_response NOT_FOUND)) \<and>
   hyper_handler ref_libs E h \<lparr>rq_method = Method_POST, rq_path = ''*'', rq_body = Inr ''''\<rparr> w =
     (w, Inl Index_Out_Of_Bounds)"
    by (simp add: path_of_def)
qed

end
