(* ===== verification/Cluster.thy ===== *)
theory Cluster
  imports Router
begin

text \<open>
  A cluster of nodes that have joined with the same list of hosts. \<open>cluster_ok\<close> says so:
  node \<open>i\<close> knows its index, the number of hosts and a pool to all of them. Every key has one
  owner; the abstract contents of the cluster are, for every key, those of its owner. What
  requests do to the contents is in the theories \<open>Cluster_Data\<close> and \<open>Cluster_Bulk\<close>; here are
  the lemmas on changing one node and on calls between two.
\<close>

section \<open>Configuration and contents\<close>

definition node_ok ::
    "('kv, 'vs, 'zm, 'db) libs \<Rightarrow> string list \<Rightarrow> nat \<Rightarrow> ('kv, 'vs, 'zm, 'db) storage \<Rightarrow> bool" where
  "node_ok L hosts i s \<longleftrightarrow> st_me s = word_of_nat i \<and> st_count s = word_of_nat (length hosts) \<and>
     pool_ok hosts s \<and> storage_ok L s"

definition cluster_ok ::
    "('kv, 'vs, 'zm, 'db) libs \<Rightarrow> string list \<Rightarrow> ('kv, 'vs, 'zm, 'db) storage world \<Rightarrow> bool" where
  "cluster_ok L hosts w \<longleftrightarrow> hosts \<noteq> [] \<and> distinct hosts \<and> length hosts < 2 ^ 32 \<and>
     (\<forall>i < length hosts. node_ok L hosts i (w_node w (hosts ! i)))"

definition net_ok :: "'s world \<Rightarrow> bool" where
  "net_ok w \<longleftrightarrow> (\<forall>n. w_fate w n = Delivered)"

text \<open>What \<open>serde_json\<close> writes, it reads back; the record's other readers are not constrained.\<close>

definition env_ok :: "env \<Rightarrow> bool" where
  "env_ok E \<longleftrightarrow>
     (\<forall>x. js_read_insrt E (js_write_insrt E x) = Some x) \<and>
     (\<forall>x. js_read_insrts E (js_write_insrts E x) = Some x) \<and>
     (\<forall>x. js_read_keys E (js_write_keys E x) = Some x) \<and>
     (\<forall>x. js_read_score_value E (js_write_score_value E x) = Some x) \<and>
     (\<forall>x. js_read_score_range E (js_write_score_range E x) = Some x) \<and>
     (\<forall>x. js_read_score_values E (js_write_score_values E x) = Some x)"

definition owner_index :: "string list \<Rightarrow> string \<Rightarrow> nat" where
  "owner_index hosts k = unat (hash_key (Hash_str k)) mod length hosts"

definition owner :: "string list \<Rightarrow> string \<Rightarrow> string" where
  "owner hosts k = hosts ! owner_index hosts k"

definition cluster_abs ::
    "('kv, 'vs, 'zm, 'db) libs \<Rightarrow> string list \<Rightarrow> ('kv, 'vs, 'zm, 'db) storage world \<Rightarrow> spec" where
  "cluster_abs L hosts w =
     \<lparr>sp_kv = (\<lambda>k. kv_of L (w_node w (owner hosts k)) k),
      sp_zs = (\<lambda>k. zs_of L (w_node w (owner hosts k)) k)\<rparr>"

section \<open>Joining\<close>

text \<open>
  A node that has run \<open>update_peers\<close> with its index (the file counts from 1) is in the cluster.
\<close>

lemma join_node_ok:
  assumes join: "update_peers E hosts (word_of_nat (Suc i)) attempts s = (s', Inr ())"
    and addr: "\<forall>p \<in> set hosts. env_parse_addr E (p @ peer_port) = Some p"
    and ok: "storage_ok L s"
  shows "node_ok L hosts i s'"
proof -
  from join obtain qs where qs: "pool_new (env_parse_addr E) hosts attempts = Some (Inr qs)"
    and s': "s' = s\<lparr>st_peer_updated := True, st_me := word_of_nat (Suc i) - 1,
      st_count := word_of_nat (length hosts), st_cluster := (st_cluster s)\<lparr>ci_pool := qs\<rparr>\<rparr>"
    by (auto simp: update_peers_def Let_def split: option.splits sum.splits)
  from pool_new_ok [OF qs, of "\<lambda>p. p"] addr have "pool_ok hosts s'"
    by (simp add: pool_ok_def s')
  moreover have "storage_ok L s'"
    using ok by (simp add: s' storage_ok_def)
  ultimately show ?thesis by (simp add: node_ok_def s')
qed

section \<open>Shards\<close>

lemma cluster_okD:
  assumes "cluster_ok L hosts w"
  shows "hosts \<noteq> []" "distinct hosts" "0 < length hosts" "length hosts < 2 ^ 32"
    and "i < length hosts \<Longrightarrow> node_ok L hosts i (w_node w (hosts ! i))"
  using assms by (auto simp: cluster_ok_def)

lemma owner_index_less: "hosts \<noteq> [] \<Longrightarrow> owner_index hosts k < length hosts"
  by (simp add: owner_index_def)

lemma unat_local_shard:
  assumes "cluster_ok L hosts w" and "i < length hosts"
  shows "unat (local_shard (hosts ! i) k w) = owner_index hosts k"
  using cluster_okD [OF assms(1)] assms(2)
  by (simp add: local_shard_def node_ok_def unat_shard_u32 owner_index_def)

lemma local_shard_me:
  assumes "cluster_ok L hosts w" and "i < length hosts"
  shows "local_shard (hosts ! i) k w = st_me (w_node w (hosts ! i)) \<longleftrightarrow> owner_index hosts k = i"
proof -
  have "st_me (w_node w (hosts ! i)) = word_of_nat i" and "i < 2 ^ 32"
    using cluster_okD(4,5) [OF assms(1)] assms(2) by (auto simp: node_ok_def)
  then have "unat (st_me (w_node w (hosts ! i))) = i"
    by (simp add: unsigned_of_nat take_bit_nat_eq_self_iff)
  then show ?thesis
    using unat_local_shard [OF assms, of k] by (metis word_unat_eq_iff)
qed

section \<open>Changing one node\<close>

text \<open>What no data operation touches.\<close>

definition same_node :: "('kv, 'vs, 'zm, 'db) storage \<Rightarrow> ('kv, 'vs, 'zm, 'db) storage \<Rightarrow> bool" where
  "same_node s s' \<longleftrightarrow> st_me s' = st_me s \<and> st_count s' = st_count s \<and> st_cluster s' = st_cluster s"

lemma same_node_insert_kv: "same_node s (fst (insert_kv L k v s))"
  by (simp add: same_node_def insert_kv_def insert_kv_in_memory_def zsets_remove_def Let_def)

lemma same_node_trans: "\<lbrakk>same_node a b; same_node b c\<rbrakk> \<Longrightarrow> same_node a c"
  by (simp add: same_node_def)

lemma same_node_batch: "same_node s (fst (batch_insert_kv L kvs s))"
  by (simp add: same_node_def batch_insert_kv_eq)

lemma same_node_rpc_batch: "same_node s (fst (rpc_batch L kvs s))"
proof (induction kvs arbitrary: s)
  case Nil
  then show ?case by (simp add: same_node_def)
next
  case (Cons r kvs)
  then show ?case
    using same_node_insert_kv [of s L "ir_key r" "ir_value r"]
    by (simp add: split_beta insert_kv_Ok same_node_trans)
qed

lemma same_node_server_step: "same_node s (server_step L c s)"
  by (cases c)
    (auto simp: same_node_def rpc_add_eq rpc_del_eq rpc_zadd_def rpc_zrmv_def insert_kv_def Let_def
      insert_kv_in_memory_def zsets_remove_def remove_key_def remove_key_in_memory_def zadd_def
      zadd_memory_def zrmv_def split: option.splits prod.splits)

lemma node_ok_same: "\<lbrakk>node_ok L hosts i s; same_node s s'; storage_ok L s'\<rbrakk> \<Longrightarrow> node_ok L hosts i s'"
  by (simp add: node_ok_def same_node_def pool_ok_def)

lemma node_ok_advance:
  "\<lbrakk>node_ok L hosts i s; j < length hosts\<rbrakk> \<Longrightarrow> node_ok L hosts i (advance_pool j s)"
  by (simp add: node_ok_def pool_ok_advance)

text \<open>
  Replacing the store of node \<open>j\<close> by one with the same configuration keeps the cluster well
  configured and changes its contents at the keys node \<open>j\<close> owns.
\<close>

lemma cluster_set_node:
  assumes "cluster_ok L hosts w" and j: "j < length hosts" and s': "node_ok L hosts j s'"
    and w': "w_node w' = (w_node w)(hosts ! j := s')"
  shows "cluster_ok L hosts w'"
    and "cluster_abs L hosts w' =
      \<lparr>sp_kv = (\<lambda>k. if owner_index hosts k = j then kv_of L s' k else sp_kv (cluster_abs L hosts w) k),
       sp_zs = (\<lambda>k. if owner_index hosts k = j then zs_of L s' k else sp_zs (cluster_abs L hosts w) k)\<rparr>"
proof -
  note c = cluster_okD [OF assms(1)]
  show "cluster_ok L hosts w'"
    using c s' j by (auto simp: cluster_ok_def w' nth_eq_iff_index_eq)
  have "owner hosts k = hosts ! j \<longleftrightarrow> owner_index hosts k = j" for k
    using c(1,2) j by (simp add: owner_def nth_eq_iff_index_eq owner_index_less)
  then show "cluster_abs L hosts w' =
      \<lparr>sp_kv = (\<lambda>k. if owner_index hosts k = j then kv_of L s' k else sp_kv (cluster_abs L hosts w) k),
       sp_zs = (\<lambda>k. if owner_index hosts k = j then zs_of L s' k else sp_zs (cluster_abs L hosts w) k)\<rparr>"
    by (simp add: cluster_abs_def w' fun_eq_iff)
qed

lemma cluster_advance:
  assumes "cluster_ok L hosts w" and "i < length hosts" and "j < length hosts"
    and w': "w_node w' = (w_node w)(hosts ! i := advance_pool j (w_node w (hosts ! i)))"
  shows "cluster_ok L hosts w'" and "cluster_abs L hosts w' = cluster_abs L hosts w"
proof -
  have ok: "node_ok L hosts i (advance_pool j (w_node w (hosts ! i)))"
    using cluster_okD(5) [OF assms(1,2)] assms(3) by (rule node_ok_advance)
  show "cluster_ok L hosts w'"
    by (rule cluster_set_node(1) [OF assms(1,2) ok w'])
  show "cluster_abs L hosts w' = cluster_abs L hosts w"
    unfolding cluster_set_node(2) [OF assms(1,2) ok w']
    by (auto simp: cluster_abs_def owner_def fun_eq_iff)
qed

section \<open>Calls that arrive\<close>

text \<open>The two nodes a delivered call involves, as one change of the world.\<close>

lemma call_peer_delivered:
  assumes c: "cluster_ok L hosts w" and net: "net_ok w"
    and i: "i < length hosts" and j: "j < length hosts" and ij: "i \<noteq> j"
  shows "\<exists>w1 w'. call_peer (hosts ! i) j f w = (w', Inr
        (case snd (f (w_node w (hosts ! j))) of Inl _ \<Rightarrow> Inl () | Inr r \<Rightarrow> Inr r)) \<and>
      w_node w1 = (w_node w)(hosts ! i := advance_pool j (w_node w (hosts ! i))) \<and>
      w_node w' = (w_node w1)(hosts ! j := fst (f (w_node w (hosts ! j)))) \<and>
      w_node w1 (hosts ! j) = w_node w (hosts ! j) \<and>
      net_ok w' \<and> cluster_ok L hosts w1 \<and> cluster_abs L hosts w1 = cluster_abs L hosts w"
proof -
  let ?w1 = "set_node (hosts ! i) (advance_pool j (w_node w (hosts ! i))) w"
  have "hosts ! i \<noteq> hosts ! j"
    using cluster_okD(2) [OF c] i j ij by (simp add: nth_eq_iff_index_eq)
  then have at_j: "w_node ?w1 (hosts ! j) = w_node w (hosts ! j)" by simp
  have "pool_ok hosts (w_node w (hosts ! i))"
    using cluster_okD(5) [OF c i] by (simp add: node_ok_def)
  then have call: "call_peer (hosts ! i) j f w = (case rpc_call (hosts ! j) f ?w1 of (w', r) \<Rightarrow> (w', Inr r))"
    using j by (rule call_peer_ok)
  let ?w' = "set_node (hosts ! j) (fst (f (w_node w (hosts ! j)))) (?w1\<lparr>w_calls := Suc (w_calls ?w1)\<rparr>)"
  have "rpc_call (hosts ! j) f ?w1 = (?w',
      case snd (f (w_node w (hosts ! j))) of Inl _ \<Rightarrow> Inl () | Inr r \<Rightarrow> Inr r)"
    using net at_j by (simp add: rpc_call_def net_ok_def Let_def)
  moreover have "cluster_ok L hosts ?w1" and "cluster_abs L hosts ?w1 = cluster_abs L hosts w"
    by (rule cluster_advance [OF c i j]; simp)+
  moreover have "net_ok ?w'" using net by (simp add: net_ok_def)
  ultimately show ?thesis
    using call at_j by (intro exI [of _ ?w1] exI [of _ ?w']) simp
qed

end
