(* ===== verification/Cluster_Data.thy ===== *)
theory Cluster_Data
  imports Cluster
begin

text \<open>
  The data requests of a well-configured cluster over a network that delivers every call: a
  command at any node acts on the cluster's contents as the abstract store says
  (\<open>send_cmd_abs\<close>), so any sequence of commands does: the interpretation \<open>cluster\<close> of
  \<open>data_store\<close>. When calls or replies are lost, \<open>send_cmd_fate\<close> says what became of a command.
  Reads, batches and lists are theory \<open>Cluster_Bulk\<close>.
\<close>

section \<open>Commands\<close>

text \<open>The request that carries a command, at node \<open>h\<close>, with the body a client writes.\<close>

definition send_cmd ::
    "('kv, 'vs, 'zm, 'db) libs \<Rightarrow> env \<Rightarrow> string \<Rightarrow> cmd \<Rightarrow> ('kv, 'vs, 'zm, 'db) handler" where
  "send_cmd L E h c w =
     (case c of
        Add k v \<Rightarrow> handle_add L E h (Inr (js_write_insrt E \<lparr>ir_key = k, ir_value = v\<rparr>)) w
      | Del k \<Rightarrow> handle_del L h k w
      | Zadd k sv \<Rightarrow> handle_zadd L E h k (Inr (js_write_score_value E sv)) w
      | Zrmv k v \<Rightarrow> handle_zrmv L h k v w)"

fun cmd_method ::
    "('kv, 'vs, 'zm, 'db) libs \<Rightarrow> cmd \<Rightarrow> (('kv, 'vs, 'zm, 'db) storage, unit) rpc_method" where
  "cmd_method L (Add k v) = rpc_add L k v"
| "cmd_method L (Del k) = rpc_del L k"
| "cmd_method L (Zadd k sv) = rpc_zadd L k sv"
| "cmd_method L (Zrmv k v) = rpc_zrmv L k v"

lemma cmd_method_step: "cmd_method L c s = (server_step L c s, Inr ())"
  by (cases c) (simp_all add: rpc_add_eq rpc_del_eq rpc_zadd_def rpc_zrmv_def)

lemma env_okD:
  assumes "env_ok E"
  shows "js_read_insrt E (js_write_insrt E r) = Some r"
    "js_read_insrts E (js_write_insrts E rs) = Some rs"
    "js_read_keys E (js_write_keys E ks) = Some ks"
    "js_read_score_value E (js_write_score_value E sv) = Some sv"
    "js_read_score_range E (js_write_score_range E sr) = Some sr"
    "js_read_score_values E (js_write_score_values E svs) = Some svs"
  using assms by (simp_all add: env_ok_def)

text \<open>Every data handler has the same two branches.\<close>

lemma send_cmd_branches:
  assumes E: "env_ok E"
  shows "send_cmd L E h c w =
    (if local_shard h (cmd_key c) w = st_me (w_node w h)
     then (set_node h (server_step L c (w_node w h)) w, Inr (ok_response ''''))
     else reply_unit (call_peer h (unat (local_shard h (cmd_key c) w)) (cmd_method L c) w))"
  by (cases c)
    (simp_all add: send_cmd_def handle_add_def handle_del_def handle_zadd_def handle_zrmv_def
      read_json_def env_okD [OF E] remote_defs rpc_add_eq rpc_del_eq rpc_zadd_def rpc_zrmv_def
      split_beta insert_kv_Ok remove_key_Ok Let_def)

text \<open>A command reads and writes the abstract store at its key only.\<close>

lemma spec_step_other:
  "k \<noteq> cmd_key c \<Longrightarrow> sp_kv (spec_step c a) k = sp_kv a k"
  "k \<noteq> cmd_key c \<Longrightarrow> sp_zs (spec_step c a) k = sp_zs a k"
  by (cases c; simp add: zs_put_def zs_del_def)+

lemma spec_step_local:
  assumes "sp_kv a k = sp_kv b k" and "sp_zs a k = sp_zs b k"
  shows "sp_kv (spec_step c a) k = sp_kv (spec_step c b) k"
    and "sp_zs (spec_step c a) k = sp_zs (spec_step c b) k"
  using assms by (cases c; auto simp: zs_put_def zs_del_def)+

lemma cluster_server_step:
  assumes L: "libs_ok L" and c: "cluster_ok L hosts w"
    and w': "w_node w' = (w_node w)(owner hosts (cmd_key c) :=
      server_step L c (w_node w (owner hosts (cmd_key c))))"
  shows "cluster_ok L hosts w'" and "cluster_abs L hosts w' = spec_step c (cluster_abs L hosts w)"
proof -
  let ?j = "owner_index hosts (cmd_key c)"
  let ?s = "w_node w (hosts ! ?j)"
  note cl = cluster_okD [OF c]
  have j: "?j < length hosts" using cl(1) by (rule owner_index_less)
  have node: "node_ok L hosts ?j ?s" using cl(5) j by blast
  then have ok: "storage_ok L ?s" by (simp add: node_ok_def)
  have node': "node_ok L hosts ?j (server_step L c ?s)"
    using node same_node_server_step server_step_ok [OF L ok] by (rule node_ok_same)
  have w2: "w_node w' = (w_node w)(hosts ! ?j := server_step L c ?s)"
    using w' by (simp add: owner_def)
  show "cluster_ok L hosts w'"
    by (rule cluster_set_node(1) [OF c j node' w2])
  have step: "kv_of L (server_step L c ?s) = sp_kv (spec_step c (storage_abs L ?s))"
      "zs_of L (server_step L c ?s) = sp_zs (spec_step c (storage_abs L ?s))"
    unfolding server_step_abs [OF L ok, of c, symmetric] by (simp_all add: storage_abs_def)
  have at: "sp_kv (cluster_abs L hosts w) k = sp_kv (storage_abs L ?s) k"
      "sp_zs (cluster_abs L hosts w) k = sp_zs (storage_abs L ?s) k" if "owner_index hosts k = ?j" for k
    using that by (simp_all add: cluster_abs_def storage_abs_def owner_def)
  have "sp_kv (cluster_abs L hosts w') k = sp_kv (spec_step c (cluster_abs L hosts w)) k \<and>
      sp_zs (cluster_abs L hosts w') k = sp_zs (spec_step c (cluster_abs L hosts w)) k" for k
  proof (cases "owner_index hosts k = ?j")
    case True
    then show ?thesis
      using spec_step_local [OF at(1) [OF True] at(2) [OF True], of c]
      by (simp add: cluster_set_node(2) [OF c j node' w2] step)
  next
    case False
    then have "k \<noteq> cmd_key c" by auto
    with False show ?thesis
      by (simp add: cluster_set_node(2) [OF c j node' w2] spec_step_other)
  qed
  then show "cluster_abs L hosts w' = spec_step c (cluster_abs L hosts w)"
    by (simp add: fun_eq_iff spec.equality)
qed

lemma send_cmd_abs:
  assumes L: "libs_ok L" and E: "env_ok E" and c: "cluster_ok L hosts w" and net: "net_ok w"
    and i: "i < length hosts"
  shows "\<exists>w'. send_cmd L E (hosts ! i) cmd w = (w', Inr (ok_response '''')) \<and>
    cluster_ok L hosts w' \<and> net_ok w' \<and>
    cluster_abs L hosts w' = spec_step cmd (cluster_abs L hosts w)"
proof -
  let ?k = "cmd_key cmd"
  let ?j = "owner_index hosts ?k"
  have j: "?j < length hosts" using cluster_okD(1) [OF c] by (rule owner_index_less)
  note branch = send_cmd_branches [OF E, of L "hosts ! i" cmd w, unfolded local_shard_me [OF c i] unat_local_shard [OF c i]]
  show ?thesis
  proof (cases "?j = i")
    case True
    let ?w' = "set_node (hosts ! i) (server_step L cmd (w_node w (hosts ! i))) w"
    have "w_node ?w' = (w_node w)(owner hosts ?k := server_step L cmd (w_node w (owner hosts ?k)))"
      using True by (simp add: owner_def)
    from cluster_server_step [OF L c this] True net show ?thesis
      unfolding branch by (simp add: net_ok_def)
  next
    case False
    then have "i \<noteq> ?j" by simp
    from call_peer_delivered [OF c net i j this, of "cmd_method L cmd"] obtain w1 w' where
      call: "call_peer (hosts ! i) ?j (cmd_method L cmd) w = (w', Inr (Inr ()))"
      and w'_node: "w_node w' = (w_node w1)(hosts ! ?j := server_step L cmd (w_node w (hosts ! ?j)))"
      and at: "w_node w1 (hosts ! ?j) = w_node w (hosts ! ?j)"
      and "net_ok w'" and c1: "cluster_ok L hosts w1"
      and abs1: "cluster_abs L hosts w1 = cluster_abs L hosts w"
      unfolding cmd_method_step fst_conv snd_conv sum.case by blast
    have w': "w_node w' = (w_node w1)(hosts ! ?j := server_step L cmd (w_node w1 (hosts ! ?j)))"
      using w'_node at by simp
    have "w_node w' = (w_node w1)(owner hosts ?k := server_step L cmd (w_node w1 (owner hosts ?k)))"
      using w' by (simp add: owner_def)
    from cluster_server_step [OF L c1 this] call False \<open>net_ok w'\<close> abs1 show ?thesis
      unfolding branch by (simp add: reply_unit_def)
  qed
qed

text \<open>A client's step: a command, sent to any node.\<close>

definition cluster_step ::
    "('kv, 'vs, 'zm, 'db) libs \<Rightarrow> env \<Rightarrow> string list \<Rightarrow> nat \<times> cmd \<Rightarrow>
     ('kv, 'vs, 'zm, 'db) storage world \<Rightarrow> ('kv, 'vs, 'zm, 'db) storage world" where
  "cluster_step L E hosts nc w = fst (send_cmd L E (hosts ! (fst nc mod length hosts)) (snd nc) w)"

interpretation cluster: data_store
    "\<lambda>w. libs_ok L \<and> env_ok E \<and> cluster_ok L hosts w \<and> net_ok w" "cluster_abs L hosts" snd
    "cluster_step L E hosts"
  for L :: "('kv, 'vs, 'zm, 'db) libs" and E :: env and hosts :: "string list"
proof unfold_locales
  fix w :: "('kv, 'vs, 'zm, 'db) storage world" and nc :: "nat \<times> cmd"
  assume inv: "libs_ok L \<and> env_ok E \<and> cluster_ok L hosts w \<and> net_ok w"
  then have "fst nc mod length hosts < length hosts"
    using cluster_okD(3) [of L hosts w] by simp
  with inv obtain w' where "send_cmd L E (hosts ! (fst nc mod length hosts)) (snd nc) w = (w', Inr (ok_response ''''))"
    "cluster_ok L hosts w'" "net_ok w'" "cluster_abs L hosts w' = spec_step (snd nc) (cluster_abs L hosts w)"
    using send_cmd_abs by blast
  with inv show "cluster_abs L hosts (cluster_step L E hosts nc w) = spec_step (snd nc) (cluster_abs L hosts w)"
    and "libs_ok L \<and> env_ok E \<and> cluster_ok L hosts (cluster_step L E hosts nc w) \<and>
      net_ok (cluster_step L E hosts nc w)"
    by (simp_all add: cluster_step_def)
qed

section \<open>Calls that are lost\<close>

text \<open>
  A command whose owner is another node is answered with 500 when the call or its reply is lost;
  in the first case nothing has happened, in the second the command has been executed.
\<close>

lemma send_cmd_fate:
  assumes L: "libs_ok L" and E: "env_ok E" and c: "cluster_ok L hosts w" and i: "i < length hosts"
    and far: "owner_index hosts (cmd_key cmd) \<noteq> i"
  shows "\<exists>w'. send_cmd L E (hosts ! i) cmd w =
      (w', Inr (if w_fate w (w_calls w) = Delivered then ok_response ''''
                else empty_response INTERNAL_SERVER_ERROR)) \<and>
    cluster_ok L hosts w' \<and>
    cluster_abs L hosts w' = (if w_fate w (w_calls w) = Lost_request then cluster_abs L hosts w
      else spec_step cmd (cluster_abs L hosts w))"
proof -
  let ?k = "cmd_key cmd"
  let ?j = "owner_index hosts ?k"
  let ?w1 = "set_node (hosts ! i) (advance_pool ?j (w_node w (hosts ! i))) w"
  let ?w2 = "set_node (hosts ! ?j) (server_step L cmd (w_node ?w1 (hosts ! ?j))) (?w1\<lparr>w_calls := Suc (w_calls ?w1)\<rparr>)"
  have j: "?j < length hosts" using cluster_okD(1) [OF c] by (rule owner_index_less)
  have "pool_ok hosts (w_node w (hosts ! i))"
    using cluster_okD(5) [OF c i] by (simp add: node_ok_def)
  note call = call_peer_ok [OF this j, of "cmd_method L cmd"]
  have w1: "cluster_ok L hosts ?w1" "cluster_abs L hosts ?w1 = cluster_abs L hosts w"
    by (rule cluster_advance [OF c i j]; simp)+
  have node2: "w_node ?w2 = (w_node ?w1)(owner hosts ?k := server_step L cmd (w_node ?w1 (owner hosts ?k)))"
    by (simp add: owner_def)
  note w2 = cluster_server_step [OF L w1(1) node2]
  have w1': "cluster_ok L hosts (?w1\<lparr>w_calls := n\<rparr>)"
      "cluster_abs L hosts (?w1\<lparr>w_calls := n\<rparr>) = cluster_abs L hosts w" for n
    using w1 by (simp_all add: cluster_ok_def cluster_abs_def)
  have send: "send_cmd L E (hosts ! i) cmd w = reply_unit (call_peer (hosts ! i) ?j (cmd_method L cmd) w)"
    using far by (simp add: send_cmd_branches [OF E] local_shard_me [OF c i] unat_local_shard [OF c i])
  show ?thesis
  proof (cases "w_fate w (w_calls w)")
    case Delivered
    then have "send_cmd L E (hosts ! i) cmd w = (?w2, Inr (ok_response ''''))"
      unfolding send call by (simp add: rpc_call_def Let_def cmd_method_step reply_unit_def)
    with Delivered w1(2) w2 show ?thesis by auto
  next
    case Lost_request
    then have "send_cmd L E (hosts ! i) cmd w =
        (?w1\<lparr>w_calls := Suc (w_calls ?w1)\<rparr>, Inr (empty_response INTERNAL_SERVER_ERROR))"
      unfolding send call by (simp add: rpc_call_def Let_def reply_unit_def)
    with Lost_request w1' show ?thesis by auto
  next
    case Lost_reply
    then have "send_cmd L E (hosts ! i) cmd w = (?w2, Inr (empty_response INTERNAL_SERVER_ERROR))"
      unfolding send call by (simp add: rpc_call_def Let_def cmd_method_step reply_unit_def)
    with Lost_reply w1(2) w2 show ?thesis by auto
  qed
qed

end
