(* ===== verification/Cluster_Bulk.thy ===== *)
theory Cluster_Bulk
  imports Cluster_Data
begin

text \<open>
  Reads, range queries, batches and lists of the cluster. A batch is grouped by shard; the
  groups are applied in the iteration order of the hash map, and the result does not depend on
  it. A batch leaves a zset under the same key alone where the key is local and drops it where
  the key is remote.
\<close>

section \<open>Reads\<close>

lemma cluster_same_nodes:
  assumes "w_node w' = w_node w"
  shows "cluster_ok L hosts w' \<longleftrightarrow> cluster_ok L hosts w" and "cluster_abs L hosts w' = cluster_abs L hosts w"
  by (simp_all add: cluster_ok_def cluster_abs_def assms)

text \<open>A delivered call of a method that changes nothing.\<close>

lemma call_peer_read:
  assumes c: "cluster_ok L hosts w" and net: "net_ok w"
    and i: "i < length hosts" and j: "j < length hosts" and ij: "i \<noteq> j"
    and f: "\<And>s. fst (f s) = s"
  shows "\<exists>w'. call_peer (hosts ! i) j f w = (w', Inr
        (case snd (f (w_node w (hosts ! j))) of Inl _ \<Rightarrow> Inl () | Inr r \<Rightarrow> Inr r)) \<and>
      cluster_ok L hosts w' \<and> net_ok w' \<and> cluster_abs L hosts w' = cluster_abs L hosts w \<and>
      st_me (w_node w' (hosts ! i)) = st_me (w_node w (hosts ! i))"
proof -
  from call_peer_delivered [OF c net i j ij, of f] obtain w1 w' where
    call: "call_peer (hosts ! i) j f w = (w', Inr
        (case snd (f (w_node w (hosts ! j))) of Inl _ \<Rightarrow> Inl () | Inr r \<Rightarrow> Inr r))"
    and w1: "w_node w1 = (w_node w)(hosts ! i := advance_pool j (w_node w (hosts ! i)))"
    and w': "w_node w' = (w_node w1)(hosts ! j := w_node w (hosts ! j))"
    and at: "w_node w1 (hosts ! j) = w_node w (hosts ! j)"
    and net': "net_ok w'" and c1: "cluster_ok L hosts w1"
    and abs1: "cluster_abs L hosts w1 = cluster_abs L hosts w"
    unfolding f by blast
  have same: "w_node w' = w_node w1" using w' at by auto
  have "cluster_ok L hosts w'" and "cluster_abs L hosts w' = cluster_abs L hosts w"
    using cluster_same_nodes [OF same] c1 abs1 by simp_all
  moreover have "st_me (w_node w' (hosts ! i)) = st_me (w_node w (hosts ! i))"
    by (simp add: same w1)
  ultimately show ?thesis using call net' by blast
qed

lemma owner_kv:
  assumes "owner_index hosts k = i"
  shows "kv_of L (w_node w (hosts ! i)) k = sp_kv (cluster_abs L hosts w) k"
    and "zs_of L (w_node w (hosts ! i)) k = sp_zs (cluster_abs L hosts w) k"
  using assms by (auto simp: cluster_abs_def owner_def)

definition query_response :: "string option \<Rightarrow> http_response" where
  "query_response v = (case v of None \<Rightarrow> empty_response NOT_FOUND | Some x \<Rightarrow> ok_response x)"

lemma handle_query_cluster:
  assumes c: "cluster_ok L hosts w" and net: "net_ok w" and i: "i < length hosts"
  shows "\<exists>w'. handle_query L (hosts ! i) k w =
      (w', Inr (query_response (sp_kv (cluster_abs L hosts w) k))) \<and>
    cluster_ok L hosts w' \<and> net_ok w' \<and> cluster_abs L hosts w' = cluster_abs L hosts w"
proof (cases "owner_index hosts k = i")
  case True
  then show ?thesis
    using c net by (auto simp: handle_query_def local_shard_me [OF c i] reply_option_def get_kv_kv_of
        owner_kv query_response_def split: option.split)
next
  case False
  let ?j = "owner_index hosts k"
  have j: "?j < length hosts" using cluster_okD(1) [OF c] by (rule owner_index_less)
  from False have "i \<noteq> ?j" by simp
  from call_peer_read [OF c net i j this, of "rpc_query L k"] obtain w' where
    "call_peer (hosts ! i) ?j (rpc_query L k) w = (w', Inr (Inr (sp_kv (cluster_abs L hosts w) k)))"
    "cluster_ok L hosts w'" "net_ok w'" "cluster_abs L hosts w' = cluster_abs L hosts w"
    by (auto simp: rpc_query_def get_kv_kv_of owner_kv)
  with False show ?thesis
    by (auto simp: handle_query_def local_shard_me [OF c i] unat_local_shard [OF c i] Let_def
        get_kv_remote_def reply_option_def query_response_def split: option.split)
qed

section \<open>Batches\<close>

definition owned_by :: "string list \<Rightarrow> nat \<Rightarrow> insrt_request list \<Rightarrow> bool" where
  "owned_by hosts j kvs \<longleftrightarrow> (\<forall>r \<in> set kvs. owner_index hosts (ir_key r) = j)"

definition keys_of :: "insrt_request list \<Rightarrow> string set" where
  "keys_of kvs = ir_key ` set kvs"

definition batch_map :: "insrt_request list \<Rightarrow> string \<Rightarrow> string option" where
  "batch_map kvs = map_of (rev (map kv_pair kvs))"

lemma batch_map_None: "batch_map kvs k = None \<longleftrightarrow> k \<notin> keys_of kvs"
  by (auto simp: batch_map_def keys_of_def map_of_eq_None_iff kv_pair_def image_image)

lemma batch_map_append: "batch_map (kvs @ kvs') = batch_map kvs ++ batch_map kvs'"
  by (simp add: batch_map_def)

lemma batch_map_filter: "batch_map kvs k = batch_map (filter (\<lambda>r. ir_key r = k) kvs) k"
  unfolding batch_map_def
  by (induction kvs) (auto simp: kv_pair_def map_add_def split: option.splits)

text \<open>A group applied at its node, whether by the local batch or by the remote one.\<close>

lemma cluster_group:
  assumes c: "cluster_ok L hosts w" and j: "j < length hosts" and own: "owned_by hosts j kvs"
    and w': "w_node w' = (w_node w)(hosts ! j := s')"
    and s': "same_node (w_node w (hosts ! j)) s'" "storage_ok L s'"
    and kv: "kv_of L s' = kv_of L (w_node w (hosts ! j)) ++ batch_map kvs"
    and zs: "zs_of L s' = (\<lambda>k. if drops \<and> k \<in> keys_of kvs then None else zs_of L (w_node w (hosts ! j)) k)"
  shows "cluster_ok L hosts w'" and "sp_kv (cluster_abs L hosts w') = sp_kv (cluster_abs L hosts w) ++ batch_map kvs"
    and "sp_zs (cluster_abs L hosts w') =
      (\<lambda>k. if drops \<and> k \<in> keys_of kvs then None else sp_zs (cluster_abs L hosts w) k)"
proof -
  have node': "node_ok L hosts j s'"
    using cluster_okD(5) [OF c j] s' by (rule node_ok_same)
  note set = cluster_set_node [OF c j node' w']
  show "cluster_ok L hosts w'" by (rule set(1))
  have other: "k \<notin> keys_of kvs" if "owner_index hosts k \<noteq> j" for k
    using own that by (auto simp: owned_by_def keys_of_def)
  have "sp_kv (cluster_abs L hosts w') k = (sp_kv (cluster_abs L hosts w) ++ batch_map kvs) k" for k
    using other [of k] batch_map_None [of kvs k] owner_kv(1) [of hosts k j L w]
    by (cases "owner_index hosts k = j") (auto simp: set(2) kv map_add_def split: option.split)
  then show "sp_kv (cluster_abs L hosts w') = sp_kv (cluster_abs L hosts w) ++ batch_map kvs" by blast
  have "sp_zs (cluster_abs L hosts w') k =
      (if drops \<and> k \<in> keys_of kvs then None else sp_zs (cluster_abs L hosts w) k)" for k
    using other [of k] owner_kv(2) [of hosts k j L w]
    by (cases "owner_index hosts k = j") (auto simp: set(2) zs)
  then show "sp_zs (cluster_abs L hosts w') =
      (\<lambda>k. if drops \<and> k \<in> keys_of kvs then None else sp_zs (cluster_abs L hosts w) k)" by blast
qed

lemma batch_remote_step:
  assumes L: "libs_ok L" and c: "cluster_ok L hosts w" and net: "net_ok w"
    and i: "i < length hosts" and j: "j < length hosts" and ij: "i \<noteq> j" and own: "owned_by hosts j kvs"
  defines "w' \<equiv> fst (batch_insert_kv_remote L (hosts ! i) kvs j w)"
  shows "cluster_ok L hosts w' \<and> net_ok w' \<and>
    sp_kv (cluster_abs L hosts w') = sp_kv (cluster_abs L hosts w) ++ batch_map kvs \<and>
    sp_zs (cluster_abs L hosts w') =
      (\<lambda>k. if k \<in> keys_of kvs then None else sp_zs (cluster_abs L hosts w) k)"
proof -
  let ?s = "w_node w (hosts ! j)"
  from call_peer_delivered [OF c net i j ij, of "rpc_batch L kvs"] obtain w1 w2 where
    w2: "fst (call_peer (hosts ! i) j (rpc_batch L kvs) w) = w2"
    and node: "w_node w2 = (w_node w1)(hosts ! j := fst (rpc_batch L kvs ?s))"
    and at: "w_node w1 (hosts ! j) = ?s"
    and net2: "net_ok w2" and c1: "cluster_ok L hosts w1"
    and abs1: "cluster_abs L hosts w1 = cluster_abs L hosts w"
    by (metis fst_conv)
  have ok: "storage_ok L ?s" using cluster_okD(5) [OF c j] by (simp add: node_ok_def)
  have "w' = w2" using w2 by (simp add: w'_def batch_insert_kv_remote_def)
  moreover have "cluster_ok L hosts w2"
      "sp_kv (cluster_abs L hosts w2) = sp_kv (cluster_abs L hosts w1) ++ batch_map kvs"
      "sp_zs (cluster_abs L hosts w2) =
        (\<lambda>k. if True \<and> k \<in> keys_of kvs then None else sp_zs (cluster_abs L hosts w1) k)"
    by (rule cluster_group [OF c1 j own node, where drops = True];
        simp add: at same_node_rpc_batch storage_ok_rpc_batch [OF L ok] kv_of_rpc_batch [OF L ok]
          zs_of_rpc_batch [OF L] batch_map_def keys_of_def cong: if_cong)+
  ultimately show ?thesis using net2 abs1 by (simp cong: if_cong)
qed

lemma batch_remotes_cluster:
  assumes L: "libs_ok L" and i: "i < length hosts"
  shows "\<lbrakk>cluster_ok L hosts w; net_ok w;
      \<forall>sh \<in> set shs. unat sh < length hosts \<and> unat sh \<noteq> i \<and>
        plan sh \<noteq> None \<and> owned_by hosts (unat sh) (the (plan sh))\<rbrakk> \<Longrightarrow>
    (let w' = batch_remotes L (hosts ! i) plan shs w; kvs = concat (map (\<lambda>sh. the (plan sh)) shs) in
     cluster_ok L hosts w' \<and> net_ok w' \<and>
     sp_kv (cluster_abs L hosts w') = sp_kv (cluster_abs L hosts w) ++ batch_map kvs \<and>
     sp_zs (cluster_abs L hosts w') =
       (\<lambda>k. if k \<in> keys_of kvs then None else sp_zs (cluster_abs L hosts w) k))"
proof (induction shs arbitrary: w)
  case Nil
  then show ?case by (simp add: batch_map_def keys_of_def)
next
  case (Cons sh shs)
  from Cons.prems(3) obtain kvs where plan: "plan sh = Some kvs" and own: "owned_by hosts (unat sh) kvs"
    and sh: "unat sh < length hosts" "i \<noteq> unat sh"
    by auto
  have me: "st_me (w_node w (hosts ! i)) = word_of_nat i" and "i < 2 ^ 32"
    using cluster_okD(4,5) [OF Cons.prems(1)] i by (auto simp: node_ok_def)
  then have "unat (st_me (w_node w (hosts ! i))) = i"
    by (simp add: unsigned_of_nat take_bit_nat_eq_self_iff)
  then have "sh \<noteq> st_me (w_node w (hosts ! i))" using sh(2) by auto
  with plan have unfold: "batch_remotes L (hosts ! i) plan (sh # shs) w =
      batch_remotes L (hosts ! i) plan shs (fst (batch_insert_kv_remote L (hosts ! i) kvs (unat sh) w))"
    by simp
  note step = batch_remote_step [OF L Cons.prems(1,2) i sh(1) sh(2) own]
  let ?w1 = "fst (batch_insert_kv_remote L (hosts ! i) kvs (unat sh) w)"
  have rest: "\<forall>sh \<in> set shs. unat sh < length hosts \<and> unat sh \<noteq> i \<and>
        plan sh \<noteq> None \<and> owned_by hosts (unat sh) (the (plan sh))"
    using Cons.prems(3) by simp
  have keys: "keys_of (kvs @ kvs') = keys_of kvs \<union> keys_of kvs'" for kvs'
    by (auto simp: keys_of_def)
  from Cons.IH [of ?w1] step rest show ?case
    unfolding unfold by (simp add: Let_def plan batch_map_append keys fun_eq_iff)
qed

text \<open>What the grouping puts under each shard.\<close>

lemma group_batch_at:
  "group_batch n kvs sh =
     (let rs = filter (\<lambda>r. shard_u32 (Hash_str (ir_key r)) n = sh) kvs in if rs = [] then None else Some rs)"
  by (induction kvs rule: rev_induct) (auto simp: group_batch_def Let_def)

lemma group_keys_at:
  "group_keys n keys sh =
     (let ks = {k \<in> set keys. shard_u32 (Hash_str k) n = sh} in if ks = {} then None else Some ks)"
proof (induction keys rule: rev_induct)
  case Nil
  then show ?case by (simp add: group_keys_def)
next
  case (snoc x keys)
  let ?ks = "{k \<in> set keys. shard_u32 (Hash_str k) n = sh}"
  have step: "group_keys n (keys @ [x]) sh =
      (if shard_u32 (Hash_str x) n = sh
       then Some (insert x (case group_keys n keys sh of None \<Rightarrow> {} | Some ks \<Rightarrow> ks))
       else group_keys n keys sh)"
    by (auto simp: group_keys_def Let_def)
  have new: "{k \<in> set (keys @ [x]). shard_u32 (Hash_str k) n = sh} =
      (if shard_u32 (Hash_str x) n = sh then insert x ?ks else ?ks)"
    by auto
  show ?case
    unfolding step new snoc.IH by (cases "?ks = {}") (simp_all add: Let_def del: Collect_empty_eq empty_Collect_eq)
qed

lemma batch_map_Cons:
  "batch_map (r # kvs) k =
     (case batch_map kvs k of None \<Rightarrow> if ir_key r = k then Some (ir_value r) else None | Some v \<Rightarrow> Some v)"
  by (auto simp: batch_map_def kv_pair_def map_add_def split: option.split)

lemma batch_map_Nil [simp]: "batch_map [] = Map.empty"
  by (simp add: batch_map_def)

lemma batch_map_filter_keys:
  "batch_map (filter (\<lambda>r. g (ir_key r)) kvs) k = (if g k then batch_map kvs k else None)"
  by (induction kvs) (auto simp: batch_map_Cons split: option.split)

lemma batch_map_concat:
  "\<lbrakk>s \<in> set shs; \<forall>s' \<in> set shs. s' \<noteq> s \<longrightarrow> k \<notin> keys_of (f s')\<rbrakk> \<Longrightarrow>
     batch_map (concat (map f shs)) k = batch_map (f s) k"
proof (induction shs)
  case Nil
  then show ?case by simp
next
  case (Cons a shs)
  show ?case
  proof (cases "s \<in> set shs")
    case True
    then have "batch_map (concat (map f shs)) k = batch_map (f s) k"
      using Cons by simp
    moreover have "a \<noteq> s \<Longrightarrow> batch_map (f a) k = None"
      using Cons.prems by (simp add: batch_map_None)
    ultimately show ?thesis
      by (cases "a = s") (auto simp: batch_map_append map_add_def split: option.split)
  next
    case False
    with Cons.prems have "a = s" and none: "\<forall>s' \<in> set shs. k \<notin> keys_of (f s')" by auto
    then have "k \<notin> keys_of (concat (map f shs))" by (auto simp: keys_of_def)
    with \<open>a = s\<close> show ?thesis
      by (auto simp: batch_map_append map_add_def batch_map_None [symmetric] split: option.splits)
  qed
qed

text \<open>
  The grouping of a batch at node \<open>i\<close>: its own group, and a plan for the others in the order
  of the hash map.
\<close>

lemma shard_node:
  assumes "cluster_ok L hosts w" and "i < length hosts"
  shows "unat (shard_u32 (Hash_str k) (st_count (w_node w (hosts ! i)))) = owner_index hosts k"
    and "shard_u32 (Hash_str k) (st_count (w_node w (hosts ! i))) = st_me (w_node w (hosts ! i)) \<longleftrightarrow>
      owner_index hosts k = i"
    and "shard_u32 (Hash_str k) (st_count (w_node w (hosts ! i))) =
      shard_u32 (Hash_str k') (st_count (w_node w (hosts ! i))) \<longleftrightarrow>
      owner_index hosts k = owner_index hosts k'"
proof -
  note unat = unat_local_shard [OF assms, unfolded local_shard_def]
  show "unat (shard_u32 (Hash_str k) (st_count (w_node w (hosts ! i)))) = owner_index hosts k"
    by (rule unat)
  show "shard_u32 (Hash_str k) (st_count (w_node w (hosts ! i))) = st_me (w_node w (hosts ! i)) \<longleftrightarrow>
      owner_index hosts k = i"
    by (rule local_shard_me [OF assms, unfolded local_shard_def])
  show "shard_u32 (Hash_str k) (st_count (w_node w (hosts ! i))) =
      shard_u32 (Hash_str k') (st_count (w_node w (hosts ! i))) \<longleftrightarrow>
      owner_index hosts k = owner_index hosts k'"
    by (simp add: word_unat_eq_iff unat)
qed

lemma batch_groups:
  fixes kvs :: "insrt_request list"
  assumes L: "libs_ok L" and c: "cluster_ok L hosts w" and i: "i < length hosts"
  defines "s \<equiv> w_node w (hosts ! i)"
  defines "sharded \<equiv> group_batch (st_count s) kvs"
  defines "others \<equiv> sharded(st_me s := None)"
  defines "shs \<equiv> lib_shards L (dom others)"
  defines "kvs' \<equiv> concat (map (\<lambda>sh. the (others sh)) shs)"
  shows "(case sharded (st_me s) of None \<Rightarrow> [] | Some rs \<Rightarrow> rs) =
      filter (\<lambda>r. owner_index hosts (ir_key r) = i) kvs" (is ?own)
    and "\<forall>sh \<in> set shs. unat sh < length hosts \<and> unat sh \<noteq> i \<and>
        others sh \<noteq> None \<and> owned_by hosts (unat sh) (the (others sh))" (is ?plan)
    and "batch_map kvs' k = (if owner_index hosts k = i then None else batch_map kvs k)" (is ?map)
proof -
  note shard = shard_node [OF c i, folded s_def]
  have at: "sharded sh = (let rs = filter (\<lambda>r. shard_u32 (Hash_str (ir_key r)) (st_count s) = sh) kvs in
      if rs = [] then None else Some rs)" for sh
    by (simp add: sharded_def group_batch_at)
  show ?own by (simp add: at shard Let_def)
  have some: "others sh = Some rs \<longleftrightarrow> sh \<noteq> st_me s \<and> rs \<noteq> [] \<and>
      rs = filter (\<lambda>r. shard_u32 (Hash_str (ir_key r)) (st_count s) = sh) kvs" for sh rs
    by (auto simp: others_def at Let_def)
  have the_others: "the (others sh) = filter (\<lambda>r. shard_u32 (Hash_str (ir_key r)) (st_count s) = sh) kvs"
    if "sh \<in> dom others" for sh
    using that some [of sh "the (others sh)"] by auto
  have "dom others \<subseteq> (\<lambda>r. shard_u32 (Hash_str (ir_key r)) (st_count s)) ` set kvs"
    by (auto simp: some filter_empty_conv image_iff)
  then have "finite (dom others)" by (rule finite_subset) simp
  then have shs: "set shs = dom others"
    using iteration_set [OF libs_okD(6) [OF L]] by (simp add: shs_def)
  show ?plan
  proof
    fix sh assume "sh \<in> set shs"
    then obtain rs where rs: "others sh = Some rs" using shs by auto
    then obtain r where r: "r \<in> set rs" by (metis some list.set_sel(1))
    with rs have sh: "sh = shard_u32 (Hash_str (ir_key r)) (st_count s)" and "sh \<noteq> st_me s"
      by (auto simp: some)
    then have "unat sh = owner_index hosts (ir_key r)" "unat sh \<noteq> i"
      using shard(1,2) by auto
    moreover have "owned_by hosts (unat sh) rs"
      using rs shard(1) by (auto simp: some owned_by_def)
    ultimately show "unat sh < length hosts \<and> unat sh \<noteq> i \<and>
        others sh \<noteq> None \<and> owned_by hosts (unat sh) (the (others sh))"
      using rs owner_index_less [OF cluster_okD(1) [OF c]] by simp
  qed
  show ?map
  proof (cases "owner_index hosts k \<noteq> i \<and> k \<in> keys_of kvs")
    case True
    let ?sh = "shard_u32 (Hash_str k) (st_count s)"
    let ?rs = "filter (\<lambda>r. shard_u32 (Hash_str (ir_key r)) (st_count s) = ?sh) kvs"
    have rs: "others ?sh = Some ?rs"
      using True by (auto simp: some shard keys_of_def filter_empty_conv)
    have "batch_map kvs' k = batch_map (the (others ?sh)) k"
      unfolding kvs'_def
      by (rule batch_map_concat) (use rs in \<open>auto simp: shs the_others keys_of_def\<close>)
    also have "\<dots> = batch_map kvs k"
      using rs batch_map_filter_keys [of "\<lambda>k'. shard_u32 (Hash_str k') (st_count s) = ?sh" kvs k]
      by simp
    finally show ?thesis using True by simp
  next
    case False
    have "k \<notin> keys_of kvs'"
      using False by (auto simp: kvs'_def keys_of_def shs the_others some shard)
    then show ?thesis using False by (auto simp: batch_map_None [symmetric])
  qed
qed

lemma handle_batch_cluster:
  assumes L: "libs_ok L" and E: "env_ok E" and c: "cluster_ok L hosts w" and net: "net_ok w"
    and i: "i < length hosts"
  shows "\<exists>w'. handle_batch L E (hosts ! i) (Inr (js_write_insrts E kvs)) w = (w', Inr (ok_response '''')) \<and>
    cluster_ok L hosts w' \<and> net_ok w' \<and>
    sp_kv (cluster_abs L hosts w') = sp_kv (cluster_abs L hosts w) ++ batch_map kvs \<and>
    sp_zs (cluster_abs L hosts w') = (\<lambda>k. if k \<in> keys_of kvs \<and> owner_index hosts k \<noteq> i then None
      else sp_zs (cluster_abs L hosts w) k)"
proof -
  let ?s = "w_node w (hosts ! i)"
  define others where "others = (group_batch (st_count ?s) kvs)(st_me ?s := None)"
  define shs where "shs = lib_shards L (dom others)"
  define kvs' where "kvs' = concat (map (\<lambda>sh. the (others sh)) shs)"
  define my where "my = filter (\<lambda>r. owner_index hosts (ir_key r) = i) kvs"
  define w1 where "w1 = batch_remotes L (hosts ! i) others shs w"
  define s2 where "s2 = fst (batch_insert_kv L my (w_node w1 (hosts ! i)))"
  let ?w2 = "set_node (hosts ! i) s2 w1"
  note g = batch_groups [OF L c i, where kvs = kvs, folded others_def, folded shs_def,
      folded kvs'_def my_def]
  have w1: "cluster_ok L hosts w1" "net_ok w1"
    "sp_kv (cluster_abs L hosts w1) = sp_kv (cluster_abs L hosts w) ++ batch_map kvs'"
    "sp_zs (cluster_abs L hosts w1) =
       (\<lambda>k. if k \<in> keys_of kvs' then None else sp_zs (cluster_abs L hosts w) k)"
    using batch_remotes_cluster [OF L i c net g(2)] by (simp_all only: Let_def w1_def kvs'_def)
  have ok1: "storage_ok L (w_node w1 (hosts ! i))"
    using cluster_okD(5) [OF w1(1) i] by (simp add: node_ok_def)
  have own: "owned_by hosts i my" by (simp add: owned_by_def my_def)
  have w2: "cluster_ok L hosts ?w2"
      "sp_kv (cluster_abs L hosts ?w2) = sp_kv (cluster_abs L hosts w1) ++ batch_map my"
      "sp_zs (cluster_abs L hosts ?w2) =
        (\<lambda>k. if False \<and> k \<in> keys_of my then None else sp_zs (cluster_abs L hosts w1) k)"
    by (rule cluster_group [OF w1(1) i own, where drops = False and s' = s2];
        simp add: s2_def same_node_batch storage_ok_batch ok1 kv_of_batch [OF L] zs_of_batch
          batch_map_def)+
  have "handle_batch L E (hosts ! i) (Inr (js_write_insrts E kvs)) w = (?w2, Inr (ok_response ''''))"
    using g(1)
    by (simp add: handle_batch_def read_json_def env_okD [OF E] Let_def split_beta
        batch_insert_kv_eq(1) [of L my] others_def [symmetric] shs_def [symmetric]
        w1_def [symmetric] s2_def del: dom_fun_upd)
  moreover have "sp_kv (cluster_abs L hosts ?w2) = sp_kv (cluster_abs L hosts w) ++ batch_map kvs"
    by (rule ext) (simp add: w1 w2 map_add_def g(3) my_def
        batch_map_filter_keys [of "\<lambda>k. owner_index hosts k = i"] split: option.split)
  moreover have "k \<in> keys_of kvs' \<longleftrightarrow> k \<in> keys_of kvs \<and> owner_index hosts k \<noteq> i" for k
    using g(3) [of k] batch_map_None [of kvs' k] batch_map_None [of kvs k] by (auto split: if_splits)
  ultimately show ?thesis
    using w1(2,4) w2(1,3) by (intro exI [of _ ?w2]) (simp add: net_ok_def)
qed

section \<open>Lists\<close>

definition answer_of :: "(string \<Rightarrow> string option) \<Rightarrow> string list \<Rightarrow> insrt_request list" where
  "answer_of m = filter_map (\<lambda>k. map_option (\<lambda>v. \<lparr>ir_key = k, ir_value = v\<rparr>) (m k))"

lemma answer_of_append: "answer_of m (ks @ ks') = answer_of m ks @ answer_of m ks'"
  by (induction ks) (auto simp: answer_of_def split: option.split)

lemma answer_of_cong: "(\<And>k. k \<in> set ks \<Longrightarrow> m k = m' k) \<Longrightarrow> answer_of m ks = answer_of m' ks"
  by (induction ks) (auto simp: answer_of_def split: option.split)

lemma set_answer_of:
  "r \<in> set (answer_of m ks) \<longleftrightarrow> ir_key r \<in> set ks \<and> m (ir_key r) = Some (ir_value r)"
  by (cases r) (auto simp: answer_of_def set_filter_map)

lemma keys_answer_of: "map ir_key (answer_of m ks) = filter (\<lambda>k. m k \<noteq> None) ks"
  by (induction ks) (auto simp: answer_of_def split: option.split)

lemma answer_of_list_keys: "list_keys L s keys = answer_of (kv_of L s) (lib_iter L keys)"
  by (simp add: list_keys_def list_keys_in_memory_def answer_of_def kv_of_def)

lemma answer_of_rpc_list: "rpc_list L keys s = (s, Inr (answer_of (kv_of L s) keys))"
  by (simp add: rpc_list_def rpc_list_loop_eq answer_of_def)

lemma not_me:
  assumes "cluster_ok L hosts w" and "i < length hosts" and "unat sh \<noteq> i"
  shows "sh \<noteq> st_me (w_node w (hosts ! i))"
proof -
  have "st_me (w_node w (hosts ! i)) = word_of_nat i" and "i < 2 ^ 32"
    using cluster_okD(4,5) [OF assms(1)] assms(2) by (auto simp: node_ok_def)
  then have "unat (st_me (w_node w (hosts ! i))) = i"
    by (simp add: unsigned_of_nat take_bit_nat_eq_self_iff)
  with assms(3) show ?thesis by auto
qed

lemma list_remotes_cluster:
  assumes L: "libs_ok L" and i: "i < length hosts"
  shows "\<lbrakk>cluster_ok L hosts w; net_ok w;
      \<forall>sh \<in> set shs. unat sh < length hosts \<and> unat sh \<noteq> i \<and> plan sh \<noteq> None \<and>
        finite (the (plan sh)) \<and> (\<forall>k \<in> the (plan sh). owner_index hosts k = unat sh)\<rbrakk> \<Longrightarrow>
    \<exists>w'. list_remotes L (hosts ! i) plan shs w =
        (w', answer_of (sp_kv (cluster_abs L hosts w)) (concat (map (\<lambda>sh. lib_iter L (the (plan sh))) shs))) \<and>
      cluster_ok L hosts w' \<and> net_ok w' \<and> cluster_abs L hosts w' = cluster_abs L hosts w"
proof (induction shs arbitrary: w)
  case Nil
  then show ?case by (simp add: answer_of_def)
next
  case (Cons sh shs)
  from Cons.prems(3) obtain ks where plan: "plan sh = Some ks" and own: "\<And>k. k \<in> ks \<Longrightarrow> owner_index hosts k = unat sh"
    and fin: "finite ks" and sh: "unat sh < length hosts" "i \<noteq> unat sh"
    by auto
  have keys: "set (lib_iter L ks) = ks"
    using iteration_set [OF libs_okD(5) [OF L] fin] .
  have "answer_of (kv_of L (w_node w (hosts ! unat sh))) (lib_iter L ks) =
      answer_of (sp_kv (cluster_abs L hosts w)) (lib_iter L ks)"
    by (rule answer_of_cong) (use own keys in \<open>auto intro: owner_kv\<close>)
  with call_peer_read [OF Cons.prems(1,2) i sh, of "rpc_list L (lib_iter L ks)"] obtain w1 where
    call: "list_keys_remote L (hosts ! i) (lib_iter L ks) (unat sh) w =
      (w1, Inr (Inr (answer_of (sp_kv (cluster_abs L hosts w)) (lib_iter L ks))))"
    and w1: "cluster_ok L hosts w1" "net_ok w1" "cluster_abs L hosts w1 = cluster_abs L hosts w"
    by (auto simp: answer_of_rpc_list list_keys_remote_def)
  have "sh \<noteq> st_me (w_node w (hosts ! i))"
    using not_me [OF Cons.prems(1) i] sh(2) by metis
  moreover from Cons.IH [OF w1(1,2)] Cons.prems(3) obtain w2 where
    "list_remotes L (hosts ! i) plan shs w1 =
        (w2, answer_of (sp_kv (cluster_abs L hosts w)) (concat (map (\<lambda>sh. lib_iter L (the (plan sh))) shs)))"
    "cluster_ok L hosts w2" "net_ok w2" "cluster_abs L hosts w2 = cluster_abs L hosts w"
    using w1(3) by auto
  ultimately show ?case
    using plan call by (simp add: answer_of_append)
qed

text \<open>The keys of a list request, in the order in which the reply gives them.\<close>

lemma list_groups:
  fixes keys :: "string list"
  assumes L: "libs_ok L" and c: "cluster_ok L hosts w" and i: "i < length hosts"
  defines "s \<equiv> w_node w (hosts ! i)"
  defines "sharded \<equiv> group_keys (st_count s) keys"
  defines "others \<equiv> sharded(st_me s := None)"
  defines "shs \<equiv> lib_shards L (dom others)"
  defines "my \<equiv> (case sharded (st_me s) of None \<Rightarrow> {} | Some ks \<Rightarrow> ks)"
  defines "order \<equiv> lib_iter L my @ concat (map (\<lambda>sh. lib_iter L (the (others sh))) shs)"
  shows "my = {k \<in> set keys. owner_index hosts k = i}"
    and "\<forall>sh \<in> set shs. unat sh < length hosts \<and> unat sh \<noteq> i \<and> others sh \<noteq> None \<and>
        finite (the (others sh)) \<and> (\<forall>k \<in> the (others sh). owner_index hosts k = unat sh)"
    and "set order = set keys" and "distinct order"
proof -
  note shard = shard_node [OF c i, folded s_def]
  have at: "sharded sh = (let ks = {k \<in> set keys. shard_u32 (Hash_str k) (st_count s) = sh} in
      if ks = {} then None else Some ks)" for sh
    by (simp add: sharded_def group_keys_at)
  have my: "my = {k \<in> set keys. owner_index hosts k = i}"
    by (auto simp: my_def at shard Let_def)
  have some: "others sh = Some ks \<longleftrightarrow> sh \<noteq> st_me s \<and> ks \<noteq> {} \<and>
      ks = {k \<in> set keys. shard_u32 (Hash_str k) (st_count s) = sh}" for sh ks
    by (auto simp: others_def at Let_def)
  have the_others: "the (others sh) = {k \<in> set keys. shard_u32 (Hash_str k) (st_count s) = sh}"
    if "sh \<in> dom others" for sh
    using that some [of sh "the (others sh)"] by auto
  have "dom others \<subseteq> (\<lambda>k. shard_u32 (Hash_str k) (st_count s)) ` set keys"
    by (auto simp: some image_iff)
  then have "finite (dom others)" by (rule finite_subset) simp
  then have shs: "set shs = dom others" "distinct shs"
    using iteration_set [OF libs_okD(6) [OF L]] iteration_distinct [OF libs_okD(6) [OF L]]
    by (simp_all add: shs_def)
  have iter: "set (lib_iter L ks) = ks" "distinct (lib_iter L ks)" if "ks \<subseteq> set keys" for ks
    using iteration_set [OF libs_okD(5) [OF L]] iteration_distinct [OF libs_okD(5) [OF L]]
      finite_subset [OF that] by simp_all
  have group: "the (others sh) \<subseteq> set keys" if "sh \<in> set shs" for sh
    using that the_others by (auto simp: shs)
  show "my = {k \<in> set keys. owner_index hosts k = i}" by (rule my)
  show "\<forall>sh \<in> set shs. unat sh < length hosts \<and> unat sh \<noteq> i \<and> others sh \<noteq> None \<and>
      finite (the (others sh)) \<and> (\<forall>k \<in> the (others sh). owner_index hosts k = unat sh)"
  proof
    fix sh assume sh: "sh \<in> set shs"
    then obtain ks where ks: "others sh = Some ks" using shs by auto
    then obtain k where "k \<in> ks" by (auto simp: some)
    with ks have "sh = shard_u32 (Hash_str k) (st_count s)" and "sh \<noteq> st_me s"
      by (auto simp: some)
    then have "unat sh = owner_index hosts k" "unat sh \<noteq> i"
      using shard(1,2) by auto
    moreover have "\<forall>k \<in> ks. owner_index hosts k = unat sh"
      using ks shard(1) by (auto simp: some)
    ultimately show "unat sh < length hosts \<and> unat sh \<noteq> i \<and> others sh \<noteq> None \<and>
        finite (the (others sh)) \<and> (\<forall>k \<in> the (others sh). owner_index hosts k = unat sh)"
      using ks owner_index_less [OF cluster_okD(1) [OF c]] group [OF sh]
      by (auto dest: finite_subset)
  qed
  have covered: "k \<in> my \<or> (\<exists>sh \<in> set shs. k \<in> the (others sh))" if "k \<in> set keys" for k
  proof (cases "owner_index hosts k = i")
    case False
    with that have "others (shard_u32 (Hash_str k) (st_count s)) =
        Some {k' \<in> set keys. shard_u32 (Hash_str k') (st_count s) = shard_u32 (Hash_str k) (st_count s)}"
      by (auto simp: some shard(2))
    with that show ?thesis using shs by force
  qed (simp add: my that)
  have "my \<subseteq> set keys" using my by auto
  then show "set order = set keys"
    using covered group by (fastforce simp: order_def iter)
  have "the (others sh) \<inter> my = {}" if "sh \<in> set shs" for sh
    using that the_others [of sh] my shard(2) by (auto simp: shs some)
  moreover have "the (others sh) \<inter> the (others sh') = {}"
    if "sh \<in> set shs" "sh' \<in> set shs" "sh \<noteq> sh'" for sh sh'
    using that the_others by (auto simp: shs)
  moreover have "distinct (concat (map (\<lambda>sh. lib_iter L (the (others sh))) shs'))"
    if "set shs' \<subseteq> set shs" "distinct shs'" for shs'
    using that calculation(2) iter [OF group]
    by (induction shs') (auto, blast)
  ultimately show "distinct order"
    using iter [OF group] iter [OF \<open>my \<subseteq> set keys\<close>] shs(2) by (auto simp: order_def)
qed

lemma handle_list_cluster:
  assumes L: "libs_ok L" and E: "env_ok E" and c: "cluster_ok L hosts w" and net: "net_ok w"
    and i: "i < length hosts"
  shows "\<exists>w' rs. handle_list L E (hosts ! i) (Inr (js_write_keys E keys)) w =
      (w', Inr (if rs = [] then empty_response NOT_FOUND else ok_response (js_write_insrts E rs))) \<and>
    cluster_ok L hosts w' \<and> net_ok w' \<and> cluster_abs L hosts w' = cluster_abs L hosts w \<and>
    distinct (map ir_key rs) \<and>
    set rs = {r. ir_key r \<in> set keys \<and> sp_kv (cluster_abs L hosts w) (ir_key r) = Some (ir_value r)}"
proof -
  let ?s = "w_node w (hosts ! i)"
  define others where "others = (group_keys (st_count ?s) keys)(st_me ?s := None)"
  define shs where "shs = lib_shards L (dom others)"
  define my where "my = (case group_keys (st_count ?s) keys (st_me ?s) of None \<Rightarrow> {} | Some ks \<Rightarrow> ks)"
  define order where "order = lib_iter L my @ concat (map (\<lambda>sh. lib_iter L (the (others sh))) shs)"
  note g = list_groups [OF L c i, where keys = keys, folded others_def, folded shs_def my_def,
      folded order_def]
  from list_remotes_cluster [OF L i c net g(2)] obtain w1 where
    remote: "list_remotes L (hosts ! i) others shs w =
      (w1, answer_of (sp_kv (cluster_abs L hosts w)) (concat (map (\<lambda>sh. lib_iter L (the (others sh))) shs)))"
    and w1: "cluster_ok L hosts w1" "net_ok w1" "cluster_abs L hosts w1 = cluster_abs L hosts w"
    by blast
  have "set (lib_iter L my) = my"
    using iteration_set [OF libs_okD(5) [OF L], of my] g(1) by simp
  then have "answer_of (kv_of L (w_node w1 (hosts ! i))) (lib_iter L my) =
      answer_of (sp_kv (cluster_abs L hosts w)) (lib_iter L my)"
    by (intro answer_of_cong) (use g(1) w1(3) owner_kv(1) [of hosts _ i L w1] in auto)
  then have "list_keys L (w_node w1 (hosts ! i)) my @
      answer_of (sp_kv (cluster_abs L hosts w)) (concat (map (\<lambda>sh. lib_iter L (the (others sh))) shs)) =
      answer_of (sp_kv (cluster_abs L hosts w)) order"
    by (simp add: answer_of_list_keys order_def answer_of_append)
  then have "handle_list L E (hosts ! i) (Inr (js_write_keys E keys)) w =
      (w1, Inr (if answer_of (sp_kv (cluster_abs L hosts w)) order = [] then empty_response NOT_FOUND
        else ok_response (js_write_insrts E (answer_of (sp_kv (cluster_abs L hosts w)) order))))"
    using remote
    by (simp add: handle_list_def read_json_def env_okD [OF E] Let_def my_def [symmetric]
        others_def [symmetric] shs_def [symmetric] del: dom_fun_upd append_is_Nil_conv)
  moreover have "distinct (map ir_key (answer_of (sp_kv (cluster_abs L hosts w)) order))"
    using g(4) by (simp only: keys_answer_of distinct_filter)
  moreover have "set (answer_of (sp_kv (cluster_abs L hosts w)) order) =
      {r. ir_key r \<in> set keys \<and> sp_kv (cluster_abs L hosts w) (ir_key r) = Some (ir_value r)}"
    using set_answer_of g(3) by blast
  ultimately show ?thesis using w1 by blast
qed

section \<open>Range queries\<close>

text \<open>
  The answer of the owner. A range whose lower end is the greater one makes the owner panic: the
  request fails where the owner is asked directly, and is answered with 500 elsewhere.
\<close>

lemma handle_zrange_cluster:
  assumes L: "libs_ok L" and E: "env_ok E" and c: "cluster_ok L hosts w" and net: "net_ok w"
    and i: "i < length hosts"
  shows "\<exists>w' r'. handle_zrange L E (hosts ! i) k (Inr (js_write_score_range E r)) w = (w', r') \<and>
    cluster_ok L hosts w' \<and> net_ok w' \<and> cluster_abs L hosts w' = cluster_abs L hosts w \<and>
    (case sp_zs (cluster_abs L hosts w) k of
       None \<Rightarrow> r' = Inr (empty_response NOT_FOUND)
     | Some m \<Rightarrow>
         (if max_score r < min_score r
          then r' = (if owner_index hosts k = i then Inl Range_Start_After_End
                     else Inr (empty_response INTERNAL_SERVER_ERROR))
          else \<exists>svs. r' = Inr (ok_response (js_write_score_values E svs)) \<and>
            set svs = range_answer m r \<and> distinct svs \<and> sorted (map sv_score svs)))"
proof -
  let ?j = "owner_index hosts k"
  let ?s = "w_node w (hosts ! ?j)"
  have j: "?j < length hosts" using cluster_okD(1) [OF c] by (rule owner_index_less)
  have ok: "storage_ok L ?s" using cluster_okD(5) [OF c j] by (simp add: node_ok_def)
  have abs: "sp_zs (cluster_abs L hosts w) k = zs_of L ?s k"
    by (simp add: cluster_abs_def owner_def)
  have range: "case zs_of L ?s k of
       None \<Rightarrow> zrange L ?s k r = Inr None
     | Some m \<Rightarrow> (if max_score r < min_score r then zrange L ?s k r = Inl Range_Start_After_End
        else \<exists>svs. zrange L ?s k r = Inr (Some svs) \<and>
          set svs = range_answer m r \<and> distinct svs \<and> sorted (map sv_score svs))"
    using zrange_None zrange_Some [OF L ok] by (auto split: option.split)
  show ?thesis
  proof (cases "?j = i")
    case True
    then show ?thesis
      using c net range local_shard_me [OF c i, of k]
      by (auto simp: handle_zrange_def read_json_def env_okD [OF E] Let_def reply_option_def abs
          split: option.splits if_splits)
  next
    case False
    then have "i \<noteq> ?j" by simp
    from call_peer_read [OF c net i j this, of "rpc_zrange L k r"] obtain w' where
      call: "call_peer (hosts ! i) ?j (rpc_zrange L k r) w = (w', Inr
        (case zrange L ?s k r of Inl _ \<Rightarrow> Inl () | Inr x \<Rightarrow> Inr x))"
      and w': "cluster_ok L hosts w'" "net_ok w'" "cluster_abs L hosts w' = cluster_abs L hosts w"
      by (auto simp: rpc_zrange_def)
    have "handle_zrange L E (hosts ! i) k (Inr (js_write_score_range E r)) w =
        reply_option (js_write_score_values E) (call_peer (hosts ! i) ?j (rpc_zrange L k r) w)"
      using False by (simp add: handle_zrange_def read_json_def env_okD [OF E] Let_def
          local_shard_me [OF c i] unat_local_shard [OF c i] zrange_remote_def)
    with call w' range False show ?thesis
      by (auto simp: reply_option_def abs split: option.splits if_splits)
  qed
qed

end
