(* ===== verification/Client.thy ===== *)
theory Client
  imports Cluster_Bulk
begin

text \<open>
  The client library of \<open>client.rs\<close>: one function per request, written as scripts that change
  the world the server lives in and end with a value or a panic. The locale \<open>client_service\<close>
  states what the functions do to a store a client can only reach through requests; it is
  interpreted on a cluster of the modelled server reached at one node, so the client and the
  server agree on paths, methods, bodies and status codes.
\<close>

section \<open>Scripts\<close>

type_synonym ('w, 'a) script = "'w \<Rightarrow> 'w \<times> 'a result"

definition and_then :: "('w, 'a) script \<Rightarrow> ('a \<Rightarrow> ('w, 'b) script) \<Rightarrow> ('w, 'b) script" where
  "and_then m f w = (case m w of (w1, Inl e) \<Rightarrow> (w1, Inl e) | (w1, Inr a) \<Rightarrow> f a w1)"

definition finish :: "'a result \<Rightarrow> ('w, 'a) script" where
  "finish r w = (w, r)"

text \<open>\<open>.await.unwrap()\<close> on a \<open>Result\<close> and on an \<open>Option\<close>, and \<open>.await.unwrap_err()\<close>.\<close>

definition must :: "('w, 'a unit_result) script \<Rightarrow> ('w, 'a) script" where
  "must m = and_then m (\<lambda>r. finish (unwrap r))"

definition must_some :: "('w, 'a option) script \<Rightarrow> ('w, 'a) script" where
  "must_some m = and_then m (\<lambda>r. finish (case r of None \<Rightarrow> Inl Unwrap_Failed | Some x \<Rightarrow> Inr x))"

definition must_fail :: "('w, 'a unit_result) script \<Rightarrow> ('w, unit) script" where
  "must_fail m = and_then m (\<lambda>r. finish (case r of Inl e \<Rightarrow> Inr e | Inr _ \<Rightarrow> Inl Unwrap_Failed))"

text \<open>A \<open>for\<close> loop.\<close>

fun each :: "('a \<Rightarrow> ('w, unit) script) \<Rightarrow> 'a list \<Rightarrow> ('w, unit) script" where
  "each f [] = finish (Inr ())"
| "each f (x # xs) = and_then (f x) (\<lambda>_. each f xs)"

text \<open>A script ends with a value, and the value and the world satisfy \<open>Q\<close>.\<close>

definition runs :: "('w, 'a) script \<Rightarrow> 'w \<Rightarrow> ('a \<Rightarrow> 'w \<Rightarrow> bool) \<Rightarrow> bool" where
  "runs m w Q \<longleftrightarrow> (case m w of (w1, Inl _) \<Rightarrow> False | (w1, Inr a) \<Rightarrow> Q a w1)"

named_theorems runs_simps \<open>what a script does, in terms of its parts\<close>

lemma runs_and_then [runs_simps]: "runs (and_then m f) w Q \<longleftrightarrow> runs m w (\<lambda>a w1. runs (f a) w1 Q)"
  by (auto simp: runs_def and_then_def split: prod.splits sum.splits)

lemma runs_finish [runs_simps]: "runs (finish r) w Q \<longleftrightarrow> (case r of Inl _ \<Rightarrow> False | Inr a \<Rightarrow> Q a w)"
  by (simp add: runs_def finish_def split: sum.split)

lemma runs_each [runs_simps]:
  "runs (each f []) w Q \<longleftrightarrow> Q () w"
  "runs (each f (x # xs)) w Q \<longleftrightarrow> runs (f x) w (\<lambda>_ w1. runs (each f xs) w1 Q)"
  by (simp_all add: runs_simps)

lemma runs_must [runs_simps]:
  "runs (must m) w Q \<longleftrightarrow> runs m w (\<lambda>r w1. case r of Inl _ \<Rightarrow> False | Inr a \<Rightarrow> Q a w1)"
  "runs (must_some r) w' P \<longleftrightarrow> runs r w' (\<lambda>x w1. case x of None \<Rightarrow> False | Some a \<Rightarrow> P a w1)"
  "runs (must_fail m) w R \<longleftrightarrow> runs m w (\<lambda>r w1. case r of Inl e \<Rightarrow> R e w1 | Inr _ \<Rightarrow> False)"
  by (auto simp: must_def must_some_def must_fail_def unwrap_def runs_def and_then_def finish_def
      split: prod.splits sum.splits option.splits)

lemma runs_mono: "\<lbrakk>runs m w P; \<And>a w1. P a w1 \<Longrightarrow> Q a w1\<rbrakk> \<Longrightarrow> runs m w Q"
  by (auto simp: runs_def split: prod.splits sum.splits)

lemma runs_iff: "runs m w Q \<longleftrightarrow> (\<exists>a w1. m w = (w1, Inr a) \<and> Q a w1)"
  by (auto simp: runs_def split: prod.splits sum.splits)

text \<open>A loop whose body takes one stage of an invariant to the next.\<close>

lemma runs_each_inv:
  assumes "I [] w" and "\<And>front x rest w. \<lbrakk>xs = front @ x # rest; I front w\<rbrakk> \<Longrightarrow> runs (f x) w (\<lambda>_ w1. I (front @ [x]) w1)"
  shows "runs (each f xs) w (\<lambda>_ w1. I xs w1)"
proof -
  have "runs (each f rest) w (\<lambda>_ w1. I xs w1)" if "xs = front @ rest" "I front w" for front rest w
    using that
  proof (induction rest arbitrary: front w)
    case (Cons x rest)
    then show ?case
      using assms(2) [of "front" x rest w] Cons.IH [of "front @ [x]"] by (auto simp: runs_simps elim: runs_mono)
  qed (simp add: runs_simps)
  from this [of "[]" xs w] assms(1) show ?thesis by simp
qed

text \<open>A loop that only checks.\<close>

lemma runs_each_check:
  "\<lbrakk>\<And>x. x \<in> set xs \<Longrightarrow> runs (f x) w (\<lambda>_ w1. w1 = w); Q () w\<rbrakk> \<Longrightarrow> runs (each f xs) w Q"
proof (induction xs)
  case (Cons x xs)
  have "runs (f x) w (\<lambda>_ w1. w1 = w)" using Cons.prems(1) by simp
  then have "runs (f x) w (\<lambda>_ w1. runs (each f xs) w1 Q)"
    by (rule runs_mono) (use Cons in auto)
  then show ?case by (simp add: runs_simps)
qed (simp add: runs_simps)

section \<open>The client\<close>

text \<open>
  The address of the server, what the URI parser makes of an address (the path that reaches the
  server), and an exchange with the server: the response with its whole body, or no response.
\<close>

record 'w client =
  cl_host :: string
  cl_uri :: "string \<Rightarrow> string option"
  cl_send :: "http_request \<Rightarrow> 'w \<Rightarrow> 'w \<times> http_response option"

definition client_request ::
    "'w client \<Rightarrow> http_method \<Rightarrow> string \<Rightarrow> string \<Rightarrow> ('w, http_response) script" where
  "client_request C meth url body w =
     (case cl_uri C url of
        None \<Rightarrow> (w, Inl Unwrap_Failed)
      | Some path \<Rightarrow>
          (case cl_send C \<lparr>rq_method = meth, rq_path = path, rq_body = Inr body\<rparr> w of
             (w1, None) \<Rightarrow> (w1, Inl Unwrap_Failed)
           | (w1, Some resp) \<Rightarrow> (w1, Inr resp)))"

definition status_result :: "http_response \<Rightarrow> unit unit_result" where
  "status_result resp = (if rs_status resp = 200 then Inr () else Inl ())"

definition client_query :: "'w client \<Rightarrow> string \<Rightarrow> ('w, string option) script" where
  "client_query C key =
     and_then (client_request C Method_GET (cl_host C @ ''/query/'' @ key) '''') (\<lambda>resp.
       finish (Inr (if rs_status resp = 200 then Some (rs_body resp) else None)))"

definition client_del :: "'w client \<Rightarrow> string \<Rightarrow> ('w, unit unit_result) script" where
  "client_del C key =
     and_then (client_request C Method_GET (cl_host C @ ''/del/'' @ key) '''') (\<lambda>resp.
       finish (Inr (status_result resp)))"

definition client_add :: "'w client \<Rightarrow> env \<Rightarrow> string \<Rightarrow> string \<Rightarrow> ('w, unit unit_result) script" where
  "client_add C E key val =
     and_then (client_request C Method_POST (cl_host C @ ''/add'')
       (js_write_insrt E \<lparr>ir_key = key, ir_value = val\<rparr>)) (\<lambda>resp.
       finish (Inr (status_result resp)))"

definition client_batch :: "'w client \<Rightarrow> env \<Rightarrow> insrt_request list \<Rightarrow> ('w, unit unit_result) script" where
  "client_batch C E kvs =
     and_then (client_request C Method_POST (cl_host C @ ''/batch'') (js_write_insrts E kvs)) (\<lambda>resp.
       finish (Inr (status_result resp)))"

definition client_list ::
    "'w client \<Rightarrow> env \<Rightarrow> string list \<Rightarrow> ('w, insrt_request list unit_result) script" where
  "client_list C E keys =
     and_then (client_request C Method_POST (cl_host C @ ''/list'') (js_write_keys E keys)) (\<lambda>resp.
       finish (Inr (if rs_status resp = 200
                    then (case js_read_insrts E (rs_body resp) of None \<Rightarrow> Inl () | Some res \<Rightarrow> Inr res)
                    else Inl ())))"

definition client_zadd ::
    "'w client \<Rightarrow> env \<Rightarrow> string \<Rightarrow> u32 \<Rightarrow> string \<Rightarrow> ('w, unit unit_result) script" where
  "client_zadd C E key score val =
     and_then (client_request C Method_POST (cl_host C @ ''/zadd/'' @ key)
       (js_write_score_value E (Score_Value score val))) (\<lambda>resp.
       finish (Inr (status_result resp)))"

definition client_zrange ::
    "'w client \<Rightarrow> env \<Rightarrow> string \<Rightarrow> u32 \<Rightarrow> u32 \<Rightarrow> ('w, score_value list unit_result) script" where
  "client_zrange C E key lo hi =
     and_then (client_request C Method_POST (cl_host C @ ''/zrange/'' @ key)
       (js_write_score_range E \<lparr>min_score = lo, max_score = hi\<rparr>)) (\<lambda>resp.
       finish (if rs_status resp = 200
               then (case js_read_score_values E (rs_body resp) of None \<Rightarrow> Inl Unwrap_Failed | Some res \<Rightarrow> Inr (Inr res))
               else Inr (Inl ())))"

definition client_zrmv :: "'w client \<Rightarrow> string \<Rightarrow> string \<Rightarrow> ('w, unit unit_result) script" where
  "client_zrmv C key val =
     and_then (client_request C Method_GET (cl_host C @ ''/zrmv/'' @ key @ ''/'' @ val) '''') (\<lambda>resp.
       finish (Inr (status_result resp)))"

text \<open>\<open>expect\<close>: a panic unless the values are equal.\<close>

definition client_expect :: "'a \<Rightarrow> 'a \<Rightarrow> ('w, unit) script" where
  "client_expect actual expected = finish (if actual \<noteq> expected then Inl Explicit_Panic else Inr ())"

lemma runs_expect [runs_simps]: "runs (client_expect x y) w Q \<longleftrightarrow> x = y \<and> Q () w"
  by (auto simp: client_expect_def runs_simps)

section \<open>Decimal numbers\<close>

text \<open>\<open>format!("{}", n)\<close>.\<close>

fun format_dec :: "nat \<Rightarrow> string" where
  "format_dec n =
     (if n < 10 then [''0123456789'' ! n] else format_dec (n div 10) @ [''0123456789'' ! (n mod 10)])"

declare format_dec.simps [simp del]

lemma digit_inject: "\<lbrakk>a < 10; b < 10\<rbrakk> \<Longrightarrow> ''0123456789'' ! a = ''0123456789'' ! b \<longleftrightarrow> a = b"
  by (simp add: nth_eq_iff_index_eq)

lemma format_dec_nonempty: "format_dec n \<noteq> []" "[] \<noteq> format_dec n"
  by (subst format_dec.simps, simp)+

lemma format_dec_last:
  "format_dec n = (if n < 10 then [] else format_dec (n div 10)) @ [''0123456789'' ! (n mod 10)]"
  by (subst format_dec.simps) simp

lemma format_dec_eq: "format_dec m = format_dec n \<Longrightarrow> m = n"
proof (induction m arbitrary: n rule: less_induct)
  case (less m)
  from less.prems have front: "(if m < 10 then [] else format_dec (m div 10)) = (if n < 10 then [] else format_dec (n div 10))"
    and last: "m mod 10 = n mod 10"
    unfolding format_dec_last [of m] format_dec_last [of n] by (simp_all add: digit_inject)
  show ?case
  proof (cases "m < 10")
    case True
    with front last show ?thesis by (auto simp: format_dec_nonempty split: if_splits)
  next
    case False
    with front have "m div 10 = n div 10"
      by (intro less.IH) (auto simp: format_dec_nonempty split: if_splits)
    with last show ?thesis by (metis mod_mult_div_eq)
  qed
qed

lemma format_dec_inject: "format_dec m = format_dec n \<longleftrightarrow> m = n"
  using format_dec_eq by blast

lemma format_dec_length: "0 < d \<Longrightarrow> n < 10 ^ d \<Longrightarrow> length (format_dec n) \<le> d"
proof (induction d arbitrary: n)
  case (Suc d)
  show ?case
  proof (cases "n < 10")
    case True
    then show ?thesis by (subst format_dec.simps) simp
  next
    case False
    with Suc.prems have "0 < d" by (cases d) simp_all
    moreover have "n div 10 < 10 ^ d" using Suc.prems by (simp add: less_mult_imp_div_less mult.commute)
    ultimately show ?thesis using Suc.IH False by (subst format_dec.simps) simp
  qed
qed simp

section \<open>Addresses\<close>

text \<open>
  What a URI parser does for the client: an address whose path has only letters, digits and
  slashes, and is not too long, is a URI with this path. Nothing is assumed of other addresses.
\<close>

definition plain_char :: "char \<Rightarrow> bool" where
  "plain_char c \<longleftrightarrow> c \<in> set (''abcdefghijklmnopqrstuvwxyz'' @ ''ABCDEFGHIJKLMNOPQRSTUVWXYZ'' @ ''0123456789'')"

definition plain_key :: "string \<Rightarrow> bool" where
  "plain_key k \<longleftrightarrow> list_all plain_char k \<and> length k \<le> 1000"

definition uri_laws :: "'w client \<Rightarrow> bool" where
  "uri_laws C \<longleftrightarrow>
     (\<forall>path. list_all (\<lambda>c. plain_char c \<or> c = CHR ''/'') path \<and> length path \<le> 4000 \<longrightarrow>
        cl_uri C (cl_host C @ CHR ''/'' # path) = Some (CHR ''/'' # path))"

lemma list_all_plain_digit: "n < 10 \<Longrightarrow> plain_char (''0123456789'' ! n)"
proof -
  assume "n < 10"
  then have "''0123456789'' ! n \<in> set ''0123456789''" by (intro nth_mem) simp
  then show ?thesis unfolding plain_char_def set_append by blast
qed

lemma list_all_plain_format: "list_all plain_char (format_dec n)"
  by (induction n rule: format_dec.induct) (subst format_dec.simps; simp add: list_all_plain_digit)

lemma plain_char_slash: "\<not> plain_char CHR ''/''"
  by (simp add: plain_char_def)

lemma plain_no_slash: "plain_key k \<Longrightarrow> CHR ''/'' \<notin> set k"
  using plain_char_slash by (auto simp: plain_key_def list_all_iff)

lemma plain_path: "plain_key k \<Longrightarrow> list_all (\<lambda>c. plain_char c \<or> c = CHR ''/'') k"
  by (auto simp: plain_key_def list_all_iff)

lemma uri_path:
  assumes "uri_laws C"
  shows "plain_key k \<Longrightarrow> cl_uri C (cl_host C @ ''/query/'' @ k) = Some (''/query/'' @ k)"
    and "plain_key k \<Longrightarrow> cl_uri C (cl_host C @ ''/del/'' @ k) = Some (''/del/'' @ k)"
    and "plain_key k \<Longrightarrow> cl_uri C (cl_host C @ ''/zadd/'' @ k) = Some (''/zadd/'' @ k)"
    and "plain_key k \<Longrightarrow> cl_uri C (cl_host C @ ''/zrange/'' @ k) = Some (''/zrange/'' @ k)"
    and "\<lbrakk>plain_key k; plain_key v\<rbrakk> \<Longrightarrow>
      cl_uri C (cl_host C @ ''/zrmv/'' @ k @ ''/'' @ v) = Some (''/zrmv/'' @ k @ ''/'' @ v)"
    and "cl_uri C (cl_host C @ ''/add'') = Some ''/add''"
    and "cl_uri C (cl_host C @ ''/batch'') = Some ''/batch''"
    and "cl_uri C (cl_host C @ ''/list'') = Some ''/list''"
proof -
  note law = assms [unfolded uri_laws_def, rule_format]
  have len: "plain_key k \<Longrightarrow> length k \<le> 1000" for k by (simp add: plain_key_def)
  show "plain_key k \<Longrightarrow> cl_uri C (cl_host C @ ''/query/'' @ k) = Some (''/query/'' @ k)"
    and "plain_key k \<Longrightarrow> cl_uri C (cl_host C @ ''/del/'' @ k) = Some (''/del/'' @ k)"
    and "plain_key k \<Longrightarrow> cl_uri C (cl_host C @ ''/zadd/'' @ k) = Some (''/zadd/'' @ k)"
    and "plain_key k \<Longrightarrow> cl_uri C (cl_host C @ ''/zrange/'' @ k) = Some (''/zrange/'' @ k)"
    using law [of "''query/'' @ k"] law [of "''del/'' @ k"] law [of "''zadd/'' @ k"] law [of "''zrange/'' @ k"]
      plain_path [of k] len [of k] by (simp_all add: plain_char_def)
  show "\<lbrakk>plain_key k; plain_key v\<rbrakk> \<Longrightarrow>
      cl_uri C (cl_host C @ ''/zrmv/'' @ k @ ''/'' @ v) = Some (''/zrmv/'' @ k @ ''/'' @ v)"
    using law [of "''zrmv/'' @ k @ ''/'' @ v"] plain_path [of k] plain_path [of v] len [of k] len [of v]
    by (simp add: plain_char_def)
  show "cl_uri C (cl_host C @ ''/add'') = Some ''/add''"
    and "cl_uri C (cl_host C @ ''/batch'') = Some ''/batch''"
    and "cl_uri C (cl_host C @ ''/list'') = Some ''/list''"
    using law [of "''add''"] law [of "''batch''"] law [of "''list''"] by (simp_all add: plain_char_def)
qed

section \<open>What the client sees of a store\<close>

locale client_service =
  fixes C :: "'w client" and E :: env and good :: "'w \<Rightarrow> bool" and abs :: "'w \<Rightarrow> spec"
  assumes query: "\<lbrakk>good w; plain_key k\<rbrakk> \<Longrightarrow>
      runs (client_query C k) w (\<lambda>r w1. good w1 \<and> abs w1 = abs w \<and> r = sp_kv (abs w) k)"
    and del: "\<lbrakk>good w; plain_key k\<rbrakk> \<Longrightarrow>
      runs (client_del C k) w (\<lambda>r w1. r = Inr () \<and> good w1 \<and> abs w1 = spec_step (Del k) (abs w))"
    and add: "good w \<Longrightarrow>
      runs (client_add C E k v) w (\<lambda>r w1. r = Inr () \<and> good w1 \<and> abs w1 = spec_step (Add k v) (abs w))"
    and batch: "good w \<Longrightarrow>
      runs (client_batch C E kvs) w (\<lambda>r w1. r = Inr () \<and> good w1 \<and>
        sp_kv (abs w1) = sp_kv (abs w) ++ batch_map kvs \<and>
        (\<forall>k. k \<notin> keys_of kvs \<longrightarrow> sp_zs (abs w1) k = sp_zs (abs w) k))"
    and list: "good w \<Longrightarrow>
      runs (client_list C E keys) w (\<lambda>r w1. good w1 \<and> abs w1 = abs w \<and>
        (case r of
           Inl _ \<Rightarrow> \<forall>k \<in> set keys. sp_kv (abs w) k = None
         | Inr rs \<Rightarrow> rs \<noteq> [] \<and> distinct (map ir_key rs) \<and>
             set rs = {r. ir_key r \<in> set keys \<and> sp_kv (abs w) (ir_key r) = Some (ir_value r)}))"
    and zadd: "\<lbrakk>good w; plain_key k\<rbrakk> \<Longrightarrow>
      runs (client_zadd C E k s v) w
        (\<lambda>r w1. r = Inr () \<and> good w1 \<and> abs w1 = spec_step (Zadd k (Score_Value s v)) (abs w))"
    and zrange: "\<lbrakk>good w; plain_key k; lo \<le> hi\<rbrakk> \<Longrightarrow>
      runs (client_zrange C E k lo hi) w (\<lambda>r w1. good w1 \<and> abs w1 = abs w \<and>
        (case (sp_zs (abs w) k, r) of
           (None, Inl _) \<Rightarrow> True
         | (Some m, Inr svs) \<Rightarrow> distinct svs \<and> sorted (map sv_score svs) \<and>
             set svs = range_answer m \<lparr>min_score = lo, max_score = hi\<rparr>
         | _ \<Rightarrow> False))"
    and zrmv: "\<lbrakk>good w; plain_key k; plain_key v\<rbrakk> \<Longrightarrow>
      runs (client_zrmv C k v) w (\<lambda>r w1. r = Inr () \<and> good w1 \<and> abs w1 = spec_step (Zrmv k v) (abs w))"
begin

end

section \<open>The cluster as a service\<close>

text \<open>
  A client whose exchanges are the requests handled by node \<open>h\<close>. A handler that panics or
  fails leaves the client without a response.
\<close>

definition serve ::
    "('kv, 'vs, 'zm, 'db) libs \<Rightarrow> env \<Rightarrow> string \<Rightarrow> http_request \<Rightarrow>
     ('kv, 'vs, 'zm, 'db) storage world \<Rightarrow> ('kv, 'vs, 'zm, 'db) storage world \<times> http_response option" where
  "serve L E h rq w =
     (case hyper_handler L E h rq w of
        (w1, Inl _) \<Rightarrow> (w1, None)
      | (w1, Inr resp) \<Rightarrow> (w1, Some resp))"

definition client_of ::
    "('kv, 'vs, 'zm, 'db) libs \<Rightarrow> env \<Rightarrow> string \<Rightarrow> string \<Rightarrow> (string \<Rightarrow> string option) \<Rightarrow>
     ('kv, 'vs, 'zm, 'db) storage world client" where
  "client_of L E h address uri = \<lparr>cl_host = address, cl_uri = uri, cl_send = serve L E h\<rparr>"

lemma client_of_simps [simp]:
  "cl_host (client_of L E h address uri) = address"
  "cl_send (client_of L E h address uri) = serve L E h"
  by (simp_all add: client_of_def)

lemma client_request_serve:
  assumes "cl_uri (client_of L E h address uri) url = Some path"
  shows "runs (client_request (client_of L E h address uri) meth url body) w Q \<longleftrightarrow>
    runs (hyper_handler L E h \<lparr>rq_method = meth, rq_path = path, rq_body = Inr body\<rparr>) w Q"
  using assms by (simp add: runs_def client_request_def serve_def split: prod.split sum.split)

lemma runs_value: "m w = (w1, Inr a) \<Longrightarrow> runs m w Q \<longleftrightarrow> Q a w1"
  by (simp add: runs_def)

definition cluster_serves ::
    "('kv, 'vs, 'zm, 'db) libs \<Rightarrow> env \<Rightarrow> string list \<Rightarrow> nat \<Rightarrow> string \<Rightarrow> (string \<Rightarrow> string option) \<Rightarrow>
     ('kv, 'vs, 'zm, 'db) storage world \<Rightarrow> bool" where
  "cluster_serves L E hosts i address uri w \<longleftrightarrow> libs_ok L \<and> env_ok E \<and> i < length hosts \<and>
     uri_laws (client_of L E (hosts ! i) address uri) \<and> cluster_ok L hosts w \<and> net_ok w"

lemma route_handlers:
  "hyper_handler L E h \<lparr>rq_method = Method_GET, rq_path = ''/query/'' @ k, rq_body = b\<rparr> = handle_query L h (upto_slash k)"
  "hyper_handler L E h \<lparr>rq_method = Method_GET, rq_path = ''/del/'' @ k, rq_body = b\<rparr> = handle_del L h (upto_slash k)"
  "CHR ''/'' \<notin> set k \<Longrightarrow>
     hyper_handler L E h \<lparr>rq_method = Method_GET, rq_path = ''/zrmv/'' @ k @ ''/'' @ v, rq_body = b\<rparr> = handle_zrmv L h k v"
  "hyper_handler L E h \<lparr>rq_method = Method_POST, rq_path = ''/zadd/'' @ k, rq_body = b\<rparr> = handle_zadd L E h k b"
  "hyper_handler L E h \<lparr>rq_method = Method_POST, rq_path = ''/zrange/'' @ k, rq_body = b\<rparr> = handle_zrange L E h k b"
  "hyper_handler L E h \<lparr>rq_method = Method_POST, rq_path = ''/add'', rq_body = b\<rparr> = handle_add L E h b"
  "hyper_handler L E h \<lparr>rq_method = Method_POST, rq_path = ''/batch'', rq_body = b\<rparr> = handle_batch L E h b"
  "hyper_handler L E h \<lparr>rq_method = Method_POST, rq_path = ''/list'', rq_body = b\<rparr> = handle_list L E h b"
  by (simp_all add: hyper_handler_def route_get_query route_get_del route_get_zrmv route_post_zadd
      route_post_zrange route_post_plain del: append_Cons append.simps)

text \<open>A command the server answers with 200.\<close>

lemma cluster_serves_cmd:
  assumes "cluster_serves L E hosts i address uri w"
    and "\<And>w. hyper_handler L E (hosts ! i) \<lparr>rq_method = meth, rq_path = path, rq_body = Inr body\<rparr> w =
      send_cmd L E (hosts ! i) c w"
    and "cl_uri (client_of L E (hosts ! i) address uri) url = Some path"
  shows "runs (and_then (client_request (client_of L E (hosts ! i) address uri) meth url body)
      (\<lambda>resp. finish (Inr (status_result resp)))) w
    (\<lambda>r w1. r = Inr () \<and> cluster_serves L E hosts i address uri w1 \<and>
      cluster_abs L hosts w1 = spec_step c (cluster_abs L hosts w))"
proof -
  from assms(1) have "libs_ok L" "env_ok E" "cluster_ok L hosts w" "net_ok w" "i < length hosts"
    by (simp_all add: cluster_serves_def)
  from send_cmd_abs [OF this, of c] obtain w1 where "send_cmd L E (hosts ! i) c w = (w1, Inr (ok_response ''''))"
    "cluster_ok L hosts w1" "net_ok w1" "cluster_abs L hosts w1 = spec_step c (cluster_abs L hosts w)"
    by blast
  with assms(1) show ?thesis
    by (simp add: runs_simps client_request_serve [OF assms(3)] runs_value assms(2) status_result_def
        ok_response_def cluster_serves_def)
qed

lemma send_cmd_sum:
  "send_cmd L E h (Add k v) w = handle_add L E h (Inr (js_write_insrt E \<lparr>ir_key = k, ir_value = v\<rparr>)) w"
  "send_cmd L E h (Del k) w = handle_del L h k w"
  "send_cmd L E h (Zadd k sv) w = handle_zadd L E h k (Inr (js_write_score_value E sv)) w"
  "send_cmd L E h (Zrmv k v) w = handle_zrmv L h k v w"
  by (simp_all add: send_cmd_def)

text \<open>A request that only reads, or a batch, answered as the lemma on its handler says.\<close>

lemma cluster_serves_query:
  assumes "cluster_serves L E hosts i address uri w" and "plain_key k"
  shows "runs (client_query (client_of L E (hosts ! i) address uri) k) w
    (\<lambda>r w1. cluster_serves L E hosts i address uri w1 \<and> cluster_abs L hosts w1 = cluster_abs L hosts w \<and>
      r = sp_kv (cluster_abs L hosts w) k)"
proof -
  let ?C = "client_of L E (hosts ! i) address uri"
  from assms(1) have "cluster_ok L hosts w" "net_ok w" "i < length hosts" and uri: "uri_laws ?C"
    by (simp_all add: cluster_serves_def)
  from handle_query_cluster [OF this(1-3), of k] obtain w1 where
    "handle_query L (hosts ! i) k w = (w1, Inr (query_response (sp_kv (cluster_abs L hosts w) k)))"
    "cluster_ok L hosts w1" "net_ok w1" "cluster_abs L hosts w1 = cluster_abs L hosts w"
    by blast
  with assms show ?thesis
    using client_request_serve [OF uri_path(1) [OF uri, unfolded client_of_simps, OF assms(2)]]
    by (simp add: client_query_def runs_simps route_handlers runs_value plain_no_slash query_response_def
        ok_response_def empty_response_def cluster_serves_def split: option.split del: append_Cons append.simps)
qed

lemma cluster_serves_list:
  assumes "cluster_serves L E hosts i address uri w"
  shows "runs (client_list (client_of L E (hosts ! i) address uri) E keys) w
    (\<lambda>r w1. cluster_serves L E hosts i address uri w1 \<and> cluster_abs L hosts w1 = cluster_abs L hosts w \<and>
      (case r of
         Inl _ \<Rightarrow> \<forall>k \<in> set keys. sp_kv (cluster_abs L hosts w) k = None
       | Inr rs \<Rightarrow> rs \<noteq> [] \<and> distinct (map ir_key rs) \<and>
           set rs = {r. ir_key r \<in> set keys \<and> sp_kv (cluster_abs L hosts w) (ir_key r) = Some (ir_value r)}))"
proof -
  let ?C = "client_of L E (hosts ! i) address uri"
  from assms have ok: "libs_ok L" "env_ok E" "cluster_ok L hosts w" "net_ok w" "i < length hosts"
    and uri: "uri_laws ?C" by (simp_all add: cluster_serves_def)
  from handle_list_cluster [OF ok, of keys] obtain w1 rs where
    list: "handle_list L E (hosts ! i) (Inr (js_write_keys E keys)) w =
      (w1, Inr (if rs = [] then empty_response NOT_FOUND else ok_response (js_write_insrts E rs)))"
    "cluster_ok L hosts w1" "net_ok w1" "cluster_abs L hosts w1 = cluster_abs L hosts w"
    "distinct (map ir_key rs)"
    and set_rs: "set rs = {r. ir_key r \<in> set keys \<and> sp_kv (cluster_abs L hosts w) (ir_key r) = Some (ir_value r)}"
    by blast
  have "sp_kv (cluster_abs L hosts w) k = None" if "rs = []" "k \<in> set keys" for k
  proof (rule ccontr)
    assume "sp_kv (cluster_abs L hosts w) k \<noteq> None"
    then obtain v where "sp_kv (cluster_abs L hosts w) k = Some v" by blast
    with that(2) have "\<lparr>ir_key = k, ir_value = v\<rparr> \<in> set rs" unfolding set_rs by simp
    with that(1) show False by simp
  qed
  with list set_rs assms show ?thesis
    using client_request_serve [OF uri_path(8) [OF uri, unfolded client_of_simps]]
    by (simp add: client_list_def runs_simps route_handlers runs_value env_okD [OF ok(2)]
        ok_response_def empty_response_def cluster_serves_def del: append_Cons append.simps)
qed

lemma cluster_serves_zrange:
  assumes "cluster_serves L E hosts i address uri w" and "plain_key k" and "lo \<le> hi"
  shows "runs (client_zrange (client_of L E (hosts ! i) address uri) E k lo hi) w
    (\<lambda>r w1. cluster_serves L E hosts i address uri w1 \<and> cluster_abs L hosts w1 = cluster_abs L hosts w \<and>
      (case (sp_zs (cluster_abs L hosts w) k, r) of
         (None, Inl _) \<Rightarrow> True
       | (Some m, Inr svs) \<Rightarrow> distinct svs \<and> sorted (map sv_score svs) \<and>
           set svs = range_answer m \<lparr>min_score = lo, max_score = hi\<rparr>
       | _ \<Rightarrow> False))"
proof -
  let ?C = "client_of L E (hosts ! i) address uri"
  let ?r = "\<lparr>min_score = lo, max_score = hi\<rparr>"
  from assms(1) have ok: "libs_ok L" "env_ok E" "cluster_ok L hosts w" "net_ok w" "i < length hosts"
    and uri: "uri_laws ?C" by (simp_all add: cluster_serves_def)
  have "(max_score ?r < min_score ?r) = False" using assms(3) by simp
  note range = handle_zrange_cluster [OF ok, of k ?r, unfolded this if_False]
  from range obtain w1 r' where
    zr: "handle_zrange L E (hosts ! i) k (Inr (js_write_score_range E ?r)) w = (w1, r')"
    "cluster_ok L hosts w1" "net_ok w1" "cluster_abs L hosts w1 = cluster_abs L hosts w"
    and r': "case sp_zs (cluster_abs L hosts w) k of
       None \<Rightarrow> r' = Inr (empty_response NOT_FOUND)
     | Some m \<Rightarrow> \<exists>svs. r' = Inr (ok_response (js_write_score_values E svs)) \<and>
            set svs = range_answer m ?r \<and> distinct svs \<and> sorted (map sv_score svs)"
    by blast
  show ?thesis
    using zr r' assms client_request_serve [OF uri_path(4) [OF uri, unfolded client_of_simps, OF assms(2)]]
    by (cases "sp_zs (cluster_abs L hosts w) k")
      (auto simp: client_zrange_def runs_simps route_handlers runs_value env_okD [OF ok(2)]
        ok_response_def empty_response_def cluster_serves_def simp del: append_Cons append.simps)
qed

lemma cluster_serves_batch:
  assumes "cluster_serves L E hosts i address uri w"
  shows "runs (client_batch (client_of L E (hosts ! i) address uri) E kvs) w
    (\<lambda>r w1. r = Inr () \<and> cluster_serves L E hosts i address uri w1 \<and>
      sp_kv (cluster_abs L hosts w1) = sp_kv (cluster_abs L hosts w) ++ batch_map kvs \<and>
      (\<forall>k. k \<notin> keys_of kvs \<longrightarrow> sp_zs (cluster_abs L hosts w1) k = sp_zs (cluster_abs L hosts w) k))"
proof -
  let ?C = "client_of L E (hosts ! i) address uri"
  from assms have ok: "libs_ok L" "env_ok E" "cluster_ok L hosts w" "net_ok w" "i < length hosts"
    and uri: "uri_laws ?C" by (simp_all add: cluster_serves_def)
  from handle_batch_cluster [OF ok, of kvs] obtain w1 where
    "handle_batch L E (hosts ! i) (Inr (js_write_insrts E kvs)) w = (w1, Inr (ok_response ''''))"
    "cluster_ok L hosts w1" "net_ok w1"
    "sp_kv (cluster_abs L hosts w1) = sp_kv (cluster_abs L hosts w) ++ batch_map kvs"
    "sp_zs (cluster_abs L hosts w1) = (\<lambda>k. if k \<in> keys_of kvs \<and> owner_index hosts k \<noteq> i then None
      else sp_zs (cluster_abs L hosts w) k)"
    by blast
  with assms show ?thesis
    using client_request_serve [OF uri_path(7) [OF uri, unfolded client_of_simps]]
    by (simp add: client_batch_def runs_simps route_handlers runs_value status_result_def
        ok_response_def cluster_serves_def del: append_Cons append.simps)
qed

interpretation cluster_client: client_service "client_of L E (hosts ! i) address uri" E
    "cluster_serves L E hosts i address uri" "cluster_abs L hosts"
  for L :: "('kv, 'vs, 'zm, 'db) libs" and E :: env and hosts :: "string list" and i :: nat
    and address :: string and uri :: "string \<Rightarrow> string option"
proof unfold_locales
  fix w :: "('kv, 'vs, 'zm, 'db) storage world" and k v :: string and s lo hi :: u32
    and kvs :: "insrt_request list" and keys :: "string list"
  let ?C = "client_of L E (hosts ! i) address uri"
  assume good: "cluster_serves L E hosts i address uri w"
  then have uri: "uri_laws ?C" by (simp add: cluster_serves_def)
  note paths = uri_path [OF uri, unfolded client_of_simps]
  note cmd = cluster_serves_cmd [OF good]
  note handlers = route_handlers send_cmd_sum
  show "runs (client_add ?C E k v) w (\<lambda>r w1. r = Inr () \<and> cluster_serves L E hosts i address uri w1 \<and>
      cluster_abs L hosts w1 = spec_step (Add k v) (cluster_abs L hosts w))"
    unfolding client_add_def client_of_simps by (rule cmd [OF _ paths(6)]) (simp only: handlers)
  show "plain_key k \<Longrightarrow> runs (client_del ?C k) w (\<lambda>r w1. r = Inr () \<and> cluster_serves L E hosts i address uri w1 \<and>
      cluster_abs L hosts w1 = spec_step (Del k) (cluster_abs L hosts w))"
    unfolding client_del_def client_of_simps
    by (rule cmd [OF _ paths(2)]) (simp_all only: handlers upto_slash_id [OF plain_no_slash])
  show "plain_key k \<Longrightarrow> runs (client_zadd ?C E k s v) w (\<lambda>r w1. r = Inr () \<and>
      cluster_serves L E hosts i address uri w1 \<and>
      cluster_abs L hosts w1 = spec_step (Zadd k (Score_Value s v)) (cluster_abs L hosts w))"
    unfolding client_zadd_def client_of_simps by (rule cmd [OF _ paths(3)]) (simp_all only: handlers)
  show "\<lbrakk>plain_key k; plain_key v\<rbrakk> \<Longrightarrow> runs (client_zrmv ?C k v) w (\<lambda>r w1. r = Inr () \<and>
      cluster_serves L E hosts i address uri w1 \<and>
      cluster_abs L hosts w1 = spec_step (Zrmv k v) (cluster_abs L hosts w))"
    unfolding client_zrmv_def client_of_simps
    by (rule cmd [OF _ paths(5)]) (simp_all only: route_handlers(3) [OF plain_no_slash] send_cmd_sum)
qed (rule cluster_serves_query cluster_serves_list cluster_serves_zrange cluster_serves_batch; assumption)+

end
