(* ===== verification/Acceptance.thy ===== *)
theory Acceptance
  imports Client "HOL-Library.Multiset"
begin

text \<open>
  The acceptance test of \<open>client.rs\<close>: the part of its \<open>main\<close> before the benchmarks, in the order
  of the source. It passes against every service that behaves like the abstract store
  (\<open>client_service\<close>), so at every node of the modelled cluster.
\<close>

section \<open>The script\<close>

definition key_name :: "nat \<Rightarrow> string" where "key_name i = ''key'' @ format_dec i"

definition value_name :: "nat \<Rightarrow> string" where "value_name i = ''value'' @ format_dec i"

text \<open>\<open>&s[n..]\<close>.\<close>

definition slice_from :: "nat \<Rightarrow> string \<Rightarrow> string result" where
  "slice_from n s = (if n \<le> length s then Inr (drop n s) else Inl Index_Out_Of_Bounds)"

definition hello_test :: "'w client \<Rightarrow> env \<Rightarrow> ('w, unit) script" where
  "hello_test C E =
     and_then (must (client_add C E ''hello'' ''world'')) (\<lambda>_.
     and_then (must_some (client_query C ''hello'')) (\<lambda>val.
     and_then (client_expect val ''world'') (\<lambda>_.
     and_then (must (client_del C ''hello'')) (\<lambda>_.
     and_then (client_query C ''hello'') (\<lambda>r.
       finish (case r of Some _ \<Rightarrow> Inl Explicit_Panic | None \<Rightarrow> Inr ()))))))"

definition test_pairs :: "insrt_request list" where
  "test_pairs = map (\<lambda>i. \<lparr>ir_key = key_name i, ir_value = value_name i\<rparr>) [0..<100]"

definition check_pair :: "insrt_request \<Rightarrow> ('w, unit) script" where
  "check_pair v =
     and_then (finish (slice_from 3 (ir_key v))) (\<lambda>tail. client_expect (ir_value v) (''value'' @ tail))"

definition batch_test :: "'w client \<Rightarrow> env \<Rightarrow> ('w, unit) script" where
  "batch_test C E =
     and_then (must (client_batch C E test_pairs)) (\<lambda>_.
     and_then (must (client_list C E (map key_name [0..<100]))) (\<lambda>vals.
     and_then (client_expect (length vals) 100) (\<lambda>_.
       each check_pair vals)))"

definition list_test :: "'w client \<Rightarrow> env \<Rightarrow> ('w, unit) script" where
  "list_test C E =
     and_then (must (client_list C E (map key_name [0..<200]))) (\<lambda>vals.
     and_then (client_expect (length vals) 100) (\<lambda>_.
     and_then (must_fail (client_list C E (map key_name [100..<200]))) (\<lambda>_.
     and_then (must (client_list C E (map (\<lambda>_. key_name 0) [0..<100]))) (\<lambda>vals.
       client_expect (length vals) 1))))"

text \<open>The loop that adds the hundred members, with the score of member \<open>i\<close> as a parameter.\<close>

definition zadd_all :: "'w client \<Rightarrow> env \<Rightarrow> (nat \<Rightarrow> u32) \<Rightarrow> ('w, unit) script" where
  "zadd_all C E score =
     each (\<lambda>sv. must (client_zadd C E ''zset'' (sv_score sv) (sv_value sv)))
       (map (\<lambda>i. Score_Value (score i) (format_dec i)) [0..<100])"

definition zadd_test :: "'w client \<Rightarrow> env \<Rightarrow> ('w, unit) script" where
  "zadd_test C E =
     and_then (zadd_all C E (\<lambda>i. word_of_nat (i div 2))) (\<lambda>_.
     and_then (must (client_zrange C E ''zset'' 0 49)) (\<lambda>svs.
     and_then (client_expect (length svs) 100) (\<lambda>_.
       each (\<lambda>(i, sv). client_expect (sv_score sv) (word_of_nat (i div 2))) (enumerate 0 svs))))"

definition rezadd_test :: "'w client \<Rightarrow> env \<Rightarrow> ('w, unit) script" where
  "rezadd_test C E =
     and_then (zadd_all C E (\<lambda>i. word_of_nat (i * 2))) (\<lambda>_.
     and_then (must (client_zrange C E ''zset'' 0 198)) (\<lambda>svs.
     and_then (client_expect (length svs) 100) (\<lambda>_.
       each (\<lambda>(i, sv). and_then (client_expect (sv_score sv) (word_of_nat (i * 2))) (\<lambda>_.
         client_expect (sv_value sv) (format_dec i))) (enumerate 0 svs))))"

definition zrmv_test :: "'w client \<Rightarrow> env \<Rightarrow> ('w, unit) script" where
  "zrmv_test C E =
     and_then (must (client_zrmv C ''zset'' ''0'')) (\<lambda>_.
     and_then (must (client_zrange C E ''zset'' 0 0)) (\<lambda>svs.
     and_then (finish (if length svs \<noteq> 0 then Inl Explicit_Panic else Inr ())) (\<lambda>_.
     and_then (each (\<lambda>i. must (client_zrmv C ''zset'' (format_dec i))) [1..<100]) (\<lambda>_.
     and_then (must (client_zrange C E ''zset'' 0 0)) (\<lambda>svs.
     and_then (client_expect (length svs) 0) (\<lambda>_.
     and_then (must (client_del C ''zset'')) (\<lambda>_.
       must_fail (client_zrange C E ''zset'' 0 0))))))))"

definition acceptance_test :: "'w client \<Rightarrow> env \<Rightarrow> ('w, unit) script" where
  "acceptance_test C E =
     and_then (hello_test C E) (\<lambda>_.
     and_then (batch_test C E) (\<lambda>_.
     and_then (list_test C E) (\<lambda>_.
     and_then (zadd_test C E) (\<lambda>_.
     and_then (rezadd_test C E) (\<lambda>_.
       zrmv_test C E)))))"

section \<open>Names\<close>

lemma key_name_inject [simp]: "key_name i = key_name j \<longleftrightarrow> i = j"
  by (simp add: key_name_def format_dec_inject)

lemma plain_literals: "plain_key ''hello''" "plain_key ''zset''" "plain_key ''0''"
  by (simp_all add: plain_key_def plain_char_def)

lemma plain_format: "n < 10 ^ 20 \<Longrightarrow> plain_key (format_dec n)"
  using format_dec_length [of 20 n] by (simp add: plain_key_def list_all_plain_format)

lemma key_name_other: "key_name i \<noteq> ''hello''" "key_name i \<noteq> ''zset''" "''zset'' \<noteq> key_name i" "''hello'' \<noteq> key_name i"
  by (simp_all add: key_name_def)

lemma slice_key_name: "slice_from 3 (key_name i) = Inr (format_dec i)"
  by (simp add: slice_from_def key_name_def)

lemma test_pairs_map:
  "batch_map test_pairs k = Some v \<longleftrightarrow> (\<exists>i < 100. k = key_name i \<and> v = value_name i)"
proof -
  have "distinct (map fst (map kv_pair test_pairs))"
    by (simp add: test_pairs_def comp_def distinct_map inj_on_def)
  then have "distinct (map fst (rev (map kv_pair test_pairs)))"
    by (metis distinct_rev rev_map)
  then have "map_of (rev (map kv_pair test_pairs)) k = Some v \<longleftrightarrow> (k, v) \<in> set (map kv_pair test_pairs)"
    by (metis map_of_eq_Some_iff set_rev)
  then show ?thesis by (auto simp: batch_map_def test_pairs_def)
qed

lemma test_pairs_at [simp]: "i < 100 \<Longrightarrow> batch_map test_pairs (key_name i) = Some (value_name i)"
  by (simp add: test_pairs_map)

lemma runs_check_pair:
  assumes "\<forall>r \<in> set rs. ir_key r \<in> key_name ` {0..<100} \<and> (f ++ batch_map test_pairs) (ir_key r) = Some (ir_value r)"
    and "x \<in> set rs"
  shows "runs (check_pair x) w (\<lambda>_ w1. w1 = w)"
proof -
  from assms obtain i where "i < 100" "ir_key x = key_name i" by auto
  with assms show ?thesis by (auto simp: check_pair_def runs_simps slice_key_name value_name_def)
qed

lemma keys_of_test_pairs: "keys_of test_pairs = key_name ` {0..<100}"
  by (auto simp: keys_of_def test_pairs_def image_iff)

section \<open>Answers\<close>

text \<open>The number of pairs in a list answer, and the order of a range answer.\<close>

lemma answer_length:
  fixes rs :: "insrt_request list"
  assumes "distinct (map ir_key rs)"
    and "set rs = {r. ir_key r \<in> set keys \<and> f (ir_key r) = Some (ir_value r)}"
  shows "length rs = card {k \<in> set keys. f k \<noteq> None}"
proof -
  have "\<lparr>ir_key = k, ir_value = v\<rparr> \<in> set rs" if "k \<in> set keys" "f k = Some v" for k v
    using that assms(2) by simp
  then have "k \<in> ir_key ` set rs" if "k \<in> set keys" "f k \<noteq> None" for k
    using that by (metis image_eqI insrt_request.select_convs(1) option.exhaust)
  moreover have "ir_key ` set rs \<subseteq> {k \<in> set keys. f k \<noteq> None}" unfolding assms(2) by auto
  ultimately have "ir_key ` set rs = {k \<in> set keys. f k \<noteq> None}" by blast
  with distinct_card [OF assms(1)] show ?thesis by simp
qed

definition members :: "(nat \<Rightarrow> u32) \<Rightarrow> nat list \<Rightarrow> string \<Rightarrow> u32 option" where
  "members f js = map_of (map (\<lambda>i. (format_dec i, f i)) js)"

lemma members_Cons: "members f [] = Map.empty" "members f (i # js) = (members f js)(format_dec i \<mapsto> f i)"
  by (simp_all add: members_def)

lemma members_Some: "members f js v = Some s \<longleftrightarrow> (\<exists>i \<in> set js. v = format_dec i \<and> s = f i)"
proof (induction js)
  case (Cons i js)
  then show ?case by (cases "v = format_dec i") (auto simp: members_Cons format_dec_inject)
qed (simp add: members_Cons)

lemma members_None: "members f js v = None \<longleftrightarrow> v \<notin> format_dec ` set js"
  by (simp add: members_def map_of_eq_None_iff image_image)

lemma sorted_scores:
  assumes "\<And>i j. i \<le> j \<Longrightarrow> f i \<le> f j" and "\<And>i. i < n \<Longrightarrow> f i < 2 ^ 32"
  shows "sorted (map (\<lambda>i. word_of_nat (f i) :: u32) [0..<n])"
proof -
  have "unat (word_of_nat (f i) :: u32) = f i" if "i < n" for i
    using assms(2) [OF that] by (simp add: unsigned_of_nat take_bit_nat_eq_self)
  then show ?thesis using assms(1) by (simp add: sorted_iff_nth_mono word_le_nat_alt)
qed

text \<open>The answer to a range query that covers all of \<open>n\<close> members with ascending scores.\<close>

lemma range_answer_scores:
  assumes "set svs = range_answer (members f [0..<n]) r" and "distinct svs" and "sorted (map sv_score svs)"
    and "\<And>i. i < n \<Longrightarrow> in_range r (f i)" and "sorted (map f [0..<n])"
  shows "map sv_score svs = map f [0..<n]" and "length svs = n"
proof -
  let ?g = "\<lambda>i. Score_Value (f i) (format_dec i)"
  have set_svs: "set svs = set (map ?g [0..<n])"
  proof (rule set_eqI)
    fix sv
    show "sv \<in> set svs \<longleftrightarrow> sv \<in> set (map ?g [0..<n])"
      unfolding assms(1) using assms(4)
      by (cases sv) (auto simp: range_answer_def members_Some)
  qed
  have "distinct (map ?g [0..<n])" by (simp add: distinct_map inj_on_def format_dec_inject)
  with set_svs assms(2) have "mset svs = mset (map ?g [0..<n])"
    by (metis set_eq_iff_mset_eq_distinct)
  then have "mset (map sv_score svs) = mset (map sv_score (map ?g [0..<n]))" by (metis mset_map)
  then have "mset (map sv_score svs) = mset (map f [0..<n])" by (simp add: comp_def)
  with assms(3,5) show scores: "map sv_score svs = map f [0..<n]"
    by (metis properties_for_sort)
  then show "length svs = n" by (metis length_map length_upt minus_nat.diff_0)
qed

lemma enumerate_scores:
  assumes "map sv_score svs = map f [0..<n]" and "(i, sv) \<in> set (enumerate 0 svs)"
  shows "sv_score sv = f i" and "i < n" and "sv = svs ! i"
proof -
  have len: "length svs = n" using assms by (metis length_map length_upt minus_nat.diff_0)
  from assms(2) show "i < n" and "sv = svs ! i" by (auto simp: in_set_enumerate_eq len)
  moreover have "map sv_score svs ! i = map f [0..<n] ! i" by (simp only: assms(1))
  ultimately show "sv_score sv = f i" using len by simp
qed

lemma range_answer_values:
  assumes "set svs = range_answer (members f [0..<n]) r" and "map sv_score svs = map f [0..<n]"
    and "inj_on f {0..<n}" and "i < n"
  shows "sv_value (svs ! i) = format_dec i"
proof -
  have len: "length svs = n" using assms(2) by (metis length_map length_upt minus_nat.diff_0)
  with assms(4) have "svs ! i \<in> set svs" by simp
  then have "members f [0..<n] (sv_value (svs ! i)) = Some (sv_score (svs ! i))"
    using assms(1) by (simp add: range_answer_def)
  then obtain j where j: "j < n" "sv_value (svs ! i) = format_dec j" "sv_score (svs ! i) = f j"
    by (auto simp: members_Some)
  have "sv_score (svs ! i) = f i"
    using assms(2,4) len by (metis add_0 length_map nth_map nth_upt)
  with j(1,3) assms(3,4) have "i = j" by (simp add: inj_on_eq_iff)
  with j(2) show ?thesis by simp
qed

text \<open>Adding and removing the members, on the abstract store.\<close>

definition zadds :: "string \<Rightarrow> (nat \<Rightarrow> u32) \<Rightarrow> nat list \<Rightarrow> spec \<Rightarrow> spec" where
  "zadds k f js = fold (\<lambda>i. spec_step (Zadd k (Score_Value (f i) (format_dec i)))) js"

lemma zadds_append: "zadds k f (js @ [i]) a = spec_step (Zadd k (Score_Value (f i) (format_dec i))) (zadds k f js a)"
  by (simp add: zadds_def del: spec_step.simps)

lemma zadds_zset:
  assumes "js \<noteq> []"
  shows "sp_kv (zadds k f js a) = sp_kv a"
    and "sp_zs (zadds k f js a) = (sp_zs a)(k \<mapsto> (case sp_zs a k of None \<Rightarrow> Map.empty | Some m \<Rightarrow> m) ++ members f js)"
  using assms
proof (induction js rule: rev_nonempty_induct)
  case (single i)
  {
    case 1
    show ?case by (simp add: zadds_def)
  next
    case 2
    show ?case by (simp add: zadds_def zs_put_def members_Cons map_add_def fun_eq_iff)
  }
next
  case (snoc i js)
  {
    case 1
    show ?case using snoc.IH by (simp add: zadds_append)
  next
    case 2
    have "members f (js @ [i]) = (members f js)(format_dec i \<mapsto> f i)"
    proof
      fix v
      have "members f (js @ [i]) v = Some s \<longleftrightarrow> ((members f js)(format_dec i \<mapsto> f i)) v = Some s" for s
        by (auto simp: members_Some format_dec_inject)
      then show "members f (js @ [i]) v = ((members f js)(format_dec i \<mapsto> f i)) v"
        by (metis not_None_eq)
    qed
    then show ?case using snoc.IH by (auto simp: zadds_append zs_put_def fun_eq_iff map_add_def)
  }
qed

definition zrmvs :: "string \<Rightarrow> nat list \<Rightarrow> spec \<Rightarrow> spec" where
  "zrmvs k js = fold (\<lambda>i. spec_step (Zrmv k (format_dec i))) js"

lemma zrmvs_append: "zrmvs k (js @ [i]) a = spec_step (Zrmv k (format_dec i)) (zrmvs k js a)"
  by (simp add: zrmvs_def del: spec_step.simps)

lemma zrmvs_zset:
  "sp_kv (zrmvs k js a) = sp_kv a"
  "sp_zs (zrmvs k js a) = (sp_zs a)(k := map_option (\<lambda>m. m |` (- (format_dec ` set js))) (sp_zs a k))"
proof (induction js rule: rev_induct)
  case Nil
  {
    case 1
    show ?case by (simp add: zrmvs_def)
  next
    case 2
    show ?case by (cases "sp_zs a k") (simp_all add: zrmvs_def fun_eq_iff restrict_map_def)
  }
next
  case (snoc i js)
  {
    case 1
    show ?case using snoc.IH by (simp add: zrmvs_append)
  next
    case 2
    show ?case
      using snoc.IH by (cases "sp_zs a k") (auto simp: zrmvs_append zs_del_def fun_eq_iff restrict_map_def)
  }
qed

section \<open>The test passes\<close>

text \<open>What the test needs of the store it starts on: it never wrote the second hundred keys.\<close>

definition test_ready :: "spec \<Rightarrow> bool" where
  "test_ready a \<longleftrightarrow> (\<forall>i. 100 \<le> i \<and> i < 200 \<longrightarrow> sp_kv a (key_name i) = None) \<and> sp_zs a ''zset'' = None"

definition hits :: "(string \<Rightarrow> string option) \<Rightarrow> string list \<Rightarrow> nat" where
  "hits f keys = card {k \<in> set keys. f k \<noteq> None}"

lemma hits_names:
  assumes "\<And>i. i < n \<Longrightarrow> f (key_name i) \<noteq> None" "\<And>i. n \<le> i \<Longrightarrow> i < k \<Longrightarrow> f (key_name i) = None" "n \<le> k"
  shows "hits f (map key_name [0..<k]) = n"
proof -
  have "{x \<in> set (map key_name [0..<k]). f x \<noteq> None} = key_name ` {0..<n}"
  proof (rule set_eqI)
    fix x
    show "x \<in> {x \<in> set (map key_name [0..<k]). f x \<noteq> None} \<longleftrightarrow> x \<in> key_name ` {0..<n}"
      using assms by (auto simp: not_le) (metis atLeastLessThan_iff imageI le0 not_le option.distinct(1))
  qed
  moreover have "card (key_name ` {0..<n}) = n" by (simp add: card_image inj_on_def)
  ultimately show ?thesis by (simp add: hits_def)
qed

lemma hits_same: "\<lbrakk>f x \<noteq> None; 0 < n\<rbrakk> \<Longrightarrow> hits f (map (\<lambda>_. x) [0..<n]) = 1"
proof -
  assume "f x \<noteq> None" "0 < n"
  then have "{k \<in> set (map (\<lambda>_. x) [0..<n]). f k \<noteq> None} = {x}" by auto
  then show ?thesis by (simp add: hits_def)
qed

lemma each_map: "each f (map g xs) = each (\<lambda>x. f (g x)) xs"
  by (induction xs) simp_all

context client_service
begin

text \<open>The contract as rules that step through a script.\<close>

lemma vc_query: "\<lbrakk>good w; plain_key k; \<And>w1. \<lbrakk>good w1; abs w1 = abs w\<rbrakk> \<Longrightarrow> Q (sp_kv (abs w) k) w1\<rbrakk> \<Longrightarrow>
    runs (client_query C k) w Q"
  by (rule runs_mono [OF query]) auto

lemma vc_del: "\<lbrakk>good w; plain_key k; \<And>w1. \<lbrakk>good w1; abs w1 = spec_step (Del k) (abs w)\<rbrakk> \<Longrightarrow> Q (Inr ()) w1\<rbrakk> \<Longrightarrow>
    runs (client_del C k) w Q"
  by (rule runs_mono [OF del]) auto

lemma vc_add: "\<lbrakk>good w; \<And>w1. \<lbrakk>good w1; abs w1 = spec_step (Add k v) (abs w)\<rbrakk> \<Longrightarrow> Q (Inr ()) w1\<rbrakk> \<Longrightarrow>
    runs (client_add C E k v) w Q"
  by (rule runs_mono [OF add]) auto

lemma vc_batch: "\<lbrakk>good w; \<And>w1. \<lbrakk>good w1; sp_kv (abs w1) = sp_kv (abs w) ++ batch_map kvs;
      \<And>k. k \<notin> keys_of kvs \<Longrightarrow> sp_zs (abs w1) k = sp_zs (abs w) k\<rbrakk> \<Longrightarrow> Q (Inr ()) w1\<rbrakk> \<Longrightarrow>
    runs (client_batch C E kvs) w Q"
  by (rule runs_mono [OF batch]) auto

lemma vc_zadd: "\<lbrakk>good w; plain_key k;
      \<And>w1. \<lbrakk>good w1; abs w1 = spec_step (Zadd k (Score_Value s v)) (abs w)\<rbrakk> \<Longrightarrow> Q (Inr ()) w1\<rbrakk> \<Longrightarrow>
    runs (client_zadd C E k s v) w Q"
  by (rule runs_mono [OF zadd]) auto

lemma vc_zrmv: "\<lbrakk>good w; plain_key k; plain_key v;
      \<And>w1. \<lbrakk>good w1; abs w1 = spec_step (Zrmv k v) (abs w)\<rbrakk> \<Longrightarrow> Q (Inr ()) w1\<rbrakk> \<Longrightarrow>
    runs (client_zrmv C k v) w Q"
  by (rule runs_mono [OF zrmv]) auto

lemma vc_zrange: "\<lbrakk>good w; plain_key k; lo \<le> hi; sp_zs (abs w) k = Some m;
      \<And>svs w1. \<lbrakk>good w1; abs w1 = abs w; distinct svs; sorted (map sv_score svs);
        set svs = range_answer m \<lparr>min_score = lo, max_score = hi\<rparr>\<rbrakk> \<Longrightarrow> Q (Inr svs) w1\<rbrakk> \<Longrightarrow>
    runs (client_zrange C E k lo hi) w Q"
  by (rule runs_mono [OF zrange]) (auto split: sum.splits)

lemma vc_zrange_none: "\<lbrakk>good w; plain_key k; lo \<le> hi; sp_zs (abs w) k = None;
      \<And>w1. \<lbrakk>good w1; abs w1 = abs w\<rbrakk> \<Longrightarrow> Q (Inl ()) w1\<rbrakk> \<Longrightarrow>
    runs (client_zrange C E k lo hi) w Q"
  by (rule runs_mono [OF zrange]) (auto split: sum.splits)

lemma vc_list: "\<lbrakk>good w; k \<in> set keys; sp_kv (abs w) k \<noteq> None;
      \<And>rs w1. \<lbrakk>good w1; abs w1 = abs w; length rs = hits (sp_kv (abs w)) keys;
        \<forall>r \<in> set rs. ir_key r \<in> set keys \<and> sp_kv (abs w) (ir_key r) = Some (ir_value r)\<rbrakk> \<Longrightarrow> Q (Inr rs) w1\<rbrakk> \<Longrightarrow>
    runs (client_list C E keys) w Q"
proof (rule runs_mono [OF list], assumption)
  fix r :: "insrt_request list unit_result" and w1
  assume present: "k \<in> set keys" "sp_kv (abs w) k \<noteq> None"
    and Q: "\<And>rs w1. \<lbrakk>good w1; abs w1 = abs w; length rs = hits (sp_kv (abs w)) keys;
        \<forall>r \<in> set rs. ir_key r \<in> set keys \<and> sp_kv (abs w) (ir_key r) = Some (ir_value r)\<rbrakk> \<Longrightarrow> Q (Inr rs) w1"
    and answer: "good w1 \<and> abs w1 = abs w \<and>
      (case r of
         Inl _ \<Rightarrow> \<forall>k \<in> set keys. sp_kv (abs w) k = None
       | Inr rs \<Rightarrow> rs \<noteq> [] \<and> distinct (map ir_key rs) \<and>
           set rs = {r. ir_key r \<in> set keys \<and> sp_kv (abs w) (ir_key r) = Some (ir_value r)})"
  show "Q r w1"
  proof (cases r)
    case (Inl e)
    with answer present show ?thesis by auto
  next
    case (Inr rs)
    with answer have rs: "distinct (map ir_key rs)"
      "set rs = {r. ir_key r \<in> set keys \<and> sp_kv (abs w) (ir_key r) = Some (ir_value r)}" by auto
    from answer_length [OF rs] have "length rs = hits (sp_kv (abs w)) keys" unfolding hits_def .
    with answer rs Q [of w1 rs] show ?thesis by (simp add: Inr)
  qed
qed

lemma vc_list_none: "\<lbrakk>good w; \<And>k. k \<in> set keys \<Longrightarrow> sp_kv (abs w) k = None;
      \<And>w1. \<lbrakk>good w1; abs w1 = abs w\<rbrakk> \<Longrightarrow> Q (Inl ()) w1\<rbrakk> \<Longrightarrow>
    runs (client_list C E keys) w Q"
proof (rule runs_mono [OF list], assumption)
  fix r :: "insrt_request list unit_result" and w1
  assume absent: "\<And>k. k \<in> set keys \<Longrightarrow> sp_kv (abs w) k = None"
    and Q: "\<And>w1. \<lbrakk>good w1; abs w1 = abs w\<rbrakk> \<Longrightarrow> Q (Inl ()) w1"
    and answer: "good w1 \<and> abs w1 = abs w \<and>
      (case r of
         Inl _ \<Rightarrow> \<forall>k \<in> set keys. sp_kv (abs w) k = None
       | Inr rs \<Rightarrow> rs \<noteq> [] \<and> distinct (map ir_key rs) \<and>
           set rs = {r. ir_key r \<in> set keys \<and> sp_kv (abs w) (ir_key r) = Some (ir_value r)})"
  have "r = Inl ()"
  proof (cases r)
    case (Inr rs)
    with answer have "rs \<noteq> []"
      and rs: "set rs = {r. ir_key r \<in> set keys \<and> sp_kv (abs w) (ir_key r) = Some (ir_value r)}" by simp_all
    from hd_in_set [OF this(1)] have "ir_key (hd rs) \<in> set keys" "sp_kv (abs w) (ir_key (hd rs)) = Some (ir_value (hd rs))"
      unfolding rs by simp_all
    with absent [of "ir_key (hd rs)"] show ?thesis by simp
  qed simp
  with Q [of w1] answer show "Q r w1" by simp
qed

lemma vc_must_list: "\<lbrakk>good w; k \<in> set keys; sp_kv (abs w) k \<noteq> None;
      \<And>rs w1. \<lbrakk>good w1; abs w1 = abs w; length rs = hits (sp_kv (abs w)) keys;
        \<forall>r \<in> set rs. ir_key r \<in> set keys \<and> sp_kv (abs w) (ir_key r) = Some (ir_value r)\<rbrakk> \<Longrightarrow> Q rs w1\<rbrakk> \<Longrightarrow>
    runs (must (client_list C E keys)) w Q"
  unfolding runs_must by (rule vc_list) simp_all

lemma vc_no_list: "\<lbrakk>good w; \<And>k. k \<in> set keys \<Longrightarrow> sp_kv (abs w) k = None;
      \<And>w1. \<lbrakk>good w1; abs w1 = abs w\<rbrakk> \<Longrightarrow> Q () w1\<rbrakk> \<Longrightarrow>
    runs (must_fail (client_list C E keys)) w Q"
  unfolding runs_must by (rule vc_list_none) simp_all

lemma hello_runs:
  "good w \<Longrightarrow> runs (hello_test C E) w (\<lambda>_ w1. good w1 \<and> abs w1 = spec_step (Del ''hello'') (abs w))"
  unfolding hello_test_def
  by (auto simp: runs_simps plain_literals intro!: vc_add vc_query vc_del)

lemma batch_runs:
  assumes "good w"
  shows "runs (batch_test C E) w (\<lambda>_ w1. good w1 \<and> sp_kv (abs w1) = sp_kv (abs w) ++ batch_map test_pairs \<and>
    (\<forall>k. k \<notin> keys_of test_pairs \<longrightarrow> sp_zs (abs w1) k = sp_zs (abs w) k))"
proof -
  have "hits (f ++ batch_map test_pairs) (map key_name [0..<100]) = 100" for f
    by (rule hits_names) simp_all
  then show ?thesis
    unfolding batch_test_def using assms
    by (auto simp: runs_simps intro!: vc_batch vc_list [of _ "key_name 0"] runs_each_check)
      (erule (1) runs_check_pair)
qed

lemma list_runs:
  assumes "good w" and "\<And>i. i < 100 \<Longrightarrow> sp_kv (abs w) (key_name i) \<noteq> None"
    and "\<And>i. 100 \<le> i \<Longrightarrow> i < 200 \<Longrightarrow> sp_kv (abs w) (key_name i) = None"
  shows "runs (list_test C E) w (\<lambda>_ w1. good w1 \<and> abs w1 = abs w)"
proof -
  have "hits (sp_kv (abs w)) (map key_name [0..<200]) = 100"
    by (rule hits_names) (use assms in auto)
  moreover have "hits (sp_kv (abs w)) (map (\<lambda>_. key_name 0) [0..<100]) = 1"
    by (rule hits_same) (use assms(2) [of 0] in auto)
  moreover have "\<exists>y. sp_kv (abs w) (key_name 0) = Some y" using assms(2) [of 0] by auto
  ultimately show ?thesis
    unfolding list_test_def using assms(1,3)
    by (auto simp: runs_and_then runs_expect image_constant_conv simp del: map_replicate_const
        intro!: vc_must_list [of _ "key_name 0"] vc_no_list)
qed

lemma zadd_all_runs:
  assumes "good w"
  shows "runs (zadd_all C E f) w (\<lambda>_ w1. good w1 \<and> abs w1 = zadds ''zset'' f [0..<100] (abs w))"
proof -
  have "runs (each (\<lambda>i. must (client_zadd C E ''zset'' (f i) (format_dec i))) [0..<100]) w
      (\<lambda>_ w1. good w1 \<and> abs w1 = zadds ''zset'' f [0..<100] (abs w))"
    by (rule runs_each_inv [where I = "\<lambda>front w1. good w1 \<and> abs w1 = zadds ''zset'' f front (abs w)"])
      (use assms in \<open>auto simp: runs_simps zadds_append plain_literals intro!: vc_zadd simp: zadds_def\<close>)
  then show ?thesis by (simp add: zadd_all_def each_map)
qed

lemma zadd_test_runs:
  assumes "good w" and "sp_zs (abs w) ''zset'' = None"
  shows "runs (zadd_test C E) w (\<lambda>_ w1. good w1 \<and> abs w1 = zadds ''zset'' (\<lambda>i. word_of_nat (i div 2)) [0..<100] (abs w))"
proof -
  let ?f = "\<lambda>i. word_of_nat (i div 2) :: u32"
  let ?m = "members ?f [0..<100]"
  have "sp_zs (zadds ''zset'' ?f [0..<100] (abs w)) ''zset'' = Some ?m"
    using assms(2) by (subst zadds_zset) simp_all
  moreover have "length svs = 100" "\<And>i sv. (i, sv) \<in> set (enumerate 0 svs) \<Longrightarrow> sv_score sv = ?f i"
    if "set svs = range_answer ?m \<lparr>min_score = 0, max_score = 49\<rparr>" "distinct svs" "sorted (map sv_score svs)" for svs
  proof -
    have range: "in_range \<lparr>min_score = 0, max_score = 49\<rparr> (?f i)" if "i < 100" for i
    proof -
      have "unat (?f i) = i div 2" using that by (simp add: unsigned_of_nat take_bit_nat_eq_self)
      with that show ?thesis by (simp add: in_range_def word_le_nat_alt)
    qed
    have "sorted (map ?f [0..<100])"
      by (rule sorted_scores) (auto intro: div_le_mono)
    note scores = range_answer_scores [OF that range this]
    show "length svs = 100" by (rule scores(2))
    show "sv_score sv = ?f i" if "(i, sv) \<in> set (enumerate 0 svs)" for i sv
      using enumerate_scores(1) [OF scores(1) that] .
  qed
  ultimately show ?thesis
    unfolding zadd_test_def using assms(1)
    by (auto simp: runs_simps plain_literals split_beta
        intro!: runs_mono [OF zadd_all_runs] vc_zrange runs_each_check)
qed

lemma rezadd_test_runs:
  assumes "good w" and "abs w = zadds ''zset'' g [0..<100] a" and "sp_zs a ''zset'' = None"
  shows "runs (rezadd_test C E) w (\<lambda>_ w1. good w1 \<and> sp_kv (abs w1) = sp_kv a \<and>
    sp_zs (abs w1) = (sp_zs a)(''zset'' \<mapsto> members (\<lambda>i. word_of_nat (i * 2)) [0..<100]))"
proof -
  let ?f = "\<lambda>i. word_of_nat (i * 2) :: u32"
  let ?m = "members ?f [0..<100]"
  have "members g [0..<100] ++ ?m = ?m"
  proof
    fix v
    show "(members g [0..<100] ++ ?m) v = ?m v"
    proof (cases "?m v")
      case None
      then have "members g [0..<100] v = None" by (simp add: members_None)
      with None show ?thesis by (simp add: map_add_None)
    next
      case (Some s)
      then show ?thesis by (rule map_add_find_right [THEN trans]) (rule Some [symmetric])
    qed
  qed
  then have zs: "sp_zs (zadds ''zset'' ?f [0..<100] (abs w)) = (sp_zs a)(''zset'' \<mapsto> ?m)"
    and kv: "sp_kv (zadds ''zset'' ?f [0..<100] (abs w)) = sp_kv a"
    unfolding assms(2) by (simp_all add: zadds_zset assms(3))
  have unat_f: "unat (?f i) = i * 2" if "i < 100" for i
    using that by (simp add: unsigned_of_nat take_bit_nat_eq_self del: of_nat_mult)
  have "inj_on ?f {0..<100}"
    by (rule inj_onI) (metis atLeastLessThan_iff mult_right_cancel unat_f zero_neq_numeral)
  moreover have "in_range \<lparr>min_score = 0, max_score = 198\<rparr> (?f i)" if "i < 100" for i
    using that unat_f [OF that] by (simp add: in_range_def word_le_nat_alt del: of_nat_mult)
  moreover have "sorted (map ?f [0..<100])"
    by (rule sorted_scores) auto
  ultimately have answer: "length svs = 100"
      "\<And>i sv. (i, sv) \<in> set (enumerate 0 svs) \<Longrightarrow> sv_score sv = ?f i \<and> sv_value sv = format_dec i"
    if "set svs = range_answer ?m \<lparr>min_score = 0, max_score = 198\<rparr>" "distinct svs" "sorted (map sv_score svs)" for svs
    using range_answer_scores [OF that] enumerate_scores [of svs ?f 100]
      range_answer_values [OF that(1)] by blast+
  show ?thesis
    unfolding rezadd_test_def using assms(1)
    by (auto simp: runs_simps plain_literals split_beta zs kv answer simp del: of_nat_mult
        intro!: runs_mono [OF zadd_all_runs] vc_zrange runs_each_check)
qed

lemma zrmv_test_runs:
  assumes "good w" and "sp_zs (abs w) ''zset'' = Some (members (\<lambda>i. word_of_nat (i * 2)) [0..<100])"
  shows "runs (zrmv_test C E) w (\<lambda>_ w1. good w1 \<and> sp_kv (abs w1) = (sp_kv (abs w))(''zset'' := None) \<and>
    sp_zs (abs w1) = (sp_zs (abs w))(''zset'' := None))"
proof -
  let ?f = "\<lambda>i. word_of_nat (i * 2) :: u32"
  let ?m = "members ?f [0..<100]"
  let ?a = "spec_step (Zrmv ''zset'' ''0'') (abs w)"
  have dec0: "format_dec 0 = ''0''" by (simp add: format_dec.simps)
  have zs1: "sp_zs ?a ''zset'' = Some (?m(''0'' := None))"
    using assms(2) by (simp add: zs_del_def)
  have zero: "v = ''0''" if "?m v = Some 0" for v
  proof -
    from that obtain i where i: "i < 100" "v = format_dec i" "0 = ?f i"
      by (auto simp: members_Some simp del: of_nat_mult)
    have "unat (?f i) = i * 2" using i(1) by (simp add: unsigned_of_nat take_bit_nat_eq_self del: of_nat_mult)
    with i dec0 show ?thesis by (metis mult_eq_0_iff unat_0 zero_neq_numeral)
  qed
  have empty: "svs = []"
    if "set svs = range_answer m \<lparr>min_score = 0, max_score = 0\<rparr>" "m \<subseteq>\<^sub>m ?m(''0'' := None)" for svs m
  proof -
    have "m v \<noteq> Some 0" for v
    proof
      assume "m v = Some 0"
      then have "(?m(''0'' := None)) v = Some 0" using that(2) by (metis domI map_le_def)
      then show False using zero [of v] by (simp split: if_splits)
    qed
    then have "range_answer m \<lparr>min_score = 0, max_score = 0\<rparr> = {}"
      by (auto simp: range_answer_def in_range_def)
    with that(1) show ?thesis by simp
  qed
  let ?b = "zrmvs ''zset'' [1..<100] ?a"
  have zs2: "sp_zs ?b ''zset'' = Some ((?m(''0'' := None)) |` (- (format_dec ` set [1..<100])))"
    by (simp only: zrmvs_zset zs1 fun_upd_same option.map)
  have b: "sp_kv (spec_step (Del ''zset'') ?b) = (sp_kv (abs w))(''zset'' := None)"
      "sp_zs (spec_step (Del ''zset'') ?b) = (sp_zs (abs w))(''zset'' := None)"
    by (simp_all add: zrmvs_zset zs_del_def)
  have restrict_le: "(h :: string \<Rightarrow> u32 option) |` A \<subseteq>\<^sub>m h" for h A
    by (auto simp: map_le_def restrict_map_def)
  have plain: "plain_key (format_dec x)" if "[1..<100] = front @ x # rest" for x front rest
  proof -
    from that have "x \<in> set [1..<100]" by (metis in_set_conv_decomp)
    then show ?thesis by (intro plain_format) simp
  qed
  have loop: "runs (each (\<lambda>i. must (client_zrmv C ''zset'' (format_dec i))) [1..<100]) w1
      (\<lambda>_ w2. good w2 \<and> abs w2 = ?b)" if "good w1" "abs w1 = ?a" for w1
    by (rule runs_each_inv [where I = "\<lambda>front w2. good w2 \<and> abs w2 = zrmvs ''zset'' front ?a"])
      (use that plain in \<open>auto simp: runs_simps zrmvs_append plain_literals intro!: vc_zrmv
        simp: zrmvs_def simp del: spec_step.simps\<close>)
  have nil: "runs (must (client_zrange C E ''zset'' 0 0)) w1 Q"
    if "good w1" "abs w1 = x" "sp_zs x ''zset'' = Some m" "m \<subseteq>\<^sub>m ?m(''0'' := None)"
      "\<And>w2. \<lbrakk>good w2; abs w2 = x\<rbrakk> \<Longrightarrow> Q [] w2" for w1 Q x m
    unfolding runs_must
  proof (rule vc_zrange [OF that(1) plain_literals(2)])
    show "sp_zs (abs w1) ''zset'' = Some m" using that(2,3) by simp
    fix svs w2
    assume "good w2" "abs w2 = abs w1" "set svs = range_answer m \<lparr>min_score = 0, max_score = 0\<rparr>"
    with that(2,5) empty [OF _ that(4), of svs] show "case Inr svs of Inl _ \<Rightarrow> False | Inr svs \<Rightarrow> Q svs w2"
      by simp
  qed simp
  note range1 = nil [OF _ _ zs1 map_le_refl] and range2 = nil [OF _ _ zs2 restrict_le]
  have range3: "runs (must_fail (client_zrange C E ''zset'' 0 0)) w1 Q"
    if "good w1" "sp_zs (abs w1) ''zset'' = None" "\<And>w2. \<lbrakk>good w2; abs w2 = abs w1\<rbrakk> \<Longrightarrow> Q () w2" for w1 Q
    unfolding runs_must by (rule vc_zrange_none [OF that(1) plain_literals(2)]) (use that in auto)
  have del1: "runs (must (client_del C ''zset'')) w1 Q"
    if "good w1" "\<And>w2. \<lbrakk>good w2; abs w2 = spec_step (Del ''zset'') (abs w1)\<rbrakk> \<Longrightarrow> Q () w2" for w1 Q
    unfolding runs_must by (rule vc_del [OF that(1) plain_literals(2)]) (use that in auto)
  have zrmv1: "runs (must (client_zrmv C ''zset'' ''0'')) w1 Q"
    if "good w1" "\<And>w2. \<lbrakk>good w2; abs w2 = spec_step (Zrmv ''zset'' ''0'') (abs w1)\<rbrakk> \<Longrightarrow> Q () w2" for w1 Q
    unfolding runs_must by (rule vc_zrmv [OF that(1) plain_literals(2,3)]) (use that in auto)
  show ?thesis
    unfolding zrmv_test_def runs_and_then
    by (rule zrmv1 [OF assms(1)], rule range1, assumption, assumption,
        simp only: runs_finish runs_expect list.size simp_thms if_False sum.case not_True_eq_False,
        rule runs_mono [OF loop], assumption, assumption, erule conjE, rule range2, assumption, assumption,
        simp only: runs_finish runs_expect list.size simp_thms, rule del1, assumption, rule range3, assumption,
        simp only: b fun_upd_same, simp only: b simp_thms)
qed

lemma acceptance_runs:
  assumes "good w" and "test_ready (abs w)"
  shows "runs (acceptance_test C E) w (\<lambda>_ w1. good w1 \<and>
    sp_kv (abs w1) = ((sp_kv (abs w))(''hello'' := None) ++ batch_map test_pairs)(''zset'' := None) \<and>
    (\<forall>k. k \<notin> keys_of test_pairs \<longrightarrow>
      sp_zs (abs w1) k = (if k = ''hello'' \<or> k = ''zset'' then None else sp_zs (abs w) k)))"
proof -
  define kv where "kv = (sp_kv (abs w))(''hello'' := None) ++ batch_map test_pairs"
  define other where "other zs \<longleftrightarrow> (\<forall>k. k \<notin> keys_of test_pairs \<longrightarrow>
      zs k = (if k = ''hello'' then None else sp_zs (abs w) k))" for zs
  have fresh: "zs ''zset'' = None" if "other zs" for zs
  proof -
    have "''zset'' \<notin> keys_of test_pairs" using key_name_other by (auto simp: keys_of_test_pairs)
    with that assms(2) show ?thesis by (simp add: other_def test_ready_def)
  qed
  have hits: "kv (key_name i) \<noteq> None" if "i < 100" for i
    using that by (simp add: kv_def)
  have misses: "kv (key_name i) = None" if "100 \<le> i" "i < 200" for i
  proof -
    have "batch_map test_pairs (key_name i) = None"
      using that by (auto simp: batch_map_None keys_of_test_pairs)
    then show ?thesis using that assms(2) by (auto simp: kv_def test_ready_def map_add_None)
  qed
  have batch': "runs (batch_test C E) w1 (\<lambda>_ w2. good w2 \<and> sp_kv (abs w2) = kv \<and> other (sp_zs (abs w2)))"
    if "good w1" "abs w1 = spec_step (Del ''hello'') (abs w)" for w1
    by (rule runs_mono [OF batch_runs [OF that(1)]]) (use that(2) in \<open>auto simp: kv_def other_def\<close>)
  have list': "runs (list_test C E) w1 (\<lambda>_ w2. good w2 \<and> abs w2 = abs w1)"
    if "good w1" "sp_kv (abs w1) = kv" for w1
    by (rule list_runs) (use that hits misses in auto)
  have rezadd': "runs (rezadd_test C E) w1 (\<lambda>_ w2. good w2 \<and> sp_kv (abs w2) = kv \<and>
      sp_zs (abs w2) = zs(''zset'' \<mapsto> members (\<lambda>i. word_of_nat (i * 2)) [0..<100]))"
    if "good w1" "abs w1 = zadds ''zset'' g [0..<100] \<lparr>sp_kv = kv, sp_zs = zs\<rparr>" "other zs" for w1 g zs
    by (rule runs_mono [OF rezadd_test_runs [OF that(1,2)]]) (use fresh [OF that(3)] in auto)
  have zadd': "runs (and_then (zadd_test C E) (\<lambda>_. and_then (rezadd_test C E) (\<lambda>_. zrmv_test C E))) w1
      (\<lambda>_ w2. good w2 \<and> sp_kv (abs w2) = kv(''zset'' := None) \<and> sp_zs (abs w2) = (sp_zs (abs w1))(''zset'' := None))"
    if w1: "good w1" "sp_kv (abs w1) = kv" "other (sp_zs (abs w1))" for w1
  proof -
    have eq: "abs w1 = \<lparr>sp_kv = kv, sp_zs = sp_zs (abs w1)\<rparr>" using w1(2) by simp
    show ?thesis
      unfolding runs_and_then
      by (rule runs_mono [OF zadd_test_runs [OF w1(1) fresh [OF w1(3)]]], erule conjE,
          rule runs_mono [OF rezadd' [OF _ _ w1(3)]], assumption, simp only: eq [symmetric],
          rule runs_mono [OF zrmv_test_runs]) (simp_all del: of_nat_mult)
  qed
  show ?thesis
    unfolding acceptance_test_def runs_and_then [of "hello_test C E"] runs_and_then [of "batch_test C E"]
      runs_and_then [of "list_test C E"]
    by (rule runs_mono [OF hello_runs [OF assms(1)]], erule conjE,
        rule runs_mono [OF batch'], assumption, assumption, elim conjE,
        rule runs_mono [OF list'], assumption, assumption, elim conjE,
        rule runs_mono [OF zadd']) (auto simp: kv_def other_def)
qed

end

end
