(* ===== verification/Benchmark.thy ===== *)
theory Benchmark
  imports Acceptance
begin

text \<open>
  The benchmark phases of the client's \<open>main\<close>. Each spawns its tasks and awaits them all; a task
  is the list of its requests, and a schedule says which task takes the next step, so requests of
  different tasks interleave freely. The benchmark passes under every complete schedule, and
  leaves nothing behind.
\<close>

section \<open>Spawned tasks\<close>

fun run_schedule ::
    "nat list \<Rightarrow> ('w, unit) script list list \<Rightarrow> unit result list \<Rightarrow> 'w \<Rightarrow>
     'w \<times> ('w, unit) script list list \<times> unit result list" where
  "run_schedule [] ts rs w = (w, ts, rs)"
| "run_schedule (i # sched) ts rs w =
     (case ts ! i of
        [] \<Rightarrow> run_schedule sched ts rs w
      | m # ms \<Rightarrow>
          (case m w of
             (w1, Inr _) \<Rightarrow> run_schedule sched (ts[i := ms]) rs w1
           | (w1, Inl e) \<Rightarrow> run_schedule sched (ts[i := []]) (rs[i := Inl e]) w1))"

text \<open>\<open>handle.await.unwrap()\<close> for every handle: a task that panicked makes it panic.\<close>

definition spawn_join :: "nat list \<Rightarrow> ('w, unit) script list list \<Rightarrow> ('w, unit) script" where
  "spawn_join sched ts w =
     (case run_schedule sched ts (replicate (length ts) (Inr ())) w of
        (w1, ts1, rs) \<Rightarrow>
          (w1, if \<exists>t \<in> set ts1. t \<noteq> [] then Inl Still_Waiting
               else if \<exists>r \<in> set rs. r \<noteq> Inr () then Inl Unwrap_Failed else Inr ()))"

text \<open>A schedule that lets every task finish, given the numbers of their steps.\<close>

definition complete :: "nat list \<Rightarrow> nat list \<Rightarrow> bool" where
  "complete sched lens \<longleftrightarrow> list_all (\<lambda>i. i < length lens) sched \<and>
     list_all (\<lambda>i. lens ! i \<le> count_list sched i) [0..<length lens]"

lemma run_schedule_inv:
  assumes "\<And>front i w. \<lbrakk>i < length ts; front i < length (ts ! i); I front w\<rbrakk> \<Longrightarrow>
      runs (ts ! i ! front i) w (\<lambda>_ w1. I (front(i := Suc (front i))) w1)"
    and "I front w" and "\<forall>i \<in> set sched. i < length ts" and "\<forall>i < length ts. front i \<le> length (ts ! i)"
  shows "\<exists>w1 front1. run_schedule sched (map (\<lambda>i. drop (front i) (ts ! i)) [0..<length ts]) rs w =
      (w1, map (\<lambda>i. drop (front1 i) (ts ! i)) [0..<length ts], rs) \<and> I front1 w1 \<and>
      (\<forall>i < length ts. front1 i \<le> length (ts ! i) \<and> min (length (ts ! i)) (front i + count_list sched i) \<le> front1 i)"
  using assms(2-4)
proof (induction sched arbitrary: front w)
  case Nil
  then show ?case by (intro exI [of _ w] exI [of _ front]) simp
next
  case (Cons i sched)
  have i: "i < length ts" using Cons.prems(2) by simp
  let ?ts = "\<lambda>front. map (\<lambda>i. drop (front i) (ts ! i)) [0..<length ts]"
  show ?case
  proof (cases "front i < length (ts ! i)")
    case False
    with Cons.prems(3) i have "front i = length (ts ! i)" by (simp add: le_antisym not_less)
    with i have skip: "run_schedule (i # sched) (?ts front) rs w = run_schedule sched (?ts front) rs w" by simp
    from Cons.IH [of front w] Cons.prems obtain w1 front1 where
      rest: "run_schedule sched (?ts front) rs w = (w1, ?ts front1, rs)" "I front1 w1"
      "\<forall>i < length ts. front1 i \<le> length (ts ! i) \<and> min (length (ts ! i)) (front i + count_list sched i) \<le> front1 i"
      by auto
    from rest(3) \<open>front i = length (ts ! i)\<close>
    have "\<forall>j < length ts. front1 j \<le> length (ts ! j) \<and> min (length (ts ! j)) (front j + count_list (i # sched) j) \<le> front1 j"
      by (auto simp: min_def split: if_splits)
    with rest(2) trans [OF skip rest(1)] show ?thesis by blast
  next
    case True
    let ?front = "front(i := Suc (front i))"
    from assms(1) [OF i True Cons.prems(1)] obtain w' where
      step: "(ts ! i ! front i) w = (w', Inr ())" and I: "I ?front w'"
      by (auto simp: runs_iff)
    have "?ts front ! i = ts ! i ! front i # drop (Suc (front i)) (ts ! i)"
      using i True by (simp add: Cons_nth_drop_Suc)
    moreover have "(?ts front)[i := drop (Suc (front i)) (ts ! i)] = ?ts ?front"
      by (rule nth_equalityI) (auto simp: nth_list_update i)
    ultimately have taken: "run_schedule (i # sched) (?ts front) rs w = run_schedule sched (?ts ?front) rs w'"
      using step by simp
    have "\<forall>j < length ts. ?front j \<le> length (ts ! j)" using Cons.prems(3) True by simp
    moreover have "\<forall>j \<in> set sched. j < length ts" using Cons.prems(2) by simp
    ultimately obtain w1 front1 where
      rest: "run_schedule sched (?ts ?front) rs w' = (w1, ?ts front1, rs)" "I front1 w1"
      "\<forall>j < length ts. front1 j \<le> length (ts ! j) \<and> min (length (ts ! j)) (?front j + count_list sched j) \<le> front1 j"
      using Cons.IH [OF I] by blast
    have "front1 j \<le> length (ts ! j) \<and> min (length (ts ! j)) (front j + count_list (i # sched) j) \<le> front1 j"
      if "j < length ts" for j
      using rest(3) [rule_format, OF that] by (cases "j = i") simp_all
    with rest(2) trans [OF taken rest(1)] show ?thesis by blast
  qed
qed

lemma runs_spawn_join:
  assumes "complete sched (map length ts)" and "I (\<lambda>_. 0) w"
    and "\<And>front i w. \<lbrakk>i < length ts; front i < length (ts ! i); I front w\<rbrakk> \<Longrightarrow>
      runs (ts ! i ! front i) w (\<lambda>_ w1. I (front(i := Suc (front i))) w1)"
    and "\<And>front w1. \<lbrakk>I front w1; \<forall>i < length ts. front i = length (ts ! i)\<rbrakk> \<Longrightarrow> Q () w1"
  shows "runs (spawn_join sched ts) w Q"
proof -
  let ?rs = "replicate (length ts) (Inr ()) :: unit result list"
  have start: "map (\<lambda>i. drop 0 (ts ! i)) [0..<length ts] = ts" by (simp add: map_nth)
  have sched: "\<forall>i \<in> set sched. i < length ts" using assms(1) by (simp add: complete_def list_all_iff)
  have zero: "\<forall>i < length ts. 0 \<le> length (ts ! i)" by simp
  from run_schedule_inv [where rs = ?rs, OF assms(3,2) sched zero, unfolded start add_0] obtain w1 front where
    run: "run_schedule sched ts ?rs w = (w1, map (\<lambda>i. drop (front i) (ts ! i)) [0..<length ts], ?rs)"
    and I: "I front w1"
    and front: "\<forall>i < length ts. front i \<le> length (ts ! i) \<and> min (length (ts ! i)) (count_list sched i) \<le> front i"
    by blast
  from front assms(1) have all: "\<forall>i < length ts. front i = length (ts ! i)"
    by (auto simp: complete_def list_all_iff min_def split: if_splits)
  then have "\<not> (\<exists>t \<in> set (map (\<lambda>i. drop (front i) (ts ! i)) [0..<length ts]). t \<noteq> [])" by auto
  then have "spawn_join sched ts w = (w1, Inr ())"
    unfolding spawn_join_def run prod.case by simp
  with assms(4) [OF I all] show ?thesis by (simp add: runs_value)
qed

section \<open>The phases\<close>

definition repeat_str :: "nat \<Rightarrow> string \<Rightarrow> string" where
  "repeat_str n s = concat (replicate n s)"

text \<open>\<open>slice::chunks\<close>, which the code calls with 1000.\<close>

function chunks :: "nat \<Rightarrow> 'a list \<Rightarrow> 'a list list" where
  "chunks n xs = (if n = 0 \<or> xs = [] then [] else take n xs # chunks n (drop n xs))"
  by pat_completeness auto
termination by (relation "measure (length \<circ> snd)") auto

declare chunks.simps [simp del]

definition bench_key :: "nat \<Rightarrow> string" where "bench_key i = repeat_str 16 (key_name i)"

definition bench_zkey :: "nat \<Rightarrow> string" where "bench_zkey i = repeat_str 16 (''zset'' @ format_dec i)"

definition bench_member :: "nat \<Rightarrow> string" where "bench_member i = repeat_str 32 (format_dec i)"

definition bench_pairs :: "nat \<Rightarrow> insrt_request list" where
  "bench_pairs n = map (\<lambda>i. \<lparr>ir_key = bench_key i, ir_value = replicate 1024 CHR ''a''\<rparr>) [0..<n]"

text \<open>A request whose value is dropped.\<close>

definition ignore :: "('w, 'a) script \<Rightarrow> ('w, unit) script" where
  "ignore m = and_then m (\<lambda>_. finish (Inr ()))"

definition bench_add :: "'w client \<Rightarrow> env \<Rightarrow> nat \<Rightarrow> nat list \<Rightarrow> ('w, unit) script" where
  "bench_add C E n sched =
     spawn_join sched (map (\<lambda>kv. [must (client_add C E (ir_key kv) (ir_value kv))]) (bench_pairs n))"

definition bench_query :: "'w client \<Rightarrow> nat \<Rightarrow> nat list \<Rightarrow> ('w, unit) script" where
  "bench_query C n sched =
     spawn_join sched (map (\<lambda>i. [ignore (must_some (client_query C (bench_key i)))]) [0..<n])"

definition bench_del :: "'w client \<Rightarrow> nat \<Rightarrow> nat list \<Rightarrow> ('w, unit) script" where
  "bench_del C n sched = spawn_join sched (map (\<lambda>i. [must (client_del C (bench_key i))]) [0..<n])"

definition bench_batch :: "'w client \<Rightarrow> env \<Rightarrow> nat \<Rightarrow> nat list \<Rightarrow> ('w, unit) script" where
  "bench_batch C E n sched =
     spawn_join sched (map (\<lambda>chunk. [must (client_batch C E chunk)]) (chunks 1000 (bench_pairs n)))"

definition bench_list :: "'w client \<Rightarrow> env \<Rightarrow> nat \<Rightarrow> ('w, unit) script" where
  "bench_list C E n =
     each (\<lambda>chunk. and_then (must (client_list C E chunk)) (\<lambda>vals. client_expect (length vals) (length chunk)))
       (chunks 1000 (map bench_key [0..<n]))"

definition bench_zadd :: "'w client \<Rightarrow> env \<Rightarrow> nat \<Rightarrow> nat list \<Rightarrow> ('w, unit) script" where
  "bench_zadd C E n sched =
     spawn_join sched (map (\<lambda>(i, sv). [must (client_zadd C E (bench_zkey i) (sv_score sv) (sv_value sv))])
       (enumerate 0 (map (\<lambda>i. Score_Value (word_of_nat i) (bench_member i)) [0..<n])))"

definition bench_zrange :: "'w client \<Rightarrow> env \<Rightarrow> nat \<Rightarrow> nat list \<Rightarrow> ('w, unit) script" where
  "bench_zrange C E n sched =
     spawn_join sched (map (\<lambda>i. [ignore (must (client_zrange C E (bench_zkey i) (word_of_nat i) (word_of_nat i)))]) [0..<n])"

definition bench_zrmv :: "'w client \<Rightarrow> nat \<Rightarrow> nat list \<Rightarrow> ('w, unit) script" where
  "bench_zrmv C n sched =
     spawn_join sched (map (\<lambda>i. [must (client_zrmv C (bench_zkey i) (bench_member i))]) [0..<n])"

definition bench_cleanup :: "'w client \<Rightarrow> nat \<Rightarrow> nat list \<Rightarrow> ('w, unit) script" where
  "bench_cleanup C n sched =
     spawn_join sched (map (\<lambda>i. [must (client_del C (bench_key i)), must (client_del C (bench_zkey i))]) [0..<n])"

text \<open>The schedules of the eight phases that spawn tasks are given by their numbers.\<close>

definition benchmark :: "'w client \<Rightarrow> env \<Rightarrow> nat \<Rightarrow> (nat \<Rightarrow> nat list) \<Rightarrow> ('w, unit) script" where
  "benchmark C E n sched =
     and_then (bench_add C E n (sched 0)) (\<lambda>_.
     and_then (bench_query C n (sched 1)) (\<lambda>_.
     and_then (bench_del C n (sched 2)) (\<lambda>_.
     and_then (bench_batch C E n (sched 3)) (\<lambda>_.
     and_then (bench_list C E n) (\<lambda>_.
     and_then (bench_zadd C E n (sched 4)) (\<lambda>_.
     and_then (bench_zrange C E n (sched 5)) (\<lambda>_.
     and_then (bench_zrmv C n (sched 6)) (\<lambda>_.
       bench_cleanup C n (sched 7)))))))))"

definition schedules_ok :: "nat \<Rightarrow> (nat \<Rightarrow> nat list) \<Rightarrow> bool" where
  "schedules_ok n sched \<longleftrightarrow>
     list_all (\<lambda>phase. complete (sched phase) (replicate n 1)) [0, 1, 2, 4, 5, 6] \<and>
     complete (sched 3) (replicate (length (chunks 1000 (bench_pairs n))) 1) \<and>
     complete (sched 7) (replicate n 2)"

definition client_main :: "'w client \<Rightarrow> env \<Rightarrow> nat \<Rightarrow> (nat \<Rightarrow> nat list) \<Rightarrow> ('w, unit) script" where
  "client_main C E n sched = and_then (acceptance_test C E) (\<lambda>_. benchmark C E n sched)"

section \<open>Names and chunks\<close>

lemma concat_chunks: "0 < n \<Longrightarrow> concat (chunks n xs) = xs"
  by (induction n xs rule: chunks.induct) (subst chunks.simps, auto)

lemma chunks_nonempty: "c \<in> set (chunks n xs) \<Longrightarrow> c \<noteq> []"
  by (induction n xs rule: chunks.induct) (subst (asm) (2) chunks.simps, auto split: if_splits)

lemma length_repeat_str: "length (repeat_str n s) = n * length s"
  by (induction n) (simp_all add: repeat_str_def)

lemma repeat_str_inject: "0 < n \<Longrightarrow> repeat_str n s = repeat_str n t \<longleftrightarrow> s = t"
proof
  assume n: "0 < n" and eq: "repeat_str n s = repeat_str n t"
  then have "length s = length t" by (metis length_repeat_str mult_left_cancel neq0_conv)
  with n eq show "s = t" by (cases n) (simp_all add: repeat_str_def)
qed simp

lemma list_all_repeat_str: "list_all P s \<Longrightarrow> list_all P (repeat_str n s)"
  by (induction n) (simp_all add: repeat_str_def)

lemma bench_key_inject: "bench_key i = bench_key j \<longleftrightarrow> i = j"
  by (simp add: bench_key_def repeat_str_inject)

lemma bench_zkey_inject: "bench_zkey i = bench_zkey j \<longleftrightarrow> i = j"
  by (simp add: bench_zkey_def repeat_str_inject format_dec_inject)

lemma bench_key_zkey: "bench_key i \<noteq> bench_zkey j"
  by (simp add: bench_key_def bench_zkey_def repeat_str_def key_name_def numeral_eq_Suc)

lemma plain_bench:
  assumes "n < 2 ^ 64"
  shows "plain_key (bench_key n)" and "plain_key (bench_zkey n)" and "plain_key (bench_member n)"
proof -
  have "length (format_dec n) \<le> 20" by (rule format_dec_length) (use assms in simp_all)
  then show "plain_key (bench_key n)" and "plain_key (bench_zkey n)" and "plain_key (bench_member n)"
    by (simp_all add: plain_key_def bench_key_def bench_zkey_def bench_member_def length_repeat_str
        list_all_repeat_str list_all_plain_format key_name_def plain_char_def)
qed

section \<open>The benchmark passes\<close>

definition bench_keys :: "nat \<Rightarrow> string set" where
  "bench_keys n = bench_key ` {..<n} \<union> bench_zkey ` {..<n}"

text \<open>What the benchmark leaves alone.\<close>

definition unchanged :: "nat \<Rightarrow> spec \<Rightarrow> spec \<Rightarrow> bool" where
  "unchanged n a b \<longleftrightarrow> (\<forall>k. k \<notin> bench_keys n \<longrightarrow> sp_kv b k = sp_kv a k \<and> sp_zs b k = sp_zs a k)"

lemma unchanged_refl [simp]: "unchanged n a a"
  by (simp add: unchanged_def)

lemma unchanged_trans: "\<lbrakk>unchanged n a b; unchanged n b c\<rbrakk> \<Longrightarrow> unchanged n a c"
  by (simp add: unchanged_def)

lemma unchanged_step: "cmd_key c \<in> bench_keys n \<Longrightarrow> unchanged n a (spec_step c a)"
  by (auto simp: unchanged_def) (metis spec_step_other)+

lemma in_bench_keys: "i < n \<Longrightarrow> bench_key i \<in> bench_keys n" "i < n \<Longrightarrow> bench_zkey i \<in> bench_keys n"
  by (simp_all add: bench_keys_def)

lemma keys_of_pairs: "set xs \<subseteq> set (bench_pairs n) \<Longrightarrow> keys_of xs \<subseteq> bench_keys n"
  by (auto simp: keys_of_def bench_pairs_def bench_keys_def)

lemma unchanged_batch:
  assumes "sp_kv b = sp_kv a ++ batch_map kvs" "\<forall>k. k \<notin> keys_of kvs \<longrightarrow> sp_zs b k = sp_zs a k"
    and "keys_of kvs \<subseteq> bench_keys n"
  shows "unchanged n a b"
  unfolding unchanged_def
proof (intro allI impI)
  fix k assume "k \<notin> bench_keys n"
  with assms(3) have "k \<notin> keys_of kvs" by blast
  moreover from this have "batch_map kvs k = None" by (simp add: batch_map_None)
  ultimately show "sp_kv b k = sp_kv a k \<and> sp_zs b k = sp_zs a k"
    using assms(1,2) by (simp add: map_add_def)
qed

lemma hits_all: "\<lbrakk>distinct keys; \<forall>k \<in> set keys. f k \<noteq> None\<rbrakk> \<Longrightarrow> hits f keys = length keys"
proof -
  assume "distinct keys" "\<forall>k \<in> set keys. f k \<noteq> None"
  then have "{k \<in> set keys. f k \<noteq> None} = set keys" by auto
  with \<open>distinct keys\<close> show ?thesis by (simp add: hits_def distinct_card)
qed

lemma distinct_chunk: "\<lbrakk>distinct xs; c \<in> set (chunks n xs); 0 < n\<rbrakk> \<Longrightarrow> distinct c \<and> set c \<subseteq> set xs"
proof -
  assume "distinct xs" "c \<in> set (chunks n xs)" "0 < n"
  then have "distinct (concat (chunks n xs))" by (simp add: concat_chunks)
  moreover have "c \<in> set (chunks n xs) \<Longrightarrow> distinct (concat (chunks n xs)) \<Longrightarrow> distinct c"
    by (auto simp: in_set_conv_decomp)
  moreover have "set c \<subseteq> set (concat (chunks n xs))" using \<open>c \<in> set (chunks n xs)\<close> by auto
  ultimately show ?thesis using \<open>c \<in> _\<close> \<open>0 < n\<close> by (simp only: concat_chunks)
qed

context client_service
begin

text \<open>A phase with one request per task, each of them a command on a key of the benchmark.\<close>

lemma single_phase:
  assumes "complete sched (replicate m 1)" and "good w" and "length ts = m"
    and ts: "\<And>i. i < m \<Longrightarrow> ts ! i = [t i]"
    and I: "\<And>i w1. \<lbrakk>i < m; good w1; P (abs w1)\<rbrakk> \<Longrightarrow>
      runs (t i) w1 (\<lambda>_ w2. good w2 \<and> P (abs w2) \<and> R i (abs w2) \<and> (\<forall>j < m. R j (abs w1) \<longrightarrow> R j (abs w2)))"
    and "P (abs w)"
    and Q: "\<And>w1. \<lbrakk>good w1; P (abs w1); \<forall>i < m. R i (abs w1)\<rbrakk> \<Longrightarrow> Q () w1"
  shows "runs (spawn_join sched ts) w Q"
proof (rule runs_spawn_join [where I = "\<lambda>front w1. good w1 \<and> P (abs w1) \<and> (\<forall>i < m. 0 < front i \<longrightarrow> R i (abs w1))"])
  have "map length ts = replicate m 1" by (rule nth_equalityI) (simp_all add: assms(3) ts)
  with assms(1) show "complete sched (map length ts)" by simp
next
  fix front i w1
  assume i: "i < length ts" "front i < length (ts ! i)"
    and inv: "good w1 \<and> P (abs w1) \<and> (\<forall>i < m. 0 < front i \<longrightarrow> R i (abs w1))"
  from i ts assms(3) have "ts ! i ! front i = t i" by simp
  moreover have "runs (t i) w1 (\<lambda>_ w2. good w2 \<and> P (abs w2) \<and> R i (abs w2) \<and> (\<forall>j < m. R j (abs w1) \<longrightarrow> R j (abs w2)))"
    using i inv assms(3) by (intro I) simp_all
  ultimately show "runs (ts ! i ! front i) w1
      (\<lambda>_ w1. good w1 \<and> P (abs w1) \<and> (\<forall>j < m. 0 < (front(i := Suc (front i))) j \<longrightarrow> R j (abs w1)))"
    using inv by (auto elim!: runs_mono split: if_splits)
next
  fix front w1
  assume "good w1 \<and> P (abs w1) \<and> (\<forall>i < m. 0 < front i \<longrightarrow> R i (abs w1))" "\<forall>i < length ts. front i = length (ts ! i)"
  then show "Q () w1" using Q ts assms(3) by simp
qed (use assms in simp_all)

lemma add_phase:
  assumes "complete sched (replicate n 1)" and "good w" and "unchanged n a (abs w)"
    and "\<And>w1. \<lbrakk>good w1; unchanged n a (abs w1); \<forall>i < n. sp_kv (abs w1) (bench_key i) \<noteq> None\<rbrakk> \<Longrightarrow> Q () w1"
  shows "runs (bench_add C E n sched) w Q"
  unfolding bench_add_def
proof (rule single_phase [OF assms(1,2), where P = "unchanged n a" and R = "\<lambda>i b. sp_kv b (bench_key i) \<noteq> None"
      and t = "\<lambda>i. must (client_add C E (bench_key i) (replicate 1024 CHR ''a''))"])
  fix i w1
  assume i: "i < n" "good w1" "unchanged n a (abs w1)"
  have "unchanged n a (spec_step (Add (bench_key i) v) (abs w1))" for v
    by (rule unchanged_trans [OF i(3) unchanged_step]) (simp add: in_bench_keys i(1))
  with i(2) show "runs (must (client_add C E (bench_key i) (replicate 1024 CHR ''a''))) w1
      (\<lambda>_ w2. good w2 \<and> unchanged n a (abs w2) \<and> sp_kv (abs w2) (bench_key i) \<noteq> None \<and>
        (\<forall>j < n. sp_kv (abs w1) (bench_key j) \<noteq> None \<longrightarrow> sp_kv (abs w2) (bench_key j) \<noteq> None))"
    by (auto simp: runs_must intro!: vc_add)
qed (use assms in \<open>simp_all add: bench_pairs_def\<close>)

lemma query_phase:
  assumes "complete sched (replicate n 1)" and "good w" and "n < 2 ^ 64"
    and "\<forall>i < n. sp_kv (abs w) (bench_key i) \<noteq> None"
    and "\<And>w1. \<lbrakk>good w1; abs w1 = abs w\<rbrakk> \<Longrightarrow> Q () w1"
  shows "runs (bench_query C n sched) w Q"
  unfolding bench_query_def
proof (rule single_phase [OF assms(1,2), where P = "\<lambda>b. b = abs w" and R = "\<lambda>_ _. True"
      and t = "\<lambda>i. ignore (must_some (client_query C (bench_key i)))"])
  fix i w1
  assume i: "i < n" "good w1" "abs w1 = abs w"
  moreover have "plain_key (bench_key i)" by (rule plain_bench) (use i(1) assms(3) in simp)
  moreover obtain v where "sp_kv (abs w) (bench_key i) = Some v" using assms(4) i(1) by auto
  ultimately show "runs (ignore (must_some (client_query C (bench_key i)))) w1
      (\<lambda>_ w2. good w2 \<and> abs w2 = abs w \<and> True \<and> (\<forall>j < n. True \<longrightarrow> True))"
    by (auto simp: ignore_def runs_simps intro!: vc_query)
qed (use assms in simp_all)

text \<open>Phases of commands whose results are not looked at again.\<close>

lemma command_phase:
  assumes "complete sched (replicate n 1)" and "good w" and "unchanged n a (abs w)"
    and "length ts = n" and "\<And>i. i < n \<Longrightarrow> ts ! i = [t i]"
    and t: "\<And>i w1 Q. \<lbrakk>i < n; good w1; \<And>w2. \<lbrakk>good w2; abs w2 = spec_step (c i) (abs w1)\<rbrakk> \<Longrightarrow> Q () w2\<rbrakk> \<Longrightarrow> runs (t i) w1 Q"
    and "\<And>i. i < n \<Longrightarrow> cmd_key (c i) \<in> bench_keys n"
    and "\<And>w1. \<lbrakk>good w1; unchanged n a (abs w1)\<rbrakk> \<Longrightarrow> Q () w1"
  shows "runs (spawn_join sched ts) w Q"
proof (rule single_phase [OF assms(1,2,4,5), where P = "unchanged n a" and R = "\<lambda>_ _. True"])
  fix i w1
  assume i: "i < n" "good w1" "unchanged n a (abs w1)"
  have "unchanged n a (spec_step (c i) (abs w1))"
    by (rule unchanged_trans [OF i(3) unchanged_step]) (rule assms(7) [OF i(1)])
  then show "runs (t i) w1 (\<lambda>_ w2. good w2 \<and> unchanged n a (abs w2) \<and> True \<and> (\<forall>j < n. True \<longrightarrow> True))"
    by (intro t [OF i(1,2)]) simp
qed (use assms in simp_all)

lemma del_phase:
  assumes "complete sched (replicate n 1)" and "good w" and "unchanged n a (abs w)" and "n < 2 ^ 64"
    and "\<And>w1. \<lbrakk>good w1; unchanged n a (abs w1)\<rbrakk> \<Longrightarrow> Q () w1"
  shows "runs (bench_del C n sched) w Q"
  unfolding bench_del_def
  by (rule command_phase [OF assms(1-3), where c = "\<lambda>i. Del (bench_key i)" and t = "\<lambda>i. must (client_del C (bench_key i))"])
    (use assms in \<open>auto simp: in_bench_keys runs_must plain_bench intro!: vc_del\<close>)

lemma zrmv_phase:
  assumes "complete sched (replicate n 1)" and "good w" and "unchanged n a (abs w)" and "n < 2 ^ 64"
    and "\<And>w1. \<lbrakk>good w1; unchanged n a (abs w1)\<rbrakk> \<Longrightarrow> Q () w1"
  shows "runs (bench_zrmv C n sched) w Q"
  unfolding bench_zrmv_def
  by (rule command_phase [OF assms(1-3), where c = "\<lambda>i. Zrmv (bench_zkey i) (bench_member i)"
        and t = "\<lambda>i. must (client_zrmv C (bench_zkey i) (bench_member i))"])
    (use assms in \<open>auto simp: in_bench_keys runs_must plain_bench intro!: vc_zrmv\<close>)

lemma batch_phase:
  assumes "complete sched (replicate (length (chunks 1000 (bench_pairs n))) 1)" and "good w" and "unchanged n a (abs w)"
    and Q: "\<And>w1. \<lbrakk>good w1; unchanged n a (abs w1); \<forall>i < n. sp_kv (abs w1) (bench_key i) \<noteq> None\<rbrakk> \<Longrightarrow> Q () w1"
  shows "runs (bench_batch C E n sched) w Q"
  unfolding bench_batch_def
proof (rule single_phase [OF assms(1,2), where P = "unchanged n a"
      and R = "\<lambda>i b. \<forall>k \<in> keys_of (chunks 1000 (bench_pairs n) ! i). sp_kv b k \<noteq> None"
      and t = "\<lambda>i. must (client_batch C E (chunks 1000 (bench_pairs n) ! i))"])
  let ?cs = "chunks 1000 (bench_pairs n)"
  have cs: "concat ?cs = bench_pairs n" by (rule concat_chunks) simp
  fix i w1
  assume i: "i < length ?cs" "good w1" "unchanged n a (abs w1)"
  let ?c = "?cs ! i"
  have "set ?c \<subseteq> set (concat ?cs)" using i(1) nth_mem by fastforce
  then have sub: "keys_of ?c \<subseteq> bench_keys n" unfolding cs by (rule keys_of_pairs)
  have kept: "(\<forall>k \<in> keys_of ?c. (sp_kv (abs w1) ++ batch_map ?c) k \<noteq> None) \<and>
      (\<forall>j < length ?cs. (\<forall>k \<in> keys_of (?cs ! j). sp_kv (abs w1) k \<noteq> None) \<longrightarrow>
        (\<forall>k \<in> keys_of (?cs ! j). (sp_kv (abs w1) ++ batch_map ?c) k \<noteq> None))"
    by (simp only: map_add_None batch_map_None) blast
  have same: "unchanged n a b" if "sp_kv b = sp_kv (abs w1) ++ batch_map ?c"
    "\<forall>k. k \<notin> keys_of ?c \<longrightarrow> sp_zs b k = sp_zs (abs w1) k" for b
    by (rule unchanged_trans [OF i(3) unchanged_batch [OF that sub]])
  show "runs (must (client_batch C E ?c)) w1
      (\<lambda>_ w2. good w2 \<and> unchanged n a (abs w2) \<and> (\<forall>k \<in> keys_of ?c. sp_kv (abs w2) k \<noteq> None) \<and>
        (\<forall>j < length ?cs. (\<forall>k \<in> keys_of (?cs ! j). sp_kv (abs w1) k \<noteq> None) \<longrightarrow>
          (\<forall>k \<in> keys_of (?cs ! j). sp_kv (abs w2) k \<noteq> None)))"
    unfolding runs_must
  proof (rule vc_batch [OF i(2)])
    fix w2
    assume w2: "good w2" and eq: "sp_kv (abs w2) = sp_kv (abs w1) ++ batch_map ?c"
      and "\<And>k. k \<notin> keys_of ?c \<Longrightarrow> sp_zs (abs w2) k = sp_zs (abs w1) k"
    then have "unchanged n a (abs w2)" using same by simp
    with w2 kept show "case Inr () of Inl _ \<Rightarrow> False | Inr _ \<Rightarrow> good w2 \<and> unchanged n a (abs w2) \<and>
        (\<forall>k \<in> keys_of ?c. sp_kv (abs w2) k \<noteq> None) \<and>
        (\<forall>j < length ?cs. (\<forall>k \<in> keys_of (?cs ! j). sp_kv (abs w1) k \<noteq> None) \<longrightarrow>
          (\<forall>k \<in> keys_of (?cs ! j). sp_kv (abs w2) k \<noteq> None))"
      unfolding eq sum.case by blast
  qed
next
  let ?cs = "chunks 1000 (bench_pairs n)"
  have cs: "concat ?cs = bench_pairs n" by (rule concat_chunks) simp
  fix w1
  assume w1: "good w1" "unchanged n a (abs w1)"
    and all: "\<forall>i < length ?cs. \<forall>k \<in> keys_of (?cs ! i). sp_kv (abs w1) k \<noteq> None"
  have "sp_kv (abs w1) (bench_key i) \<noteq> None" if "i < n" for i
  proof -
    have "\<lparr>ir_key = bench_key i, ir_value = replicate 1024 CHR ''a''\<rparr> \<in> set (concat ?cs)"
      unfolding cs using that by (simp add: bench_pairs_def)
    then obtain c where "c \<in> set ?cs" "\<lparr>ir_key = bench_key i, ir_value = replicate 1024 CHR ''a''\<rparr> \<in> set c"
      by auto
    then obtain j where "j < length ?cs" "\<lparr>ir_key = bench_key i, ir_value = replicate 1024 CHR ''a''\<rparr> \<in> set (?cs ! j)"
      by (metis in_set_conv_nth)
    moreover from this(2) have "bench_key i \<in> keys_of (?cs ! j)" by (force simp: keys_of_def)
    ultimately show ?thesis using all by blast
  qed
  then show "Q () w1" using w1 by (intro Q) simp_all
qed (use assms in simp_all)

lemma list_phase:
  assumes "good w" and "\<forall>i < n. sp_kv (abs w) (bench_key i) \<noteq> None"
    and Q: "\<And>w1. \<lbrakk>good w1; abs w1 = abs w\<rbrakk> \<Longrightarrow> Q () w1"
  shows "runs (bench_list C E n) w Q"
proof -
  let ?keys = "map bench_key [0..<n]"
  have "distinct ?keys" by (simp add: distinct_map inj_on_def bench_key_inject)
  note chunk = distinct_chunk [OF this, where n = 1000]
  have "runs (bench_list C E n) w (\<lambda>_ w1. good w1 \<and> abs w1 = abs w)"
    unfolding bench_list_def
  proof (rule runs_each_inv [where I = "\<lambda>_ w1. good w1 \<and> abs w1 = abs w"])
    fix front c rest w1
    assume cs: "chunks 1000 ?keys = front @ c # rest" and w1: "good w1 \<and> abs w1 = abs w"
    then have c: "c \<in> set (chunks 1000 ?keys)" by simp
    have present: "\<forall>k \<in> set c. sp_kv (abs w1) k \<noteq> None"
      using chunk [OF c] assms(2) w1 by auto
    moreover have "hits (sp_kv (abs w1)) c = length c"
      by (rule hits_all [OF _ present]) (use chunk [OF c] in simp)
    moreover have "hd c \<in> set c" using chunks_nonempty [OF c] by simp
    ultimately show "runs (and_then (must (client_list C E c)) (\<lambda>vals. client_expect (length vals) (length c))) w1
        (\<lambda>_ w1. good w1 \<and> abs w1 = abs w)"
      unfolding runs_and_then runs_expect using w1 by (intro vc_must_list [of _ "hd c"]) auto
  qed (simp add: assms(1))
  then show ?thesis by (rule runs_mono) (use Q in simp)
qed

lemma zadd_phase:
  assumes "complete sched (replicate n 1)" and "good w" and "unchanged n a (abs w)" and "n < 2 ^ 64"
    and "\<And>w1. \<lbrakk>good w1; unchanged n a (abs w1); \<forall>i < n. sp_zs (abs w1) (bench_zkey i) \<noteq> None\<rbrakk> \<Longrightarrow> Q () w1"
  shows "runs (bench_zadd C E n sched) w Q"
  unfolding bench_zadd_def
proof (rule single_phase [OF assms(1,2), where P = "unchanged n a" and R = "\<lambda>i b. sp_zs b (bench_zkey i) \<noteq> None"
      and t = "\<lambda>i. must (client_zadd C E (bench_zkey i) (word_of_nat i) (bench_member i))"])
  fix i w1
  assume i: "i < n" "good w1" "unchanged n a (abs w1)"
  let ?c = "Zadd (bench_zkey i) (Score_Value (word_of_nat i) (bench_member i))"
  have "unchanged n a (spec_step ?c (abs w1))"
    by (rule unchanged_trans [OF i(3) unchanged_step]) (simp add: in_bench_keys i(1))
  moreover have "plain_key (bench_zkey i)" by (rule plain_bench) (use i(1) assms(4) in simp)
  ultimately show "runs (must (client_zadd C E (bench_zkey i) (word_of_nat i) (bench_member i))) w1
      (\<lambda>_ w2. good w2 \<and> unchanged n a (abs w2) \<and> sp_zs (abs w2) (bench_zkey i) \<noteq> None \<and>
        (\<forall>j < n. sp_zs (abs w1) (bench_zkey j) \<noteq> None \<longrightarrow> sp_zs (abs w2) (bench_zkey j) \<noteq> None))"
    unfolding runs_must using i(2) by (intro vc_zadd) (auto simp: zs_put_def)
qed (use assms in \<open>simp_all add: nth_enumerate_eq\<close>)

lemma zrange_phase:
  assumes "complete sched (replicate n 1)" and "good w" and "n < 2 ^ 64"
    and "\<forall>i < n. sp_zs (abs w) (bench_zkey i) \<noteq> None"
    and "\<And>w1. \<lbrakk>good w1; abs w1 = abs w\<rbrakk> \<Longrightarrow> Q () w1"
  shows "runs (bench_zrange C E n sched) w Q"
  unfolding bench_zrange_def
proof (rule single_phase [OF assms(1,2), where P = "\<lambda>b. b = abs w" and R = "\<lambda>_ _. True"
      and t = "\<lambda>i. ignore (must (client_zrange C E (bench_zkey i) (word_of_nat i) (word_of_nat i)))"])
  fix i w1
  assume i: "i < n" "good w1" "abs w1 = abs w"
  moreover have "plain_key (bench_zkey i)" by (rule plain_bench) (use i(1) assms(3) in simp)
  moreover obtain m where "sp_zs (abs w1) (bench_zkey i) = Some m" using assms(4) i(1,3) by auto
  ultimately show "runs (ignore (must (client_zrange C E (bench_zkey i) (word_of_nat i) (word_of_nat i)))) w1
      (\<lambda>_ w2. good w2 \<and> abs w2 = abs w \<and> True \<and> (\<forall>j < n. True \<longrightarrow> True))"
    unfolding ignore_def runs_and_then runs_must runs_finish by (intro vc_zrange) simp_all
qed (use assms in simp_all)

lemma cleanup_phase:
  assumes "complete sched (replicate n 2)" and "good w" and "unchanged n a (abs w)" and "n < 2 ^ 64"
    and Q: "\<And>w1. \<lbrakk>good w1; unchanged n a (abs w1);
      \<forall>k \<in> bench_keys n. sp_kv (abs w1) k = None \<and> sp_zs (abs w1) k = None\<rbrakk> \<Longrightarrow> Q () w1"
  shows "runs (bench_cleanup C n sched) w Q"
  unfolding bench_cleanup_def
proof (rule runs_spawn_join [where I = "\<lambda>front w1. good w1 \<and> unchanged n a (abs w1) \<and>
      (\<forall>i < n. \<forall>j < front i. let k = [bench_key i, bench_zkey i] ! j in
        sp_kv (abs w1) k = None \<and> sp_zs (abs w1) k = None)"])
  let ?ts = "map (\<lambda>i. [must (client_del C (bench_key i)), must (client_del C (bench_zkey i))]) [0..<n]"
  have "map length ?ts = replicate n 2" by (rule nth_equalityI) (simp_all add: comp_def)
  with assms(1) show "complete sched (map length ?ts)" by simp
  fix front i w1
  assume i: "i < length ?ts" "front i < length (?ts ! i)"
    and inv: "good w1 \<and> unchanged n a (abs w1) \<and> (\<forall>i < n. \<forall>j < front i. let k = [bench_key i, bench_zkey i] ! j in
        sp_kv (abs w1) k = None \<and> sp_zs (abs w1) k = None)"
  let ?k = "[bench_key i, bench_zkey i] ! front i"
  have "i < n" "front i = 0 \<or> front i = 1" using i by auto
  then have task: "?ts ! i ! front i = must (client_del C ?k)" and "plain_key ?k" and "?k \<in> bench_keys n"
    using plain_bench [of i] assms(4) by (auto simp: in_bench_keys)
  moreover from this(3) have "unchanged n a (spec_step (Del ?k) (abs w1))"
    using inv unchanged_trans [OF _ unchanged_step] by (metis cmd_key.simps(2))
  ultimately show "runs (?ts ! i ! front i) w1 (\<lambda>_ w1. good w1 \<and> unchanged n a (abs w1) \<and>
      (\<forall>l < n. \<forall>j < (front(i := Suc (front i))) l. let k = [bench_key l, bench_zkey l] ! j in
        sp_kv (abs w1) k = None \<and> sp_zs (abs w1) k = None))"
    unfolding task runs_must using inv
    by (intro vc_del) (auto simp: Let_def less_Suc_eq split: if_splits)
next
  let ?ts = "map (\<lambda>i. [must (client_del C (bench_key i)), must (client_del C (bench_zkey i))]) [0..<n]"
  fix front w1
  assume inv: "good w1 \<and> unchanged n a (abs w1) \<and> (\<forall>i < n. \<forall>j < front i. let k = [bench_key i, bench_zkey i] ! j in
        sp_kv (abs w1) k = None \<and> sp_zs (abs w1) k = None)"
    and all: "\<forall>i < length ?ts. front i = length (?ts ! i)"
  have "sp_kv (abs w1) k = None \<and> sp_zs (abs w1) k = None" if "i < n" "k = bench_key i \<or> k = bench_zkey i" for i k
  proof -
    have "front i = 2" using all that(1) by simp
    then show ?thesis using inv that by (auto simp: Let_def less_2_cases_iff)
  qed
  then show "Q () w1" using inv by (intro Q) (auto simp: bench_keys_def)
qed (use assms in simp_all)

lemma benchmark_runs:
  assumes "good w" and "n < 2 ^ 64" and "schedules_ok n sched"
  shows "runs (benchmark C E n sched) w (\<lambda>_ w1. good w1 \<and> unchanged n (abs w) (abs w1) \<and>
    (\<forall>k \<in> bench_keys n. sp_kv (abs w1) k = None \<and> sp_zs (abs w1) k = None))"
proof -
  from assms(3) have s: "complete (sched 0) (replicate n 1)" "complete (sched 1) (replicate n 1)"
    "complete (sched 2) (replicate n 1)" "complete (sched 4) (replicate n 1)" "complete (sched 5) (replicate n 1)"
    "complete (sched 6) (replicate n 1)" "complete (sched 7) (replicate n 2)"
    "complete (sched 3) (replicate (length (chunks 1000 (bench_pairs n))) 1)"
    by (simp_all add: schedules_ok_def)
  show ?thesis
    unfolding benchmark_def runs_and_then
    by (rule add_phase [OF s(1) assms(1) unchanged_refl], rule query_phase [OF s(2) _ assms(2)], assumption, assumption,
        rule del_phase [OF s(3) _ _ assms(2)], assumption, simp only:,
        rule batch_phase [OF s(8)], assumption, assumption, rule list_phase, assumption, assumption,
        rule zadd_phase [OF s(4) _ _ assms(2)], assumption, simp only:,
        rule zrange_phase [OF s(5) _ assms(2)], assumption, assumption,
        rule zrmv_phase [OF s(6) _ _ assms(2)], assumption, simp only:,
        rule cleanup_phase [OF s(7) _ _ assms(2)], assumption, assumption, simp)
qed

end

end
