(* ===== verification/Sample_Cluster.thy ===== *)
theory Sample_Cluster
  imports Cluster_Bulk
begin

text \<open>
  A concrete environment and a concrete cluster of two nodes, for the witnesses: a simple
  self-delimiting encoding in the place of \<open>serde_json\<close>, addresses that parse to the host they
  name, and two fresh nodes that have joined through \<open>update_peers\<close>.
\<close>

section \<open>An encoding of the bodies\<close>

text \<open>
  A list of fields is written field by field: each character after the letter \<open>a\<close>, the letter
  \<open>b\<close> at the end of each field.
\<close>

definition write_fields :: "string list \<Rightarrow> string" where
  "write_fields ss = concat (map (\<lambda>s. concat (map (\<lambda>c. [CHR ''a'', c]) s) @ ''b'') ss)"

fun read_fields :: "string \<Rightarrow> string \<Rightarrow> string list option" where
  "read_fields acc [] = (if acc = [] then Some [] else None)"
| "read_fields acc [x] = (if x = CHR ''b'' then Some [acc] else None)"
| "read_fields acc (x # c # xs) =
     (if x = CHR ''b'' then map_option (Cons acc) (read_fields [] (c # xs))
      else read_fields (acc @ [c]) xs)"

lemma read_fields_field:
  "read_fields acc (concat (map (\<lambda>c. [CHR ''a'', c]) s) @ CHR ''b'' # rest) =
     map_option (Cons (acc @ s)) (read_fields [] rest)"
proof (induction s arbitrary: acc)
  case Nil
  then show ?case by (cases rest) simp_all
next
  case (Cons c s)
  then show ?case by simp
qed

lemma read_write_fields: "read_fields [] (write_fields ss) = Some ss"
  by (induction ss) (simp_all add: write_fields_def read_fields_field)

definition score_field :: "u32 \<Rightarrow> string" where
  "score_field sc = from_utf8_unchecked (to_le_bytes sc)"

definition field_score :: "string \<Rightarrow> u32 option" where
  "field_score s = (case read_u32_le (as_bytes s) of Inl _ \<Rightarrow> None | Inr sc \<Rightarrow> Some sc)"

lemma field_score_field [simp]: "field_score (score_field sc) = Some sc"
  by (simp add: field_score_def score_field_def bytes_simps)

fun insrts_of :: "string list \<Rightarrow> insrt_request list option" where
  "insrts_of [] = Some []"
| "insrts_of [_] = None"
| "insrts_of (k # v # fs) = map_option (Cons \<lparr>ir_key = k, ir_value = v\<rparr>) (insrts_of fs)"

fun score_values_of :: "string list \<Rightarrow> score_value list option" where
  "score_values_of [] = Some []"
| "score_values_of [_] = None"
| "score_values_of (sc # v # fs) =
     Option.bind (field_score sc) (\<lambda>n. map_option (Cons (Score_Value n v)) (score_values_of fs))"

definition insrt_fields :: "insrt_request \<Rightarrow> string list" where
  "insrt_fields r = [ir_key r, ir_value r]"

definition score_value_fields :: "score_value \<Rightarrow> string list" where
  "score_value_fields sv = [score_field (sv_score sv), sv_value sv]"

lemma insrts_of_fields: "insrts_of (concat (map insrt_fields rs)) = Some rs"
  by (induction rs) (simp_all add: insrt_fields_def)

lemma score_values_of_fields: "score_values_of (concat (map score_value_fields svs)) = Some svs"
  by (induction svs) (simp_all add: score_value_fields_def)

definition single :: "'a list option \<Rightarrow> 'a option" where
  "single xs = (case xs of Some [x] \<Rightarrow> Some x | _ \<Rightarrow> None)"

fun score_range_of :: "string list \<Rightarrow> score_range option" where
  "score_range_of [lo, hi] =
     Option.bind (field_score lo) (\<lambda>a. map_option (\<lambda>b. \<lparr>min_score = a, max_score = b\<rparr>) (field_score hi))"
| "score_range_of _ = None"

fun cluster_file_of :: "string list \<Rightarrow> update_cluster option" where
  "cluster_file_of (i # hosts) = map_option (\<lambda>n. \<lparr>uc_hosts = hosts, uc_index = n\<rparr>) (field_score i)"
| "cluster_file_of [] = None"

definition sample_env :: env where
  "sample_env = \<lparr>
     env_parse_addr = (\<lambda>a. Some (take (length a - length peer_port) a)),
     env_init_dirs = None,
     env_open_db = (\<lambda>_. None),
     js_read_insrt = (\<lambda>s. single (Option.bind (read_fields [] s) insrts_of)),
     js_read_insrts = (\<lambda>s. Option.bind (read_fields [] s) insrts_of),
     js_read_keys = read_fields [],
     js_read_score_value = (\<lambda>s. single (Option.bind (read_fields [] s) score_values_of)),
     js_read_score_range = (\<lambda>s. Option.bind (read_fields [] s) score_range_of),
     js_read_score_values = (\<lambda>s. Option.bind (read_fields [] s) score_values_of),
     js_read_cluster = (\<lambda>s. Option.bind (read_fields [] s) cluster_file_of),
     js_write_insrt = (\<lambda>r. write_fields (insrt_fields r)),
     js_write_insrts = (\<lambda>rs. write_fields (concat (map insrt_fields rs))),
     js_write_keys = write_fields,
     js_write_score_value = (\<lambda>sv. write_fields (score_value_fields sv)),
     js_write_score_range = (\<lambda>r. write_fields [score_field (min_score r), score_field (max_score r)]),
     js_write_score_values = (\<lambda>svs. write_fields (concat (map score_value_fields svs)))\<rparr>"

lemma sample_env_ok: "env_ok sample_env"
  using insrts_of_fields [of "[r]" for r] score_values_of_fields [of "[sv]" for sv]
  by (simp add: env_ok_def sample_env_def read_write_fields single_def insrts_of_fields
      score_values_of_fields)

lemma sample_parse: "env_parse_addr sample_env (p @ peer_port) = Some p"
  by (simp add: sample_env_def)

section \<open>Two nodes\<close>

definition sample_hosts :: "string list" where
  "sample_hosts = [''n1'', ''n2'']"

type_synonym sample_storage =
  "(string \<Rightarrow> string option, string \<Rightarrow> u32 option, string \<Rightarrow> nat option, (bytes \<times> bytes) list) storage"

definition sample_node :: "nat \<Rightarrow> sample_storage" where
  "sample_node i = fst (update_peers sample_env sample_hosts (word_of_nat (Suc i)) (replicate 32 True)
     (new_storage ref_libs [] []))"

definition sample_world :: "sample_storage world" where
  "sample_world = \<lparr>w_node = (\<lambda>h. if h = ''n1'' then sample_node 0 else sample_node 1),
     w_fate = (\<lambda>_. Delivered), w_calls = 0, w_file = (\<lambda>_. None),
     w_disk = (\<lambda>_. Write_succeeds), w_connects = (\<lambda>_. replicate 32 True), w_loaders = (\<lambda>_. 0),
     w_progress = (\<lambda>_. [])\<rparr>"

lemma count_list_replicate_same: "count_list (replicate n x) x = n"
  by (induction n) simp_all

lemma sample_joined:
  "update_peers sample_env sample_hosts (word_of_nat (Suc i)) (replicate 32 True)
     (new_storage ref_libs [] []) = (sample_node i, Inr ())"
proof -
  have "\<exists>qs. pool_new (env_parse_addr sample_env) sample_hosts (replicate 32 True) = Some (Inr qs)"
    by (subst pool_new_returns) (simp_all add: sample_parse sample_hosts_def count_list_replicate_same)
  then show ?thesis by (auto simp: sample_node_def update_peers_def Let_def)
qed

lemma sample_node_ok: "i < 2 \<Longrightarrow> node_ok ref_libs sample_hosts i (sample_node i)"
  by (rule join_node_ok [OF sample_joined])
    (simp_all add: sample_parse sample_hosts_def new_storage_ok ref_libs_ok)

lemma sample_world_ok: "cluster_ok ref_libs sample_hosts sample_world" "net_ok sample_world"
  using sample_node_ok [of 0] sample_node_ok [of 1]
  by (auto simp: cluster_ok_def net_ok_def sample_world_def sample_hosts_def less_Suc_eq)

lemma sample_node_fields:
  "st_kv (sample_node i) = Map.empty" "st_zsets (sample_node i) = Map.empty"
  by (simp_all add: sample_node_def update_peers_def new_storage_def ref_defs Let_def
      split: option.split sum.split)

lemma sample_world_abs: "cluster_abs ref_libs sample_hosts sample_world = spec_empty"
  by (simp add: cluster_abs_def spec_empty_def sample_world_def kv_of_def zs_of_def
      sample_node_fields fun_eq_iff) (simp add: ref_defs)

end
