(* ===== verification/Hash_Samples.thy ===== *)
theory Hash_Samples
  imports Hashing
begin

text \<open>
  The hash of the key \<open>a\<close>, as a request handler computes it (of the string) and as the loader
  of \<open>handle_init\<close> computes it (of the bytes), evaluated round by round. The two differ, and
  so do the shards they select among two nodes.
\<close>

lemma str_a_rounds:
  "sip_round (0x736f6d6570736575, 0x646f72616e646f6d, 0x6c7967656e657261, 0x7665646279749a12) =
     (0x6594879655a759dc, 0xf8651ba6cbcaf7c7, 0x3b1484e21c71bdd2, 0x33fb3e9917778e4a)"
  "sip_round (0x6794879655a7a6bd, 0xf8651ba6cbcaf7c7, 0x3b1484e21c71bd2d, 0x33fb3e9917778e4a) =
     (0x730972911d9d1bc9, 0x9f15c2ab706255e5, 0xb373acff6b9d3dbf, 0xf29ec6fe0c172913)"
  "sip_round (0x730972911d9d1bc9, 0x9f15c2ab706255e5, 0xb373acff6b9d3dbf, 0xf29ec6fe0c172913) =
     (0xeeebf19870c6c988, 0xe63d41a9ba617d8a, 0x3ef8291e505ccf2e, 0x13a0256af94ad407)"
  "sip_round (0xeeebf19870c6c988, 0xe63d41a9ba617d8a, 0x3ef8291e505ccf2e, 0x13a0256af94ad407) =
     (0xa31afed672c9e3d7, 0xc7a85ba579ea4532, 0x4e40bf0acfb45297, 0x5b694ac060671d81)"
  by (simp_all add: sip_mix_def rotate_left_def)

lemma hash_str_a: "hash_key (Hash_str ''a'') = 8186225505942432243"
  by (simp add: hash_key_def siphash13_def sip_block_def sip_init_def as_bytes_def usize_le_bytes_def
      upt_conv_Cons str_a_rounds del: sip_round.simps)

lemma slice_a_rounds:
  "sip_round (0x736f6d6570736575, 0x646f72616e646f6d, 0x6c7967656e657261, 0x7465646279746572) =
     (0x639487965a8a837c, 0xfe651ba6cbca2367, 0x3b1450421a71bdd2, 0x35e4d2e22c5a14ea)"
  "sip_round (0x639487965a8a837d, 0xfe651ba6cbca2367, 0x3b1450421a71bdd2, 0x3ce4d2e22c5a148b) =
     (0xcb6fb662b43a91f6, 0xce0e59181b55ae9f, 0xa9042b853a869d68, 0x24a5fe7f630e3297)"
  "sip_round (0xc26fb662b43a9197, 0xce0e59181b55ae9f, 0xa9042b853a869d97, 0x24a5fe7f630e3297) =
     (0x36589413f820405, 0x3127c29264363c9f, 0x17d88a2529073615, 0x2230693faee47eac)"
  "sip_round (0x36589413f820405, 0x3127c29264363c9f, 0x17d88a2529073615, 0x2230693faee47eac) =
     (0xf6ef9e24ddd4e2c4, 0x84d32ed7116c2ff, 0x3c175b4106e7faba, 0x46fab6d603fe842f)"
  "sip_round (0xf6ef9e24ddd4e2c4, 0x84d32ed7116c2ff, 0x3c175b4106e7faba, 0x46fab6d603fe842f) =
     (0x84afb7ad8e060925, 0x2212bc2f280e7171, 0xa19ac3b3dc739147, 0xb99e6e8a8c60b1a7)"
  by (simp_all add: sip_mix_def rotate_left_def)

lemma hash_slice_a: "hash_key (Hash_slice (as_bytes ''a'')) = 13743199064115861684"
  by (simp add: hash_key_def siphash13_def sip_block_def sip_init_def as_bytes_def usize_le_bytes_def
      upt_conv_Cons slice_a_rounds del: sip_round.simps)

lemma shards_of_a:
  "shard_u32 (Hash_str ''a'') 2 = 1" "shard_u32 (Hash_slice (as_bytes ''a'')) 2 = 0"
  by (simp_all add: shard_u32_def get_shard_def hash_str_a hash_slice_a)

end
