(* ===== verification/Client_Facts.thy ===== *)
theory Client_Facts
  imports Benchmark Sample_Cluster Hash_Samples
begin

text \<open>
  The properties of the client (theories \<open>Client\<close>, \<open>Acceptance\<close>, \<open>Benchmark\<close>) against the
  modelled cluster, with their witnesses, and the endless benchmark of \<open>batch-forever.rs\<close>.
\<close>

section \<open>The endless benchmark\<close>

text \<open>The function \<open>batch\<close> of \<open>batch-forever.rs\<close> is a copy of the one of \<open>client.rs\<close>.\<close>

definition forever_batch :: "'w client \<Rightarrow> env \<Rightarrow> insrt_request list \<Rightarrow> ('w, unit unit_result) script" where
  "forever_batch C E kvs = client_batch C E kvs"

definition forever_chunk :: "insrt_request list" where
  "forever_chunk = map (\<lambda>i. \<lparr>ir_key = repeat_str 16 (key_name i), ir_value = replicate 1024 CHR ''a''\<rparr>) [0..<1000]"

text \<open>
  A turn of the loop of \<open>batch-forever.rs\<close>: a permit is taken, and the spawned task sends the
  batch and gives the permit back, unless it panicked before. No turn is possible without a
  permit (\<open>None\<close>). The tasks are run one after the other.
\<close>

definition forever_turn :: "'w client \<Rightarrow> env \<Rightarrow> nat \<times> 'w \<Rightarrow> (nat \<times> 'w) option" where
  "forever_turn C E x =
     (case x of (permits, w) \<Rightarrow>
        if permits = 0 then None
        else (case forever_batch C E forever_chunk w of
                (w1, Inl _) \<Rightarrow> Some (permits - 1, w1)
              | (w1, Inr _) \<Rightarrow> Some (permits - 1 + 1, w1)))"

fun forever_turns :: "'w client \<Rightarrow> env \<Rightarrow> nat \<Rightarrow> nat \<times> 'w \<Rightarrow> (nat \<times> 'w) option" where
  "forever_turns C E 0 x = Some x"
| "forever_turns C E (Suc k) x = Option.bind (forever_turn C E x) (forever_turns C E k)"

section \<open>Facts\<close>

lemma forever_chunk_pairs: "forever_chunk = bench_pairs 1000"
  by (simp only: forever_chunk_def bench_pairs_def bench_key_def)

lemma batch_map_idem: "(m ++ batch_map kvs) ++ batch_map kvs = m ++ batch_map kvs"
  by (simp add: map_add_assoc [symmetric] map_add_def fun_eq_iff split: option.split)

lemma forever_turn_served:
  assumes "cluster_serves L E hosts i address uri w" and "0 < n"
  shows "\<exists>w1. forever_turn (client_of L E (hosts ! i) address uri) E (n, w) = Some (n, w1) \<and>
    cluster_serves L E hosts i address uri w1 \<and>
    sp_kv (cluster_abs L hosts w1) = sp_kv (cluster_abs L hosts w) ++ batch_map (bench_pairs 1000)"
  using cluster_client.batch [OF assms(1), of "bench_pairs 1000"] assms(2)
  by (auto simp: runs_iff forever_turn_def forever_batch_def forever_chunk_pairs)

lemma forever_turns_served:
  assumes "cluster_serves L E hosts i address uri w" and "0 < n"
  shows "\<exists>w1. forever_turns (client_of L E (hosts ! i) address uri) E (Suc k) (n, w) = Some (n, w1) \<and>
    cluster_serves L E hosts i address uri w1 \<and>
    sp_kv (cluster_abs L hosts w1) = sp_kv (cluster_abs L hosts w) ++ batch_map (bench_pairs 1000)"
  using assms(1)
proof (induction k arbitrary: w)
  case 0
  then show ?case using forever_turn_served [OF 0 assms(2)] by auto
next
  case (Suc k)
  from forever_turn_served [OF Suc.prems assms(2)] obtain w1 where
    w1: "forever_turn (client_of L E (hosts ! i) address uri) E (n, w) = Some (n, w1)"
    "cluster_serves L E hosts i address uri w1"
    "sp_kv (cluster_abs L hosts w1) = sp_kv (cluster_abs L hosts w) ++ batch_map (bench_pairs 1000)"
    by blast
  from Suc.IH [OF w1(2)] w1 show ?case by (auto simp: batch_map_idem)
qed

text \<open>A server that answers nothing.\<close>

lemma forever_turn_dead:
  assumes "\<And>rq w. snd (cl_send C rq w) = None"
  shows "\<exists>w1. forever_turn C E (Suc n, w) = Some (n, w1)"
proof -
  have "\<exists>w1 e. client_batch C E kvs w = (w1, Inl e)" for kvs
    using assms
    by (auto simp: client_batch_def and_then_def client_request_def split: option.split prod.split)
      (metis option.distinct(1) snd_conv)+
  then show ?thesis
    by (simp add: forever_turn_def forever_batch_def split: prod.split sum.split) (metis Inl_Inr_False Pair_inject)
qed

lemma forever_turns_dead:
  assumes "\<And>rq w. snd (cl_send C rq w) = None"
  shows "\<exists>w1. forever_turns C E n (n, w) = Some (0, w1)" and "forever_turns C E (Suc n) (n, w) = None"
proof (induction n arbitrary: w)
  case (Suc n)
  {
    case 1
    from forever_turn_dead [where C = C, OF assms] Suc.IH(1) show ?case by (metis bind.bind_lunit forever_turns.simps(2))
  next
    case 2
    from forever_turn_dead [where C = C, OF assms] Suc.IH(2) show ?case by (metis bind.bind_lunit forever_turns.simps(2))
  }
qed (simp_all add: forever_turn_def)

section \<open>A client of the sample cluster\<close>

definition strip_address :: "string \<Rightarrow> string \<Rightarrow> string option" where
  "strip_address address url =
     (if take (length address) url = address then Some (drop (length address) url) else None)"

lemma strip_address_laws: "uri_laws (client_of L E h address (strip_address address))"
  by (simp add: uri_laws_def client_of_def strip_address_def)

lemma sample_serves:
  "i < 2 \<Longrightarrow> cluster_serves ref_libs sample_env sample_hosts i ''http://n'' (strip_address ''http://n'') sample_world"
  by (simp add: cluster_serves_def ref_libs_ok sample_env_ok sample_world_ok strip_address_laws)
    (simp add: sample_hosts_def)

lemma sample_owner: "owner_index sample_hosts ''a'' = 1"
  by (simp add: owner_index_def sample_hosts_def hash_str_a flip: numeral_2_eq_2)

section \<open>Properties\<close>

text \<open>
  The acceptance test of the client passes at every node of a well-configured cluster whose
  network delivers every call, on any contents that have no value under \<open>key100\<close> to \<open>key199\<close> and
  no sorted set \<open>zset\<close>: no \<open>unwrap\<close> and no \<open>expect\<close> in it panics, and it leaves its hundred
  pairs, removes \<open>hello\<close> and \<open>zset\<close>, and changes no other value.
\<close>

theorem acceptance_test_passes:
  assumes "cluster_serves L E hosts i address uri w" and "test_ready (cluster_abs L hosts w)"
  shows "\<exists>w1. acceptance_test (client_of L E (hosts ! i) address uri) E w = (w1, Inr ()) \<and>
    cluster_ok L hosts w1 \<and>
    sp_kv (cluster_abs L hosts w1) =
      ((sp_kv (cluster_abs L hosts w))(''hello'' := None) ++ batch_map test_pairs)(''zset'' := None) \<and>
    (\<forall>k. k \<notin> keys_of test_pairs \<longrightarrow> sp_zs (cluster_abs L hosts w1) k =
      (if k = ''hello'' \<or> k = ''zset'' then None else sp_zs (cluster_abs L hosts w) k))"
  using cluster_client.acceptance_runs [OF assms] by (auto simp: runs_iff cluster_serves_def)

theorem acceptance_test_passes_witness:
  "snd (acceptance_test (client_of ref_libs sample_env ''n2'' ''http://n'' (strip_address ''http://n'')) sample_env
     sample_world) = Inr ()"
proof -
  have "test_ready (cluster_abs ref_libs sample_hosts sample_world)"
    by (simp add: sample_world_abs spec_empty_def test_ready_def)
  from acceptance_test_passes [OF sample_serves [of 1] this] show ?thesis
    by (auto simp: sample_hosts_def)
qed

text \<open>
  C3. The whole of the client's \<open>main\<close> passes, its benchmarks included, for every number of keys
  and however the requests of the spawned tasks interleave, and the benchmarks leave nothing
  behind: every key they used is neither a value nor a sorted set afterwards.
\<close>

theorem client_main_passes:
  assumes "cluster_serves L E hosts i address uri w" and "test_ready (cluster_abs L hosts w)"
    and "n < 2 ^ 64" and "schedules_ok n sched"
  shows "\<exists>w1. client_main (client_of L E (hosts ! i) address uri) E n sched w = (w1, Inr ()) \<and>
    cluster_ok L hosts w1 \<and>
    sp_kv (cluster_abs L hosts w1) = (\<lambda>k. if k \<in> bench_keys n then None else
      (((sp_kv (cluster_abs L hosts w))(''hello'' := None) ++ batch_map test_pairs)(''zset'' := None)) k) \<and>
    (\<forall>k \<in> bench_keys n. sp_zs (cluster_abs L hosts w1) k = None)"
proof -
  let ?C = "client_of L E (hosts ! i) address uri"
  have bench: "runs (benchmark ?C E n sched) w1 (\<lambda>_ w2. cluster_serves L E hosts i address uri w2 \<and>
      unchanged n (cluster_abs L hosts w1) (cluster_abs L hosts w2) \<and>
      (\<forall>k \<in> bench_keys n. sp_kv (cluster_abs L hosts w2) k = None \<and> sp_zs (cluster_abs L hosts w2) k = None))"
    if "cluster_serves L E hosts i address uri w1" for w1
    by (rule cluster_client.benchmark_runs [OF that assms(3,4)])
  have "runs (client_main ?C E n sched) w (\<lambda>_ w1. cluster_ok L hosts w1 \<and>
    sp_kv (cluster_abs L hosts w1) = (\<lambda>k. if k \<in> bench_keys n then None else
      (((sp_kv (cluster_abs L hosts w))(''hello'' := None) ++ batch_map test_pairs)(''zset'' := None)) k) \<and>
    (\<forall>k \<in> bench_keys n. sp_zs (cluster_abs L hosts w1) k = None))"
    unfolding client_main_def runs_and_then
    by (rule runs_mono [OF cluster_client.acceptance_runs [OF assms(1,2)]], elim conjE,
        rule runs_mono [OF bench], assumption)
      (auto simp: unchanged_def cluster_serves_def fun_eq_iff)
  then show ?thesis by (auto simp: runs_iff)
qed

definition sample_schedule :: "nat \<Rightarrow> nat list" where
  "sample_schedule phase = (if phase = 3 then [0] else if phase = 7 then [1, 0, 1, 0] else [1, 0])"

theorem client_main_passes_witness:
  "snd (client_main (client_of ref_libs sample_env ''n1'' ''http://n'' (strip_address ''http://n'')) sample_env
     2 sample_schedule sample_world) = Inr ()"
proof -
  have "test_ready (cluster_abs ref_libs sample_hosts sample_world)"
    by (simp add: sample_world_abs spec_empty_def test_ready_def)
  moreover have "length (chunks 1000 (bench_pairs 2)) = 1"
    by (subst chunks.simps) (subst chunks.simps, simp add: bench_pairs_def)
  then have "schedules_ok 2 sample_schedule"
    by (simp add: schedules_ok_def sample_schedule_def complete_def)
      (simp add: numeral_2_eq_2)
  ultimately show ?thesis
    using client_main_passes [OF sample_serves [of 0], of 2 sample_schedule] by (auto simp: sample_hosts_def)
qed

text \<open>
  Also, a range query with the ends the wrong way round, on an existing sorted set, panics in the
  client when its node owns the key, because the handler has panicked and the connection is
  closed, and is an error the client returns when another node owns it.
\<close>

theorem client_backward_range:
  assumes "cluster_serves L E hosts i address uri w" and "plain_key k" and "hi < lo"
    and "sp_zs (cluster_abs L hosts w) k \<noteq> None"
  shows "snd (client_zrange (client_of L E (hosts ! i) address uri) E k lo hi w) =
    (if owner_index hosts k = i then Inl Unwrap_Failed else Inr (Inl ()))"
proof -
  let ?C = "client_of L E (hosts ! i) address uri"
  let ?r = "\<lparr>min_score = lo, max_score = hi\<rparr>"
  from assms(1) have ok: "libs_ok L" "env_ok E" "cluster_ok L hosts w" "net_ok w" "i < length hosts"
    and uri: "uri_laws ?C" by (simp_all add: cluster_serves_def)
  have "max_score ?r < min_score ?r \<longleftrightarrow> True" using assms(3) by simp
  from handle_zrange_cluster [OF ok, of k ?r, unfolded this if_True] assms(4) obtain w1 where
    "handle_zrange L E (hosts ! i) k (Inr (js_write_score_range E ?r)) w =
      (w1, if owner_index hosts k = i then Inl Range_Start_After_End else Inr (empty_response INTERNAL_SERVER_ERROR))"
    by (auto split: option.splits)
  then show ?thesis
    using uri_path(4) [OF uri, unfolded client_of_simps, OF assms(2)]
    by (simp add: client_zrange_def and_then_def client_request_def serve_def route_handlers finish_def
        empty_response_def del: append_Cons append.simps)
qed

theorem client_backward_range_witness:
  "\<exists>w. snd (client_zrange (client_of ref_libs sample_env ''n2'' ''http://n'' (strip_address ''http://n''))
      sample_env ''a'' 5 3 w) = Inl Unwrap_Failed"
proof -
  have key: "plain_key ''a''" by (simp add: plain_key_def plain_char_def)
  from cluster_client.zadd [OF sample_serves [of 1] key] obtain w where
    "cluster_serves ref_libs sample_env sample_hosts 1 ''http://n'' (strip_address ''http://n'') w"
    "cluster_abs ref_libs sample_hosts w =
      spec_step (Zadd ''a'' (Score_Value 1 ''m'')) (cluster_abs ref_libs sample_hosts sample_world)"
    by (auto simp: runs_iff)
  then have "snd (client_zrange (client_of ref_libs sample_env (sample_hosts ! 1) ''http://n'' (strip_address ''http://n''))
      sample_env ''a'' 5 3 w) = Inl Unwrap_Failed"
    using client_backward_range [OF _ key, of ref_libs sample_env sample_hosts 1 _ _ w 3 5]
    by (simp add: sample_owner zs_put_def)
  then show ?thesis by (auto simp: sample_hosts_def)
qed

text \<open>
  C39. The endless benchmark keeps all its permits while the server answers, and every batch after
  the first changes no value; but a task that panics does not give its permit back, so with a
  server that stops answering the loop waits for ever after as many turns as it has permits.
\<close>

theorem endless_benchmark:
  assumes "cluster_serves L E hosts i address uri w" and "0 < n"
  shows "(\<exists>w1. forever_turns (client_of L E (hosts ! i) address uri) E (Suc k) (n, w) = Some (n, w1) \<and>
      cluster_ok L hosts w1 \<and>
      sp_kv (cluster_abs L hosts w1) = sp_kv (cluster_abs L hosts w) ++ batch_map (bench_pairs 1000)) \<and>
    (\<forall>D w'. (\<forall>rq w. snd (cl_send D rq w) = None) \<longrightarrow>
      (\<exists>w1. forever_turns D E n (n, w') = Some (0, w1)) \<and> forever_turns D E (Suc n) (n, w') = None)"
proof (intro conjI allI impI)
  show "\<exists>w1. forever_turns (client_of L E (hosts ! i) address uri) E (Suc k) (n, w) = Some (n, w1) \<and>
      cluster_ok L hosts w1 \<and>
      sp_kv (cluster_abs L hosts w1) = sp_kv (cluster_abs L hosts w) ++ batch_map (bench_pairs 1000)"
    using forever_turns_served [OF assms, of k] by (auto simp: cluster_serves_def)
qed (simp_all only: forever_turns_dead)

theorem endless_benchmark_witness:
  "\<exists>w1. forever_turns (client_of ref_libs sample_env ''n1'' ''http://n'' (strip_address ''http://n''))
     sample_env 3 (7, sample_world) = Some (7, w1)"
  using endless_benchmark [OF sample_serves [of 0], of 7 2] by (auto simp: sample_hosts_def eval_nat_numeral)

end
