(* ===== verification/Http_Parser.thy ===== *)
theory Http_Parser
  imports Prelude
begin

text \<open>
  The hand-written request parser (\<open>http_parser.rs\<close>, feature \<open>monoio_parser\<close>): a state
  machine that is fed the read buffer of a connection. One round of the loop is
  \<open>parser_round\<close>; the loop itself is a partial function, because a round in a replying state
  does not advance. The reference is an automaton that takes one byte at a time; \<open>feed\<close>
  computes what it computes until it replies, and then never returns.
\<close>

section \<open>State\<close>

definition HTTP_200 :: string where "HTTP_200 = ''HTTP/1.1 200 OK'' @ [CHR 0x0D, CHR 0x0A, CHR 0x0D, CHR 0x0A]"

datatype parser_method = Parser_Unknown | Parser_Get | Parser_Post

datatype parser_state =
    ParseMethod
  | SkipBeforePath nat
  | ParsePath
  | QueryGetKey nat
  | DelGetKey nat
  | ZrmvGetKeyValue nat
  | ReplyInit
  | AddGetBody nat
  | ListGetBody nat
  | BatchGetBody nat
  | AddOrRange
  | ZaddGetKeyAndBody nat
  | ZrangeGetBody nat
  | SkipHeaderNoBody nat
  | ParseBody

record parser_context =
  pc_body :: bytes
  pc_state :: parser_state
  pc_method :: parser_method
  pc_cur_path_component :: bytes
  pc_path :: "string list"

definition parser_new :: parser_context where
  "parser_new = \<lparr>pc_body = [], pc_state = ParseMethod, pc_method = Parser_Unknown,
     pc_cur_path_component = [], pc_path = []\<rparr>"

text \<open>
  The stream: what has been written to it, and how many more writes it takes before one fails
  (\<open>None\<close>: it takes any number). The bytes of a failed write are not tracked.
\<close>

record tcp_stream =
  ts_written :: bytes
  ts_accepts :: "nat option"

definition write_all :: "bytes \<Rightarrow> tcp_stream \<Rightarrow> tcp_stream result" where
  "write_all bs st =
     (case ts_accepts st of
        None \<Rightarrow> Inr (st\<lparr>ts_written := ts_written st @ bs\<rparr>)
      | Some 0 \<Rightarrow> Inl Unwrap_Failed
      | Some (Suc k) \<Rightarrow> Inr (st\<lparr>ts_written := ts_written st @ bs, ts_accepts := Some k\<rparr>))"

section \<open>The loop\<close>

abbreviation ascii :: "char \<Rightarrow> u8" where
  "ascii c \<equiv> word_of_nat (of_char c)"

text \<open>
  A round returns the context, the stream and the next position, or the panic of a write. The
  caller has checked that the position is inside the buffer, so the indexing does not fail.
\<close>

definition parser_round ::
    "bytes \<Rightarrow> nat \<Rightarrow> parser_context \<Rightarrow> tcp_stream \<Rightarrow> parser_context \<times> tcp_stream \<times> nat result" where
  "parser_round buf buf_pos ctx st =
     (case pc_state ctx of
        ParseMethod \<Rightarrow>
          (if buf ! buf_pos = ascii CHR ''P''
           then (ctx\<lparr>pc_method := Parser_Post, pc_state := SkipBeforePath 5\<rparr>, st, Inr (buf_pos + 1))
           else (ctx\<lparr>pc_method := Parser_Get, pc_state := SkipBeforePath 4\<rparr>, st, Inr (buf_pos + 1)))
      | SkipBeforePath skip_count \<Rightarrow>
          (let buf_remain = length buf - buf_pos in
           if skip_count \<le> buf_remain
           then (ctx\<lparr>pc_state := ParsePath\<rparr>, st, Inr (buf_pos + skip_count))
           else (ctx\<lparr>pc_state := SkipBeforePath (skip_count - buf_remain)\<rparr>, st, Inr (length buf)))
      | ParsePath \<Rightarrow>
          (let b = buf ! buf_pos in
           case pc_method ctx of
             Parser_Post \<Rightarrow>
               (ctx\<lparr>pc_state :=
                  (if b = ascii CHR ''l'' then ListGetBody 0
                   else if b = ascii CHR ''b'' then BatchGetBody 0
                   else if b = ascii CHR ''a'' then AddGetBody 0
                   else AddOrRange)\<rparr>, st, Inr (buf_pos + 1))
           | _ \<Rightarrow>
               (ctx\<lparr>pc_state :=
                  (if b = ascii CHR ''d'' then DelGetKey 3
                   else if b = ascii CHR ''z'' then ZrmvGetKeyValue 4
                   else ReplyInit)\<rparr>, st, Inr (buf_pos + 1)))
      | AddOrRange \<Rightarrow>
          (ctx\<lparr>pc_state := (if buf ! buf_pos = ascii CHR ''a'' then AddGetBody 0 else ZaddGetKeyAndBody 4)\<rparr>,
           st, Inr (buf_pos + 1))
      | _ \<Rightarrow>
          (let ctx1 = ctx\<lparr>pc_state := SkipHeaderNoBody 0\<rparr> in
           case write_all (as_bytes HTTP_200) st of
             Inl e \<Rightarrow> (ctx1, st, Inl e)
           | Inr st1 \<Rightarrow>
               (case write_all (as_bytes ''ok'') st1 of
                  Inl e \<Rightarrow> (ctx1, st1, Inl e)
                | Inr st2 \<Rightarrow> (ctx1, st2, Inr buf_pos))))"

partial_function (option) feed_loop ::
    "bytes \<Rightarrow> nat \<Rightarrow> parser_context \<Rightarrow> tcp_stream \<Rightarrow> (parser_context \<times> tcp_stream \<times> unit result) option" where
  "feed_loop buf buf_pos ctx st =
     (if buf_pos < length buf
      then (case parser_round buf buf_pos ctx st of
              (ctx1, st1, Inl e) \<Rightarrow> Some (ctx1, st1, Inl e)
            | (ctx1, st1, Inr p) \<Rightarrow> feed_loop buf p ctx1 st1)
      else Some (ctx, st, Inr ()))"

text \<open>\<open>feed\<close> is also given the number of bytes read, and does not use it.\<close>

definition feed ::
    "bytes \<Rightarrow> nat \<Rightarrow> parser_context \<Rightarrow> tcp_stream \<Rightarrow> (parser_context \<times> tcp_stream \<times> unit result) option" where
  "feed buf n ctx st = feed_loop buf 0 ctx st"

text \<open>
  The connection: every read gets a copy of the same zeroed buffer, so what follows the bytes
  read is zeros, and all of it is fed. An end of file is a read of no bytes and does not end the
  loop; a read error does.
\<close>

datatype read_result = Read_ok bytes | Read_error

definition buffer_size :: nat where "buffer_size = 4096"

fun conn_loop ::
    "read_result list \<Rightarrow> parser_context \<Rightarrow> tcp_stream \<Rightarrow> (tcp_stream \<times> unit result) option" where
  "conn_loop [] ctx st = Some (st, Inl Still_Waiting)"
| "conn_loop (Read_error # reads) ctx st = Some (st, Inr ())"
| "conn_loop (Read_ok data # reads) ctx st =
     (case feed (data @ replicate (buffer_size - length data) 0) (length data) ctx st of
        None \<Rightarrow> None
      | Some (ctx1, st1, Inl e) \<Rightarrow> Some (st1, Inl e)
      | Some (ctx1, st1, Inr _) \<Rightarrow> conn_loop reads ctx1 st1)"

definition conn_dispatcher :: "read_result list \<Rightarrow> tcp_stream \<Rightarrow> (tcp_stream \<times> unit result) option" where
  "conn_dispatcher reads st = conn_loop reads parser_new st"

section \<open>The automaton\<close>

fun consuming :: "parser_state \<Rightarrow> bool" where
  "consuming ParseMethod = True"
| "consuming (SkipBeforePath n) = True"
| "consuming ParsePath = True"
| "consuming AddOrRange = True"
| "consuming _ = False"

text \<open>
  The contexts the code can be in: a skip has something left to skip, and at most five bytes; the
  counters of the other states are the constants they are created with; the method is known from
  the first byte on; three states and the other fields are never used.
\<close>

fun state_ok :: "parser_state \<Rightarrow> bool" where
  "state_ok (SkipBeforePath n) \<longleftrightarrow> 0 < n \<and> n \<le> 5"
| "state_ok (DelGetKey n) \<longleftrightarrow> n = 3"
| "state_ok (ZrmvGetKeyValue n) \<longleftrightarrow> n = 4"
| "state_ok (ZaddGetKeyAndBody n) \<longleftrightarrow> n = 4"
| "state_ok (AddGetBody n) \<longleftrightarrow> n = 0"
| "state_ok (ListGetBody n) \<longleftrightarrow> n = 0"
| "state_ok (BatchGetBody n) \<longleftrightarrow> n = 0"
| "state_ok (SkipHeaderNoBody n) \<longleftrightarrow> n = 0"
| "state_ok (QueryGetKey n) \<longleftrightarrow> False"
| "state_ok (ZrangeGetBody n) \<longleftrightarrow> False"
| "state_ok ParseBody \<longleftrightarrow> False"
| "state_ok _ \<longleftrightarrow> True"

definition parser_ok :: "parser_context \<Rightarrow> bool" where
  "parser_ok ctx \<longleftrightarrow> state_ok (pc_state ctx) \<and>
     (pc_method ctx = Parser_Unknown \<longleftrightarrow> pc_state ctx = ParseMethod) \<and>
     (pc_state ctx = AddOrRange \<longrightarrow> pc_method ctx = Parser_Post) \<and>
     pc_body ctx = [] \<and> pc_path ctx = [] \<and> pc_cur_path_component ctx = []"

definition byte_step :: "u8 \<Rightarrow> parser_context \<Rightarrow> parser_context" where
  "byte_step b ctx =
     (case pc_state ctx of
        ParseMethod \<Rightarrow>
          (if b = ascii CHR ''P'' then ctx\<lparr>pc_method := Parser_Post, pc_state := SkipBeforePath 5\<rparr>
           else ctx\<lparr>pc_method := Parser_Get, pc_state := SkipBeforePath 4\<rparr>)
      | SkipBeforePath n \<Rightarrow> ctx\<lparr>pc_state := (if n \<le> 1 then ParsePath else SkipBeforePath (n - 1))\<rparr>
      | ParsePath \<Rightarrow>
          ctx\<lparr>pc_state :=
            (case pc_method ctx of
               Parser_Post \<Rightarrow>
                 (if b = ascii CHR ''l'' then ListGetBody 0
                  else if b = ascii CHR ''b'' then BatchGetBody 0
                  else if b = ascii CHR ''a'' then AddGetBody 0 else AddOrRange)
             | _ \<Rightarrow>
                 (if b = ascii CHR ''d'' then DelGetKey 3
                  else if b = ascii CHR ''z'' then ZrmvGetKeyValue 4 else ReplyInit))\<rparr>
      | AddOrRange \<Rightarrow>
          ctx\<lparr>pc_state := (if b = ascii CHR ''a'' then AddGetBody 0 else ZaddGetKeyAndBody 4)\<rparr>
      | _ \<Rightarrow> ctx)"

text \<open>The context after the bytes that are consumed, and whether some are left to reply to.\<close>

fun automaton :: "bytes \<Rightarrow> parser_context \<Rightarrow> parser_context \<times> bool" where
  "automaton [] ctx = (ctx, False)"
| "automaton (b # bs) ctx =
     (if consuming (pc_state ctx) then automaton bs (byte_step b ctx) else (ctx, True))"

text \<open>What \<open>k\<close> successful writes of a replying loop have written.\<close>

fun replies :: "nat \<Rightarrow> bytes" where
  "replies 0 = []"
| "replies (Suc 0) = as_bytes HTTP_200"
| "replies (Suc (Suc k)) = as_bytes HTTP_200 @ as_bytes ''ok'' @ replies k"

definition reply_outcome :: "parser_context \<Rightarrow> tcp_stream \<Rightarrow> (parser_context \<times> tcp_stream \<times> unit result) option" where
  "reply_outcome ctx st =
     (case ts_accepts st of
        None \<Rightarrow> None
      | Some k \<Rightarrow> Some (ctx\<lparr>pc_state := SkipHeaderNoBody 0\<rparr>,
          \<lparr>ts_written = ts_written st @ replies k, ts_accepts = Some 0\<rparr>, Inl Unwrap_Failed))"

section \<open>Replying\<close>

lemma reply_round:
  assumes "\<not> consuming (pc_state ctx)"
  shows "parser_round buf pos ctx st =
    (let ctx1 = ctx\<lparr>pc_state := SkipHeaderNoBody 0\<rparr> in
     case ts_accepts st of
       None \<Rightarrow> (ctx1, st\<lparr>ts_written := ts_written st @ as_bytes HTTP_200 @ as_bytes ''ok''\<rparr>, Inr pos)
     | Some 0 \<Rightarrow> (ctx1, st, Inl Unwrap_Failed)
     | Some (Suc 0) \<Rightarrow> (ctx1, \<lparr>ts_written = ts_written st @ as_bytes HTTP_200, ts_accepts = Some 0\<rparr>, Inl Unwrap_Failed)
     | Some (Suc (Suc k)) \<Rightarrow>
         (ctx1, \<lparr>ts_written = ts_written st @ as_bytes HTTP_200 @ as_bytes ''ok'', ts_accepts = Some k\<rparr>, Inr pos))"
  using assms
  by (cases "pc_state ctx") (auto simp: parser_round_def write_all_def Let_def split: option.split nat.split)

lemma reply_never_returns:
  assumes "feed_loop buf pos ctx st = Some r" and "pos < length buf" and "\<not> consuming (pc_state ctx)"
  shows "ts_accepts st \<noteq> None"
proof -
  have "pos < length buf \<longrightarrow> \<not> consuming (pc_state ctx) \<longrightarrow> ts_accepts st \<noteq> None"
  proof (rule feed_loop.raw_induct [of "\<lambda>buf pos ctx st r.
      pos < length buf \<longrightarrow> \<not> consuming (pc_state ctx) \<longrightarrow> ts_accepts st \<noteq> None", OF _ assms(1)],
      intro impI notI)
    fix loop buf pos ctx st r
    assume IH: "\<And>buf pos ctx st r. loop buf pos ctx st = Some r \<Longrightarrow>
          pos < length buf \<longrightarrow> \<not> consuming (pc_state ctx) \<longrightarrow> ts_accepts st \<noteq> None"
      and eq: "(if pos < length buf
          then (case parser_round buf pos ctx st of
                  (ctx1, st1, Inl e) \<Rightarrow> Some (ctx1, st1, Inl e)
                | (ctx1, st1, Inr p) \<Rightarrow> loop buf p ctx1 st1)
          else Some (ctx, st, Inr ())) = Some r"
      and pos: "pos < length buf" and reply: "\<not> consuming (pc_state ctx)" and all: "ts_accepts st = None"
    have "loop buf pos (ctx\<lparr>pc_state := SkipHeaderNoBody 0\<rparr>)
        (st\<lparr>ts_written := ts_written st @ as_bytes HTTP_200 @ as_bytes ''ok''\<rparr>) = Some r"
      using eq pos all by (simp add: reply_round [OF reply] Let_def)
    from IH [OF this] pos all show False by simp
  qed
  with assms(2,3) show ?thesis by blast
qed

lemma reply_panics:
  "\<lbrakk>pos < length buf; \<not> consuming (pc_state ctx); ts_accepts st = Some k\<rbrakk> \<Longrightarrow>
     feed_loop buf pos ctx st = Some (ctx\<lparr>pc_state := SkipHeaderNoBody 0\<rparr>,
       \<lparr>ts_written = ts_written st @ replies k, ts_accepts = Some 0\<rparr>, Inl Unwrap_Failed)"
proof (induction k arbitrary: ctx st rule: replies.induct)
  case 1
  then show ?case
    by (subst feed_loop.simps) (simp add: reply_round Let_def)
next
  case 2
  then show ?case
    by (subst feed_loop.simps) (simp add: reply_round Let_def)
next
  case (3 k)
  show ?case
    using "3.prems" "3.IH" [of "ctx\<lparr>pc_state := SkipHeaderNoBody 0\<rparr>"
        "\<lparr>ts_written = ts_written st @ as_bytes HTTP_200 @ as_bytes ''ok'', ts_accepts = Some k\<rparr>"]
    by (subst feed_loop.simps) (simp add: reply_round Let_def)
qed

lemma feed_loop_reply:
  assumes "pos < length buf" and "\<not> consuming (pc_state ctx)"
  shows "feed_loop buf pos ctx st = reply_outcome ctx st"
proof (cases "ts_accepts st")
  case None
  then have "feed_loop buf pos ctx st = None"
    using reply_never_returns [OF _ assms] by (cases "feed_loop buf pos ctx st") auto
  with None show ?thesis by (simp add: reply_outcome_def)
next
  case (Some k)
  then show ?thesis using reply_panics [OF assms] by (simp add: reply_outcome_def)
qed

section \<open>Consuming\<close>

lemma automaton_append:
  "automaton (a @ b) ctx =
     (case automaton a ctx of (ctx1, True) \<Rightarrow> (ctx1, True) | (ctx1, False) \<Rightarrow> automaton b ctx1)"
  by (induction a ctx rule: automaton.induct) auto

lemma automaton_skip:
  "\<lbrakk>pc_state ctx = SkipBeforePath (length bs); bs \<noteq> []\<rbrakk> \<Longrightarrow> automaton bs ctx = (ctx\<lparr>pc_state := ParsePath\<rparr>, False)"
proof (induction bs arbitrary: ctx)
  case (Cons b bs)
  show ?case
  proof (cases bs)
    case Nil
    with Cons.prems show ?thesis by (simp add: byte_step_def)
  next
    case (Cons c cs)
    have "byte_step b ctx = ctx\<lparr>pc_state := SkipBeforePath (length bs)\<rparr>"
      using Cons.prems(1) Cons by (simp add: byte_step_def)
    moreover have "automaton bs (ctx\<lparr>pc_state := SkipBeforePath (length bs)\<rparr>) = (ctx\<lparr>pc_state := ParsePath\<rparr>, False)"
      using Cons.IH [of "ctx\<lparr>pc_state := SkipBeforePath (length bs)\<rparr>"] Cons by simp
    ultimately show ?thesis using Cons.prems(1) by simp
  qed
qed simp

lemma automaton_skip_part:
  "\<lbrakk>pc_state ctx = SkipBeforePath n; length bs < n\<rbrakk> \<Longrightarrow>
     automaton bs ctx = (ctx\<lparr>pc_state := SkipBeforePath (n - length bs)\<rparr>, False)"
proof (induction bs arbitrary: ctx n)
  case Nil
  then show ?case by (cases ctx) simp
next
  case (Cons b bs)
  then have "byte_step b ctx = ctx\<lparr>pc_state := SkipBeforePath (n - 1)\<rparr>" by (simp add: byte_step_def)
  with Cons show ?case by simp
qed

lemma byte_step_ok: "parser_ok ctx \<Longrightarrow> parser_ok (byte_step b ctx)"
  by (auto simp: parser_ok_def byte_step_def split: parser_state.split parser_method.split)

text \<open>How many bytes a state still consumes at most.\<close>

fun rank :: "parser_state \<Rightarrow> nat" where
  "rank ParseMethod = 8"
| "rank (SkipBeforePath n) = n + 2"
| "rank ParsePath = 2"
| "rank AddOrRange = 1"
| "rank _ = 0"

lemma byte_step_rank:
  "\<lbrakk>consuming (pc_state ctx); parser_ok ctx\<rbrakk> \<Longrightarrow> rank (pc_state (byte_step b ctx)) < rank (pc_state ctx)"
  by (auto simp: parser_ok_def byte_step_def split: parser_state.splits parser_method.splits)

lemma automaton_replies:
  "\<lbrakk>parser_ok ctx; rank (pc_state ctx) < length bs\<rbrakk> \<Longrightarrow> snd (automaton bs ctx)"
proof (induction bs ctx rule: automaton.induct)
  case (2 b bs ctx)
  then show ?case using byte_step_rank [of ctx b] byte_step_ok [of ctx b] by auto
qed simp

lemma automaton_reply_state:
  "automaton bs ctx = (ctx1, True) \<Longrightarrow> \<not> consuming (pc_state ctx1)"
  by (induction bs ctx rule: automaton.induct) (auto split: if_splits)

lemma automaton_ok: "parser_ok ctx \<Longrightarrow> parser_ok (fst (automaton bs ctx))"
  by (induction bs ctx rule: automaton.induct) (auto simp: byte_step_ok)

text \<open>A round in a consuming state: what it consumes, the automaton consumes.\<close>

lemma consuming_round:
  assumes pos: "pos < length buf" and state: "consuming (pc_state ctx)" and ok: "parser_ok ctx"
  shows "\<exists>n ctx1. parser_round buf pos ctx st = (ctx1, st, Inr (pos + n)) \<and> 0 < n \<and> pos + n \<le> length buf \<and>
    parser_ok ctx1 \<and> automaton (drop pos buf) ctx = automaton (drop (pos + n) buf) ctx1"
proof (cases "\<exists>k. pc_state ctx = SkipBeforePath k")
  case False
  have "drop pos buf = buf ! pos # drop (pos + 1) buf" using pos by (simp add: Cons_nth_drop_Suc)
  moreover have "parser_round buf pos ctx st = (byte_step (buf ! pos) ctx, st, Inr (pos + 1))"
    using state False
    by (cases "pc_state ctx") (simp_all add: parser_round_def byte_step_def Let_def split: parser_method.split)
  ultimately show ?thesis
    using pos state byte_step_ok [OF ok] by (intro exI [of _ 1]) simp
next
  case True
  then obtain k where k: "pc_state ctx = SkipBeforePath k" by blast
  then have "0 < k" "k \<le> 5" using ok by (simp_all add: parser_ok_def)
  show ?thesis
  proof (cases "k \<le> length buf - pos")
    case True
    have "drop pos buf = take k (drop pos buf) @ drop (pos + k) buf"
      by (metis add.commute append_take_drop_id drop_drop)
    moreover have "automaton (take k (drop pos buf)) ctx = (ctx\<lparr>pc_state := ParsePath\<rparr>, False)"
      using True \<open>0 < k\<close> pos k by (intro automaton_skip) auto
    ultimately have "automaton (drop pos buf) ctx = automaton (drop (pos + k) buf) (ctx\<lparr>pc_state := ParsePath\<rparr>)"
      using automaton_append [of "take k (drop pos buf)" "drop (pos + k) buf" ctx] by simp
    with True k \<open>0 < k\<close> pos ok show ?thesis
      by (intro exI [of _ k]) (auto simp: parser_round_def parser_ok_def)
  next
    case False
    let ?n = "length buf - pos"
    have "automaton (drop pos buf) ctx = (ctx\<lparr>pc_state := SkipBeforePath (k - ?n)\<rparr>, False)"
      using automaton_skip_part [OF k, of "drop pos buf"] False by simp
    with False k \<open>k \<le> 5\<close> pos ok show ?thesis
      by (intro exI [of _ ?n]) (auto simp: parser_round_def parser_ok_def)
  qed
qed

lemma feed_loop_automaton:
  assumes "parser_ok ctx"
  shows "feed_loop buf pos ctx st =
    (case automaton (drop pos buf) ctx of
       (ctx1, False) \<Rightarrow> Some (ctx1, st, Inr ())
     | (ctx1, True) \<Rightarrow> reply_outcome ctx1 st)"
  using assms
proof (induction "length buf - pos" arbitrary: pos ctx rule: less_induct)
  case less
  show ?case
  proof (cases "pos < length buf")
    case False
    then show ?thesis by (subst feed_loop.simps) simp
  next
    case pos: True
    show ?thesis
    proof (cases "consuming (pc_state ctx)")
      case False
      have "drop pos buf = buf ! pos # drop (pos + 1) buf" using pos by (simp add: Cons_nth_drop_Suc)
      with False show ?thesis by (simp add: feed_loop_reply [OF pos False])
    next
      case True
      from consuming_round [OF pos True less.prems, of st] obtain n ctx1 where
        round: "parser_round buf pos ctx st = (ctx1, st, Inr (pos + n))" and n: "0 < n" "pos + n \<le> length buf"
        and ctx1: "parser_ok ctx1" "automaton (drop pos buf) ctx = automaton (drop (pos + n) buf) ctx1"
        by blast
      have "feed_loop buf pos ctx st = feed_loop buf (pos + n) ctx1 st"
        using pos round by (subst feed_loop.simps) simp
      with less.hyps [OF _ ctx1(1), of "pos + n"] n pos ctx1(2) show ?thesis by simp
    qed
  qed
qed

lemma reply_outcome_ok:
  assumes "reply_outcome ctx st = Some (ctx1, st1, r)" and "parser_ok ctx" and "\<not> consuming (pc_state ctx)"
  shows "parser_ok ctx1"
  using assms by (auto simp: reply_outcome_def parser_ok_def split: option.splits)

lemma parser_new_ok: "parser_ok parser_new"
  by (simp add: parser_new_def parser_ok_def)

lemma feed_replies:
  assumes "parser_ok ctx" and "rank (pc_state ctx) < length buf"
  shows "\<exists>ctx1. feed buf n ctx st = reply_outcome ctx1 st"
  using automaton_replies [OF assms]
  by (cases "automaton buf ctx") (auto simp: feed_def feed_loop_automaton assms(1))

section \<open>Properties\<close>

text \<open>
  C36. Feeding a buffer is running the one-byte automaton over it: when the automaton consumes
  every byte, the parser returns in the automaton's state and has written nothing; when it stops
  at a replying state, the parser does not return while the stream takes its replies, and panics
  at the first write that fails.
\<close>

theorem feed_automaton:
  assumes "parser_ok ctx"
  shows "feed buf n ctx st =
    (case automaton buf ctx of
       (ctx1, False) \<Rightarrow> Some (ctx1, st, Inr ())
     | (ctx1, True) \<Rightarrow> reply_outcome ctx1 st)"
  using feed_loop_automaton [OF assms, of buf 0 st] by (simp add: feed_def)

text \<open>The first byte of a \<open>GET\<close> request, and its path's first letter with one byte behind it.\<close>

abbreviation sample_stream :: tcp_stream where
  "sample_stream \<equiv> \<lparr>ts_written = [], ts_accepts = Some 0\<rparr>"

abbreviation sample_path_context :: parser_context where
  "sample_path_context \<equiv> parser_new\<lparr>pc_state := ParsePath, pc_method := Parser_Get\<rparr>"

lemma sample_path_context_ok: "parser_ok sample_path_context"
  by (simp add: parser_ok_def parser_new_def)

lemma feed_automaton_witness:
  "parser_ok parser_new \<and>
   feed [71] 1 parser_new sample_stream =
     Some (parser_new\<lparr>pc_state := SkipBeforePath 4, pc_method := Parser_Get\<rparr>, sample_stream, Inr ()) \<and>
   feed [105, 110] 2 sample_path_context sample_stream =
     Some (parser_new\<lparr>pc_state := SkipHeaderNoBody 0, pc_method := Parser_Get\<rparr>, sample_stream, Inl Unwrap_Failed)"
  using feed_automaton [OF parser_new_ok, of "[71]" 1 sample_stream]
    feed_automaton [OF sample_path_context_ok, of "[105, 110]" 2 sample_stream] parser_new_ok
  by (simp add: byte_step_def parser_new_def reply_outcome_def)

text \<open>
  C29. How a request is cut into buffers does not matter, nor the number of bytes said to be in
  them: from a well-formed context, feeding two buffers one after the other is feeding them
  joined, and what stops the first (a failed write or a reply loop that never ends) stops both.
\<close>

theorem feed_chunks:
  assumes "parser_ok ctx"
  shows "feed (a @ b) n ctx st =
    (case feed a n1 ctx st of
       Some (ctx1, st1, Inr _) \<Rightarrow> feed b n2 ctx1 st1
     | stopped \<Rightarrow> stopped)"
proof (cases "automaton a ctx")
  case (Pair ctx1 reply)
  have ok: "parser_ok ctx1" using automaton_ok [OF assms, of a] Pair by simp
  show ?thesis
  proof (cases reply)
    case True
    then show ?thesis
      using Pair by (simp add: feed_def feed_loop_automaton assms automaton_append reply_outcome_def split: option.split)
  next
    case False
    then show ?thesis
      using Pair by (simp add: feed_def feed_loop_automaton assms ok automaton_append)
  qed
qed

theorem feed_chunks_witness:
  "feed ([80] @ [79]) 2 parser_new sample_stream =
     Some (parser_new\<lparr>pc_state := SkipBeforePath 4, pc_method := Parser_Post\<rparr>, sample_stream, Inr ())"
  using feed_chunks [OF parser_new_ok, of "[80]" "[79]" 2 sample_stream 1 1]
  by (simp add: feed_def feed_loop_automaton parser_new_ok byte_step_ok)
    (simp add: byte_step_def parser_new_def)

text \<open>
  C37. The parser's context keeps its invariant: whatever it is fed and however it stops, a skip
  has between one and five bytes left, the counters are the constants the code writes, the
  method is known after the first byte, and the unused states are never entered.
\<close>

theorem feed_ok:
  assumes "parser_ok ctx" and "feed buf n ctx st = Some (ctx1, st1, r)"
  shows "parser_ok ctx1"
proof (cases "automaton buf ctx")
  case (Pair c reply)
  have ok: "parser_ok c" using automaton_ok [OF assms(1), of buf] Pair by simp
  show ?thesis
  proof (cases reply)
    case True
    with Pair assms have "reply_outcome c st = Some (ctx1, st1, r)"
      by (simp add: feed_def feed_loop_automaton)
    moreover have "\<not> consuming (pc_state c)" using automaton_reply_state [of buf ctx c] Pair True by simp
    ultimately show ?thesis by (rule reply_outcome_ok [OF _ ok])
  next
    case False
    with Pair assms ok show ?thesis by (simp add: feed_def feed_loop_automaton)
  qed
qed

lemma feed_ok_witness:
  "parser_ok (parser_new\<lparr>pc_state := SkipHeaderNoBody 0, pc_method := Parser_Get\<rparr>)"
proof -
  have "feed [105, 110] 2 sample_path_context sample_stream =
      Some (parser_new\<lparr>pc_state := SkipHeaderNoBody 0, pc_method := Parser_Get\<rparr>, sample_stream, Inl Unwrap_Failed)"
    by (simp add: feed_def feed_loop_automaton sample_path_context_ok)
      (simp add: byte_step_def parser_new_def reply_outcome_def)
  from feed_ok [OF sample_path_context_ok this] show ?thesis .
qed

text \<open>
  C35. A connection is never served: whatever the first read returns, the end of the stream
  included, the dispatcher writes replies for ever as long as the stream takes them, and when it
  takes \<open>k\<close> more writes, it writes exactly those and panics; what is written does not depend on
  the request.
\<close>

theorem dispatcher_never_serves:
  "conn_dispatcher (Read_ok data # reads) st =
     (case ts_accepts st of
        None \<Rightarrow> None
      | Some k \<Rightarrow> Some (\<lparr>ts_written = ts_written st @ replies k, ts_accepts = Some 0\<rparr>, Inl Unwrap_Failed))"
proof -
  have "rank (pc_state parser_new) < length (data @ replicate (buffer_size - length data) 0)"
    by (simp add: parser_new_def buffer_size_def)
  from feed_replies [OF parser_new_ok this] obtain ctx where
    "feed (data @ replicate (buffer_size - length data) 0) (length data) parser_new st = reply_outcome ctx st"
    by blast
  then show ?thesis
    by (simp add: conn_dispatcher_def reply_outcome_def split: option.split)
qed

end
