(* ===== verification/Loader.thy ===== *)
theory Loader
  imports Init
begin

text \<open>
  The loading of the initial data behind \<open>/init\<close> as a state machine on one node: requests in
  their three steps (peers, claim, reply), the thread the claiming request spawns, which opens
  the directories of \<open>INIT_DIRS\<close> one after the other and spawns a copying thread for each that
  opens, the copying threads, data commands in between, and changes of the cluster file. Steps
  of different threads interleave freely. The theory shows that at most one thread loads, that
  \<open>LOADED\<close> means that everything has been copied, what the store then holds, and that loading
  cannot get stuck unless the node knows no core.
\<close>

section \<open>Threads\<close>

datatype request_pc =
    Rq_peers
  | Rq_update update_cluster
  | Rq_claim
  | Rq_reply
  | Rq_done http_response
  | Rq_failed fault

text \<open>
  The spawned thread keeps the list of cores it took when it was claimed, the directories it has
  not opened and the copying threads it has spawned or has yet to join.
\<close>

datatype init_pc =
    Opening "nat list" "string list" "nat list"
  | Joining "nat list"
  | Init_done
  | Init_panicked

text \<open>A copying thread reads the shard count and its own index once, before it copies.\<close>

datatype worker_pc =
    Spawned "(bytes \<times> bytes) list"
  | Copying u64 u32 "(bytes \<times> bytes) list"
  | Finished

record ('kv, 'vs, 'zm, 'db) loading =
  ld_store :: "('kv, 'vs, 'zm, 'db) storage"
  ld_file :: "string option"
  ld_requests :: "request_pc list"
  ld_inits :: "init_pc list"
  ld_workers :: "worker_pc list"

section \<open>Steps\<close>

text \<open>\<open>INIT_DIRS\<close> is split at commas; without the variable there is nothing to open.\<close>

definition init_dirs :: "env \<Rightarrow> string list" where
  "init_dirs E = (case env_init_dirs E of None \<Rightarrow> [] | Some dirs \<Rightarrow> split_all CHR '','' dirs)"

text \<open>
  The first step of a request, \<open>try_load_peers\<close>, up to the exchange of \<open>peer_updated\<close>; its
  second, \<open>update_peers\<close>; and the rest of \<open>handle_init\<close>. The outcomes of the connection
  attempts are a parameter.
\<close>

fun next_request ::
    "env \<Rightarrow> bool list \<Rightarrow> request_pc \<Rightarrow> ('kv, 'vs, 'zm, 'db) loading \<Rightarrow>
     (request_pc \<times> ('kv, 'vs, 'zm, 'db) loading) option" where
  "next_request E attempts Rq_peers s =
     Some (case Option.bind (ld_file s) (js_read_cluster E) of
             None \<Rightarrow> (Rq_claim, s)
           | Some info \<Rightarrow>
               (if st_peer_updated (ld_store s) then (Rq_claim, s)
                else (Rq_update info, s\<lparr>ld_store := (ld_store s)\<lparr>st_peer_updated := True\<rparr>\<rparr>)))"
| "next_request E attempts (Rq_update info) s =
     (case update_peers E (uc_hosts info) (uc_index info) attempts (ld_store s) of
        (s1, Inl e) \<Rightarrow> Some (Rq_failed e, s\<lparr>ld_store := s1\<rparr>)
      | (s1, Inr _) \<Rightarrow> Some (Rq_claim, s\<lparr>ld_store := s1\<rparr>))"
| "next_request E attempts Rq_claim s =
     Some (if st_load_state (ld_store s) = LOAD_STATE_INIT
           then (Rq_reply, s\<lparr>ld_store := (ld_store s)\<lparr>st_load_state := LOAD_STATE_LOADING\<rparr>,
                             ld_inits := ld_inits s @ [Opening (st_all_cores (ld_store s)) (init_dirs E) []]\<rparr>)
           else (Rq_reply, s))"
| "next_request E attempts Rq_reply s =
     Some (Rq_done (if st_load_state (ld_store s) = LOAD_STATE_LOADED then ok_response ''ok''
                    else ok_response ''loading''), s)"
| "next_request E attempts (Rq_done r) s = None"
| "next_request E attempts (Rq_failed e) s = None"

text \<open>
  \<open>all_cores.next().unwrap()\<close> on the cycle of an empty list panics; a directory that does not
  open is skipped; \<open>join\<close> waits for the copying thread.
\<close>

fun next_init ::
    "env \<Rightarrow> init_pc \<Rightarrow> ('kv, 'vs, 'zm, 'db) loading \<Rightarrow>
     (init_pc \<times> ('kv, 'vs, 'zm, 'db) loading) option" where
  "next_init E (Opening cores [] ws) s = Some (Joining ws, s)"
| "next_init E (Opening cores (d # ds) ws) s =
     (if cores = [] then Some (Init_panicked, s)
      else (case env_open_db E d of
              None \<Rightarrow> Some (Opening cores ds ws, s)
            | Some es \<Rightarrow> Some (Opening cores ds (ws @ [length (ld_workers s)]),
                s\<lparr>ld_workers := ld_workers s @ [Spawned es]\<rparr>)))"
| "next_init E (Joining (i # ws)) s =
     (if ld_workers s ! i = Finished then Some (Joining ws, s) else None)"
| "next_init E (Joining []) s =
     Some (Init_done, s\<lparr>ld_store := (ld_store s)\<lparr>st_load_state := LOAD_STATE_LOADED\<rparr>\<rparr>)"
| "next_init E Init_done s = None"
| "next_init E Init_panicked s = None"

fun next_worker ::
    "('kv, 'vs, 'zm, 'db) libs \<Rightarrow> worker_pc \<Rightarrow> ('kv, 'vs, 'zm, 'db) storage \<Rightarrow>
     (worker_pc \<times> ('kv, 'vs, 'zm, 'db) storage) option" where
  "next_worker L (Spawned es) s = Some (Copying (st_count s) (st_me s) es, s)"
| "next_worker L (Copying peers me (e # es)) s = Some (Copying peers me es, load_entry L peers me e s)"
| "next_worker L (Copying peers me []) s = Some (Finished, s)"
| "next_worker L Finished s = None"

datatype load_label = Request_arrives | Request_runs nat | File_changes | Init_runs nat | Worker_runs nat | Data cmd

inductive load_step ::
    "('kv, 'vs, 'zm, 'db) libs \<Rightarrow> env \<Rightarrow> ('kv, 'vs, 'zm, 'db) loading \<Rightarrow> load_label \<Rightarrow>
     ('kv, 'vs, 'zm, 'db) loading \<Rightarrow> bool" for L E where
  arrive: "load_step L E s Request_arrives (s\<lparr>ld_requests := ld_requests s @ [Rq_peers]\<rparr>)"
| request_runs: "\<lbrakk>i < length (ld_requests s); next_request E attempts (ld_requests s ! i) s = Some (pc, s')\<rbrakk> \<Longrightarrow>
    load_step L E s (Request_runs i) (s'\<lparr>ld_requests := (ld_requests s')[i := pc]\<rparr>)"
| file_changes: "load_step L E s File_changes (s\<lparr>ld_file := f\<rparr>)"
| init_runs: "\<lbrakk>i < length (ld_inits s); next_init E (ld_inits s ! i) s = Some (pc, s')\<rbrakk> \<Longrightarrow>
    load_step L E s (Init_runs i) (s'\<lparr>ld_inits := (ld_inits s')[i := pc]\<rparr>)"
| worker_runs: "\<lbrakk>i < length (ld_workers s); next_worker L (ld_workers s ! i) (ld_store s) = Some (pc, st)\<rbrakk> \<Longrightarrow>
    load_step L E s (Worker_runs i) (s\<lparr>ld_store := st, ld_workers := (ld_workers s)[i := pc]\<rparr>)"
| data_runs: "load_step L E s (Data c) (s\<lparr>ld_store := server_step L c (ld_store s)\<rparr>)"

inductive load_run ::
    "('kv, 'vs, 'zm, 'db) libs \<Rightarrow> env \<Rightarrow> ('kv, 'vs, 'zm, 'db) loading \<Rightarrow> load_label list \<Rightarrow>
     ('kv, 'vs, 'zm, 'db) loading \<Rightarrow> bool" for L E where
  load_refl: "load_run L E s [] s"
| load_trans: "\<lbrakk>load_run L E s ls s'; load_step L E s' l s''\<rbrakk> \<Longrightarrow> load_run L E s (ls @ [l]) s''"

inductive_cases load_step_cases: "load_step L E s l s'"
inductive_cases data_stepE [elim]: "load_step L E s (Data c) s'"

text \<open>A process starts with no thread of its own.\<close>

definition load_start :: "('kv, 'vs, 'zm, 'db) loading \<Rightarrow> bool" where
  "load_start s \<longleftrightarrow> st_load_state (ld_store s) = LOAD_STATE_INIT \<and> ld_requests s = [] \<and>
     ld_inits s = [] \<and> ld_workers s = []"

section \<open>At most one loader\<close>

definition joined_below :: "nat list \<Rightarrow> worker_pc list \<Rightarrow> bool" where
  "joined_below ws workers \<longleftrightarrow> set ws \<subseteq> {..<length workers} \<and>
     (\<forall>i < length workers. i \<notin> set ws \<longrightarrow> workers ! i = Finished)"

fun init_ok :: "init_pc \<Rightarrow> worker_pc list \<Rightarrow> bool" where
  "init_ok (Opening cores ds ws) workers \<longleftrightarrow> set ws = {..<length workers}"
| "init_ok (Joining ws) workers \<longleftrightarrow> joined_below ws workers"
| "init_ok Init_done workers \<longleftrightarrow> joined_below [] workers"
| "init_ok Init_panicked workers \<longleftrightarrow> True"

definition load_inv :: "('kv, 'vs, 'zm, 'db) loading \<Rightarrow> bool" where
  "load_inv s \<longleftrightarrow>
     (if st_load_state (ld_store s) = LOAD_STATE_INIT then ld_inits s = [] \<and> ld_workers s = []
      else \<exists>pc. ld_inits s = [pc] \<and> init_ok pc (ld_workers s) \<and>
        st_load_state (ld_store s) =
          (if pc = Init_done then LOAD_STATE_LOADED else LOAD_STATE_LOADING))"

lemmas load_state_defs = LOAD_STATE_INIT_def LOAD_STATE_LOADING_def LOAD_STATE_LOADED_def

lemma server_step_frame [simp]:
  "st_load_state (server_step L c s) = st_load_state s" "st_me (server_step L c s) = st_me s"
  "st_count (server_step L c s) = st_count s" "st_peer_updated (server_step L c s) = st_peer_updated s"
  "st_all_cores (server_step L c s) = st_all_cores s"
  by (cases c;
      auto simp: rpc_add_eq rpc_del_eq rpc_zadd_def rpc_zrmv_def insert_kv_def Let_def
      insert_kv_in_memory_def zsets_remove_def remove_key_def remove_key_in_memory_def zadd_def
      zadd_memory_def zrmv_def split: option.splits prod.splits)+

lemma next_worker_frame:
  assumes "next_worker L pc s = Some (pc', s')"
  shows "st_load_state s' = st_load_state s" "st_me s' = st_me s" "st_count s' = st_count s"
    "st_peer_updated s' = st_peer_updated s" "st_all_cores s' = st_all_cores s" "pc \<noteq> Finished"
  using assms by (induction L pc s rule: next_worker.induct; auto)+

lemma init_ok_worker:
  assumes "init_ok pc workers" and "i < length workers" and "workers ! i \<noteq> Finished"
  shows "init_ok pc (workers[i := w])"
  using assms by (cases pc) (auto simp: joined_below_def nth_list_update)

fun_cases next_initE: "next_init E pc s = Some r"

lemma next_init_ok:
  assumes "next_init E pc s = Some (pc', s')" and "init_ok pc (ld_workers s)"
    and "st_load_state (ld_store s) = LOAD_STATE_LOADING"
  shows "init_ok pc' (ld_workers s') \<and> ld_inits s' = ld_inits s \<and> st_load_state (ld_store s') =
    (if pc' = Init_done then LOAD_STATE_LOADED else LOAD_STATE_LOADING)"
  using assms(1)
proof (cases rule: next_initE [consumes 1])
  case (2 cores d ds ws)
  then show ?thesis
  proof (cases "cores = []")
    case True
    with 2 assms(2,3) show ?thesis by simp
  next
    case False
    with 2 assms(2,3) show ?thesis
      by (cases "env_open_db E d") (simp_all add: lessThan_Suc)
  qed
next
  case (3 i ws)
  then have "ld_workers s ! i = Finished" "pc' = Joining ws" "s' = s"
    by (simp_all split: if_splits)
  with 3 assms(2,3) show ?thesis by (auto simp: joined_below_def)
qed (use assms(2,3) in \<open>simp_all add: joined_below_def\<close>)

lemma next_request_frame:
  assumes "next_request E attempts pc s = Some (pc', s')"
  shows "ld_workers s' = ld_workers s \<and> ld_requests s' = ld_requests s \<and> ld_file s' = ld_file s \<and>
    (if pc = Rq_claim \<and> st_load_state (ld_store s) = LOAD_STATE_INIT
     then st_load_state (ld_store s') = LOAD_STATE_LOADING \<and>
       ld_inits s' = ld_inits s @ [Opening (st_all_cores (ld_store s)) (init_dirs E) []]
     else st_load_state (ld_store s') = st_load_state (ld_store s) \<and> ld_inits s' = ld_inits s)"
proof (cases pc)
  case (Rq_update info)
  let ?u = "update_peers E (uc_hosts info) (uc_index info) attempts (ld_store s)"
  obtain s1 r where u: "?u = (s1, r)" by (cases ?u)
  then have "st_load_state s1 = st_load_state (ld_store s)"
    using update_peers_frame(1) [of E "uc_hosts info" "uc_index info" attempts "ld_store s"] by simp
  with assms Rq_update u show ?thesis by (cases r) auto
qed (use assms in \<open>auto split: option.splits if_splits\<close>)

lemma load_inv_same:
  "\<lbrakk>load_inv s; st_load_state (ld_store s') = st_load_state (ld_store s); ld_inits s' = ld_inits s;
    ld_workers s' = ld_workers s\<rbrakk> \<Longrightarrow> load_inv s'"
  by (simp add: load_inv_def)

lemma load_inv_step:
  assumes "load_step L E s l s'" and inv: "load_inv s"
  shows "load_inv s'"
  using assms(1)
proof cases
  case (request_runs i attempts pc s1)
  note frame = next_request_frame [OF request_runs(4)]
  show ?thesis
  proof (cases "ld_requests s ! i = Rq_claim \<and> st_load_state (ld_store s) = LOAD_STATE_INIT")
    case True
    with frame inv request_runs(2) show ?thesis
      by (simp add: load_inv_def load_state_defs)
  next
    case False
    with frame request_runs(2) show ?thesis
      by (intro load_inv_same [OF inv]) simp_all
  qed
next
  case (init_runs i pc s1)
  then have "st_load_state (ld_store s) \<noteq> LOAD_STATE_INIT"
    using inv by (auto simp: load_inv_def)
  with inv obtain pc0 where pc0: "ld_inits s = [pc0]" "init_ok pc0 (ld_workers s)"
    "st_load_state (ld_store s) = (if pc0 = Init_done then LOAD_STATE_LOADED else LOAD_STATE_LOADING)"
    by (auto simp: load_inv_def)
  with init_runs have next_eq: "next_init E pc0 s = Some (pc, s1)" and "i = 0" by simp_all
  then have "pc0 \<noteq> Init_done" by auto
  with pc0 have "st_load_state (ld_store s) = LOAD_STATE_LOADING" by simp
  from next_init_ok [OF next_eq pc0(2) this] pc0(1) init_runs(2) \<open>i = 0\<close> show ?thesis
    by (simp add: load_inv_def load_state_defs)
next
  case (worker_runs i pc st)
  note frame = next_worker_frame [OF worker_runs(4)]
  have "ld_workers s \<noteq> []" using worker_runs(3) by auto
  with inv have "st_load_state (ld_store s) \<noteq> LOAD_STATE_INIT"
    by (auto simp: load_inv_def)
  with inv obtain pc0 where pc0: "ld_inits s = [pc0]" "init_ok pc0 (ld_workers s)"
    "st_load_state (ld_store s) = (if pc0 = Init_done then LOAD_STATE_LOADED else LOAD_STATE_LOADING)"
    by (auto simp: load_inv_def)
  have "init_ok pc0 ((ld_workers s)[i := pc])"
    by (rule init_ok_worker [OF pc0(2) worker_runs(3) frame(6)])
  with pc0 frame(1) worker_runs(2) show ?thesis
    by (simp add: load_inv_def load_state_defs)
qed (rule load_inv_same [OF inv]; simp)+

lemma load_inv_run: "\<lbrakk>load_run L E s ls s'; load_inv s\<rbrakk> \<Longrightarrow> load_inv s'"
  by (induction rule: load_run.induct) (auto intro: load_inv_step)

lemma load_inv_start: "load_start s \<Longrightarrow> load_inv s"
  by (simp add: load_inv_def load_start_def)

lemma loaded_finished:
  "\<lbrakk>load_inv s; st_load_state (ld_store s) = LOAD_STATE_LOADED\<rbrakk> \<Longrightarrow>
     ld_inits s = [Init_done] \<and> (\<forall>pc \<in> set (ld_workers s). pc = Finished)"
  by (auto simp: load_inv_def load_state_defs joined_below_def in_set_conv_nth split: if_splits)

section \<open>What has been copied\<close>

fun worker_rest :: "worker_pc \<Rightarrow> (bytes \<times> bytes) list" where
  "worker_rest (Spawned es) = es"
| "worker_rest (Copying peers me es) = es"
| "worker_rest Finished = []"

fun unopened :: "init_pc \<Rightarrow> string list" where
  "unopened (Opening cores ds ws) = ds"
| "unopened _ = []"

definition dirs_entries :: "env \<Rightarrow> string list \<Rightarrow> (bytes \<times> bytes) set" where
  "dirs_entries E ds = (\<Union>d \<in> set ds. case env_open_db E d of None \<Rightarrow> {} | Some es \<Rightarrow> set es)"

definition own_entries :: "env \<Rightarrow> u64 \<Rightarrow> u32 \<Rightarrow> (bytes \<times> bytes) set" where
  "own_entries E peers me = {e \<in> dirs_entries E (init_dirs E). own_entry peers me e}"

text \<open>The entries that no thread has copied yet.\<close>

definition pending :: "env \<Rightarrow> ('kv, 'vs, 'zm, 'db) loading \<Rightarrow> (bytes \<times> bytes) set" where
  "pending E s =
     dirs_entries E (if st_load_state (ld_store s) = LOAD_STATE_INIT then init_dirs E
                     else concat (map unopened (ld_inits s))) \<union>
     {e. \<exists>i < length (ld_workers s). e \<in> set (worker_rest (ld_workers s ! i))}"

definition holds_entry :: "('kv, 'vs, 'zm, 'db) libs \<Rightarrow> ('kv, 'vs, 'zm, 'db) storage \<Rightarrow> bytes \<times> bytes \<Rightarrow> bool" where
  "holds_entry L s e \<longleftrightarrow> kv_of L s (from_utf8_unchecked (fst e)) = Some (from_utf8_unchecked (snd e))"

text \<open>
  The peers are settled: no request is about to change the shard count or the index, and none can
  come to it, because they have been set or there is no cluster file to set them from.
\<close>

definition settled :: "u64 \<Rightarrow> u32 \<Rightarrow> ('kv, 'vs, 'zm, 'db) loading \<Rightarrow> bool" where
  "settled peers me s \<longleftrightarrow> (st_peer_updated (ld_store s) \<or> ld_file s = None) \<and> st_count (ld_store s) = peers \<and>
     st_me (ld_store s) = me \<and> (\<forall>info. Rq_update info \<notin> set (ld_requests s)) \<and>
     (\<forall>c m es. Copying c m es \<in> set (ld_workers s) \<longrightarrow> c = peers \<and> m = me)"

definition copy_inv ::
    "('kv, 'vs, 'zm, 'db) libs \<Rightarrow> env \<Rightarrow> u64 \<Rightarrow> u32 \<Rightarrow> (string \<Rightarrow> string option) \<Rightarrow>
     ('kv, 'vs, 'zm, 'db) loading \<Rightarrow> bool" where
  "copy_inv L E peers me base s \<longleftrightarrow>
     pending E s \<subseteq> dirs_entries E (init_dirs E) \<and>
     (\<forall>k. kv_of L (ld_store s) k = base k \<or>
        (\<exists>e \<in> own_entries E peers me. holds_entry L (ld_store s) e \<and> from_utf8_unchecked (fst e) = k)) \<and>
     (Init_panicked \<notin> set (ld_inits s) \<longrightarrow>
        (\<forall>e \<in> own_entries E peers me. e \<in> pending E s \<or> holds_entry L (ld_store s) e))"

definition agree :: "env \<Rightarrow> u64 \<Rightarrow> u32 \<Rightarrow> bool" where
  "agree E peers me \<longleftrightarrow>
     (\<forall>e \<in> own_entries E peers me. \<forall>e' \<in> own_entries E peers me. fst e = fst e' \<longrightarrow> snd e = snd e')"

lemma holds_load_entry:
  "libs_ok L \<Longrightarrow> holds_entry L (load_entry L peers me e s) e' \<longleftrightarrow>
     (if own_entry peers me e \<and> fst e = fst e' then snd e = snd e' else holds_entry L s e')"
  by (auto simp: holds_entry_def load_entry_def kv_of_def kv_laws from_utf8_inject)

lemma kv_of_load_entry:
  "libs_ok L \<Longrightarrow> kv_of L (load_entry L peers me e s) k =
     (if own_entry peers me e \<and> from_utf8_unchecked (fst e) = k then Some (from_utf8_unchecked (snd e))
      else kv_of L s k)"
  by (auto simp: load_entry_def kv_of_def kv_laws)

text \<open>One copying step keeps the entries that are there, adds its own and takes it off the list.\<close>

lemma copy_inv_entry:
  assumes L: "libs_ok L" and agree: "agree E peers me" and e: "e \<in> dirs_entries E (init_dirs E)"
    and base: "\<forall>k. kv_of L s k = base k \<or>
      (\<exists>e \<in> own_entries E peers me. holds_entry L s e \<and> from_utf8_unchecked (fst e) = k)"
  shows "\<forall>k. kv_of L (load_entry L peers me e s) k = base k \<or>
      (\<exists>e' \<in> own_entries E peers me. holds_entry L (load_entry L peers me e s) e' \<and>
        from_utf8_unchecked (fst e') = k)"
    and "\<lbrakk>e' \<in> own_entries E peers me; e' = e \<or> holds_entry L s e'\<rbrakk> \<Longrightarrow>
      holds_entry L (load_entry L peers me e s) e'"
proof -
  show "\<lbrakk>e' \<in> own_entries E peers me; e' = e \<or> holds_entry L s e'\<rbrakk> \<Longrightarrow>
      holds_entry L (load_entry L peers me e s) e'" for e'
  proof -
    assume e': "e' \<in> own_entries E peers me" "e' = e \<or> holds_entry L s e'"
    have "\<lbrakk>own_entry peers me e; fst e = fst e'\<rbrakk> \<Longrightarrow> snd e = snd e'"
      using agree e e'(1) unfolding agree_def own_entries_def by blast
    then show ?thesis
      using e' by (auto simp: holds_load_entry [OF L] own_entries_def)
  qed
  show "\<forall>k. kv_of L (load_entry L peers me e s) k = base k \<or>
      (\<exists>e' \<in> own_entries E peers me. holds_entry L (load_entry L peers me e s) e' \<and>
        from_utf8_unchecked (fst e') = k)"
  proof
    fix k
    show "kv_of L (load_entry L peers me e s) k = base k \<or>
      (\<exists>e' \<in> own_entries E peers me. holds_entry L (load_entry L peers me e s) e' \<and>
        from_utf8_unchecked (fst e') = k)"
    proof (cases "own_entry peers me e \<and> from_utf8_unchecked (fst e) = k")
      case True
      then have "e \<in> own_entries E peers me" using e by (simp add: own_entries_def)
      with True show ?thesis
        by (intro disjI2 bexI [of _ e]) (simp_all add: holds_load_entry [OF L])
    next
      case False
      then have same: "kv_of L (load_entry L peers me e s) k = kv_of L s k"
        unfolding kv_of_load_entry [OF L] by (rule if_not_P)
      show ?thesis
      proof (cases "kv_of L s k = base k")
        case True
        with same show ?thesis by simp
      next
        case False
        with base obtain e' where e': "e' \<in> own_entries E peers me" "holds_entry L s e'"
          "from_utf8_unchecked (fst e') = k"
          by blast
        then have "holds_entry L (load_entry L peers me e s) e'"
          using same by (simp add: holds_entry_def)
        with e' show ?thesis by blast
      qed
    qed
  qed
qed

lemma pending_worker:
  assumes i: "i < length (ld_workers s)"
  shows "pending E (s\<lparr>ld_store := st, ld_workers := (ld_workers s)[i := pc]\<rparr>) =
    dirs_entries E (if st_load_state st = LOAD_STATE_INIT then init_dirs E
                    else concat (map unopened (ld_inits s))) \<union>
    {e. \<exists>j < length (ld_workers s). j \<noteq> i \<and> e \<in> set (worker_rest (ld_workers s ! j))} \<union>
    set (worker_rest pc)"
  using i by (auto simp: pending_def nth_list_update split: if_splits)

lemma pending_worker_eq:
  assumes i: "i < length (ld_workers s)"
  shows "pending E s =
    dirs_entries E (if st_load_state (ld_store s) = LOAD_STATE_INIT then init_dirs E
                    else concat (map unopened (ld_inits s))) \<union>
    {e. \<exists>j < length (ld_workers s). j \<noteq> i \<and> e \<in> set (worker_rest (ld_workers s ! j))} \<union>
    set (worker_rest (ld_workers s ! i))"
  using i by (auto simp: pending_def)

lemma copy_inv_same:
  assumes "copy_inv L E peers me base s" and "kv_of L (ld_store s') = kv_of L (ld_store s)"
    and "pending E s' = pending E s" and "Init_panicked \<in> set (ld_inits s) \<Longrightarrow> Init_panicked \<in> set (ld_inits s')"
  shows "copy_inv L E peers me base s'"
  using assms by (auto simp: copy_inv_def holds_entry_def)

lemma copy_inv_worker:
  assumes L: "libs_ok L" and agree: "agree E peers me" and set: "settled peers me s"
    and inv: "copy_inv L E peers me base s" and i: "i < length (ld_workers s)"
    and step: "next_worker L (ld_workers s ! i) (ld_store s) = Some (pc, st)"
  shows "copy_inv L E peers me base (s\<lparr>ld_store := st, ld_workers := (ld_workers s)[i := pc]\<rparr>)"
proof -
  let ?s = "s\<lparr>ld_store := st, ld_workers := (ld_workers s)[i := pc]\<rparr>"
  have state: "st_load_state st = st_load_state (ld_store s)"
    using next_worker_frame(1) [OF step] .
  note pend = pending_worker_eq [OF i, of E] pending_worker [OF i, of E pc st, unfolded state]
  show ?thesis
  proof (cases "\<exists>c m e es. ld_workers s ! i = Copying c m (e # es)")
    case False
    have "worker_rest pc = worker_rest (ld_workers s ! i) \<and> st = ld_store s"
    proof (cases "ld_workers s ! i")
      case (Copying c m es)
      with False step show ?thesis by (cases es) auto
    qed (use step in auto)
    moreover from this have "pending E ?s = pending E s" unfolding pend by simp
    ultimately show ?thesis by (intro copy_inv_same [OF inv]) simp_all
  next
    case True
    then obtain c m e es where w: "ld_workers s ! i = Copying c m (e # es)" by blast
    then have "Copying c m (e # es) \<in> set (ld_workers s)" using i nth_mem by metis
    with set have "c = peers" "m = me" by (auto simp: settled_def)
    with w step have pc: "pc = Copying peers me es" and st: "st = load_entry L peers me e (ld_store s)"
      by auto
    have sub: "pending E ?s \<subseteq> pending E s" and all: "pending E s \<subseteq> insert e (pending E ?s)"
      and e: "e \<in> pending E s"
      unfolding pend by (auto simp: w pc)
    then have e_in: "e \<in> dirs_entries E (init_dirs E)"
      and base: "\<forall>k. kv_of L (ld_store s) k = base k \<or>
        (\<exists>e \<in> own_entries E peers me. holds_entry L (ld_store s) e \<and> from_utf8_unchecked (fst e) = k)"
      using inv by (auto simp: copy_inv_def)
    note entry = copy_inv_entry [OF L agree e_in base]
    have "\<forall>e' \<in> own_entries E peers me. e' \<in> pending E ?s \<or> holds_entry L st e'"
      if "Init_panicked \<notin> set (ld_inits s)"
    proof
      fix e' assume e': "e' \<in> own_entries E peers me"
      with inv that have "e' \<in> pending E s \<or> holds_entry L (ld_store s) e'"
        by (simp add: copy_inv_def)
      then show "e' \<in> pending E ?s \<or> holds_entry L st e'"
        using all entry(2) [OF e'] by (auto simp: st)
    qed
    moreover have "pending E ?s \<subseteq> dirs_entries E (init_dirs E)"
      using sub inv by (auto simp: copy_inv_def)
    ultimately show ?thesis
      using entry(1) by (simp add: copy_inv_def st)
  qed
qed

lemma ex_nth: "(\<exists>i < length ys. x \<in> set (f (ys ! i))) \<longleftrightarrow> (\<exists>y \<in> set ys. x \<in> set (f y))"
  by (metis in_set_conv_nth)

lemma copy_inv_init:
  assumes set: "settled peers me s" and ok: "load_inv s" and inv: "copy_inv L E peers me base s"
    and i: "i < length (ld_inits s)" and step: "next_init E (ld_inits s ! i) s = Some (pc, s1)"
  shows "copy_inv L E peers me base (s1\<lparr>ld_inits := (ld_inits s1)[i := pc]\<rparr>)"
proof -
  let ?s = "s1\<lparr>ld_inits := (ld_inits s1)[i := pc]\<rparr>"
  have not_init: "st_load_state (ld_store s) \<noteq> LOAD_STATE_INIT"
    using ok i by (auto simp: load_inv_def)
  with ok obtain pc0 where pc0: "ld_inits s = [pc0]"
    "st_load_state (ld_store s) = (if pc0 = Init_done then LOAD_STATE_LOADED else LOAD_STATE_LOADING)"
    by (auto simp: load_inv_def)
  with i step have step0: "next_init E pc0 s = Some (pc, s1)" and i0: "i = 0" by simp_all
  have one: "dirs_entries E (unopened pc0) \<union> X = dirs_entries E (unopened pc) \<union> Y \<Longrightarrow>
      X = {e. \<exists>i < length (ld_workers s). e \<in> set (worker_rest (ld_workers s ! i))} \<Longrightarrow>
      Y = {e. \<exists>i < length (ld_workers s1). e \<in> set (worker_rest (ld_workers s1 ! i))} \<Longrightarrow>
      ld_inits s1 = ld_inits s \<Longrightarrow> st_load_state (ld_store s1) \<noteq> LOAD_STATE_INIT \<Longrightarrow>
      kv_of L (ld_store s1) = kv_of L (ld_store s) \<Longrightarrow> pc0 \<noteq> Init_panicked \<Longrightarrow> ?thesis" for X Y
    by (rule copy_inv_same [OF inv]) (simp_all add: pending_def pc0(1) not_init i0)
  from step0 show ?thesis
  proof (cases rule: next_initE [consumes 1])
    case (1 cores ws)
    then show ?thesis by (intro one) (simp_all add: not_init)
  next
    case (2 cores d ds ws)
    consider "cores = []" | "cores \<noteq> []" "env_open_db E d = None"
      | es where "cores \<noteq> []" "env_open_db E d = Some es" by fastforce
    then show ?thesis
    proof cases
      case 1
      with 2 have pc: "pc = Init_panicked" and s1: "s1 = s" by simp_all
      have "pending E ?s \<subseteq> pending E s"
        by (auto simp: pending_def pc s1 pc0(1) i0 not_init dirs_entries_def)
      with inv show ?thesis by (auto simp: copy_inv_def pc s1 pc0(1) i0)
    next
      case 2
      with \<open>pc0 = Opening cores (d # ds) ws\<close> step0
      have "pc = Opening cores ds ws" and "s1 = s" by simp_all
      with 2 \<open>pc0 = Opening cores (d # ds) ws\<close> show ?thesis
        by (intro one [OF _ refl refl]) (simp_all add: not_init dirs_entries_def)
    next
      case (3 es)
      with \<open>pc0 = Opening cores (d # ds) ws\<close> step0
      have pc: "pc = Opening cores ds (ws @ [length (ld_workers s)])"
        and s1: "s1 = s\<lparr>ld_workers := ld_workers s @ [Spawned es]\<rparr>" by simp_all
      have "{e. \<exists>i < length (ld_workers s1). e \<in> set (worker_rest (ld_workers s1 ! i))} =
          set es \<union> {e. \<exists>i < length (ld_workers s). e \<in> set (worker_rest (ld_workers s ! i))}"
        unfolding ex_nth by (auto simp: s1)
      moreover have "dirs_entries E (unopened pc0) = set es \<union> dirs_entries E (unopened pc)"
        using 3(2) \<open>pc0 = Opening cores (d # ds) ws\<close> by (simp add: dirs_entries_def pc)
      ultimately have eq: "dirs_entries E (unopened pc0) \<union>
            {e. \<exists>i < length (ld_workers s). e \<in> set (worker_rest (ld_workers s ! i))} =
          dirs_entries E (unopened pc) \<union>
            {e. \<exists>i < length (ld_workers s1). e \<in> set (worker_rest (ld_workers s1 ! i))}"
        by (simp only: Un_assoc Un_left_commute)
      show ?thesis
        by (rule one [OF eq refl refl]; simp add: not_init s1 \<open>pc0 = Opening cores (d # ds) ws\<close>)
    qed
  next
    case (3 j ws)
    then show ?thesis by (intro one) (simp_all add: not_init split: if_splits)
  next
    case 4
    then show ?thesis by (intro one) (simp_all add: load_state_defs kv_of_def)
  qed
qed

lemma copy_inv_request:
  assumes set: "settled peers me s" and ok: "load_inv s" and inv: "copy_inv L E peers me base s"
    and i: "i < length (ld_requests s)"
    and step: "next_request E attempts (ld_requests s ! i) s = Some (pc, s1)"
  shows "copy_inv L E peers me base (s1\<lparr>ld_requests := (ld_requests s1)[i := pc]\<rparr>)"
proof -
  have "ld_requests s ! i \<noteq> Rq_update info" for info
    using set i nth_mem unfolding settled_def by metis
  with set step have kv: "kv_of L (ld_store s1) = kv_of L (ld_store s)"
    by (cases "ld_requests s ! i") (auto simp: settled_def kv_of_def split: option.splits if_splits)
  note frame = next_request_frame [OF step]
  show ?thesis
  proof (cases "ld_requests s ! i = Rq_claim \<and> st_load_state (ld_store s) = LOAD_STATE_INIT")
    case True
    with ok have "ld_inits s = []" by (simp add: load_inv_def)
    with True frame kv show ?thesis
      by (intro copy_inv_same [OF inv]) (simp_all add: pending_def load_state_defs)
  next
    case False
    then have "st_load_state (ld_store s1) = st_load_state (ld_store s)" "ld_inits s1 = ld_inits s"
      "ld_workers s1 = ld_workers s"
      using frame by auto
    with kv show ?thesis
      by (intro copy_inv_same [OF inv]) (simp_all add: pending_def)
  qed
qed

lemma next_init_store:
  assumes "next_init E pc s = Some (pc', s')"
  shows "ld_store s' = ld_store s \<or> ld_store s' = (ld_store s)\<lparr>st_load_state := LOAD_STATE_LOADED\<rparr>"
    and "ld_requests s' = ld_requests s"
    and "ld_workers s' = ld_workers s \<or> (\<exists>es. ld_workers s' = ld_workers s @ [Spawned es])"
  using assms by (cases rule: next_initE [consumes 1]; auto split: if_splits option.splits)+

lemma settled_step:
  assumes step: "load_step L E s l s'" and set: "settled peers me s"
    and l: "l = File_changes \<Longrightarrow> st_peer_updated (ld_store s)"
  shows "settled peers me s' \<and> st_peer_updated (ld_store s') = st_peer_updated (ld_store s)"
  using step
proof cases
  case (request_runs i attempts pc s1)
  have "ld_requests s ! i \<noteq> Rq_update info" for info
    using set request_runs(3) nth_mem unfolding settled_def by metis
  with set request_runs(4) have "ld_workers s1 = ld_workers s \<and> ld_requests s1 = ld_requests s \<and>
      ld_file s1 = ld_file s \<and> (\<forall>info. pc \<noteq> Rq_update info) \<and>
      st_peer_updated (ld_store s1) = st_peer_updated (ld_store s) \<and>
      st_count (ld_store s1) = st_count (ld_store s) \<and> st_me (ld_store s1) = st_me (ld_store s)"
    by (cases "ld_requests s ! i") (auto simp: settled_def split: option.splits if_splits)
  with set request_runs(2) show ?thesis
    by (auto simp: settled_def dest!: set_update_subset_insert [THEN subsetD])
next
  case (init_runs i pc s1)
  note store = next_init_store [OF init_runs(4)]
  have "st_peer_updated (ld_store s1) = st_peer_updated (ld_store s)"
    "st_count (ld_store s1) = st_count (ld_store s)" "st_me (ld_store s1) = st_me (ld_store s)"
    using store(1) by auto
  moreover have "Copying c m es \<in> set (ld_workers s1) \<Longrightarrow> Copying c m es \<in> set (ld_workers s)" for c m es
    using store(3) by auto
  moreover have "ld_file s1 = ld_file s"
    using init_runs(4) by (cases rule: next_initE [consumes 1]) (auto split: if_splits option.splits)
  ultimately show ?thesis
    using set store(2) init_runs(2) by (simp add: settled_def) blast
next
  case (worker_runs i pc st)
  note frame = next_worker_frame [OF worker_runs(4)]
  have "c = peers \<and> m = me" if "pc = Copying c m es" for c m es
  proof (cases "ld_workers s ! i")
    case (Copying c' m' es')
    with worker_runs(3) have "Copying c' m' es' \<in> set (ld_workers s)" using nth_mem by metis
    with Copying worker_runs(4) that set show ?thesis
      by (cases es') (auto simp: settled_def)
  qed (use worker_runs(4) that set in \<open>auto simp: settled_def\<close>)
  moreover have "w \<in> set ((ld_workers s)[i := pc]) \<Longrightarrow> w = pc \<or> w \<in> set (ld_workers s)" for w
    using set_update_subset_insert by fastforce
  ultimately have "c = peers \<and> m = me" if "Copying c m es \<in> set ((ld_workers s)[i := pc])" for c m es
    using that set unfolding settled_def by metis
  with set frame worker_runs(2) show ?thesis by (simp add: settled_def)
qed (use set l in \<open>auto simp: settled_def\<close>)

text \<open>
  Once the peers are settled and no data command comes in between, the loaded store holds, at
  the keys of the entries that are its own, the entries, and what it held before elsewhere.
\<close>

lemma copy_inv_step:
  assumes L: "libs_ok L" and agree: "agree E peers me" and step: "load_step L E s l s'"
    and l: "\<And>c. l \<noteq> Data c"
    and set: "settled peers me s" and ok: "load_inv s" and inv: "copy_inv L E peers me base s"
  shows "copy_inv L E peers me base s'"
  using step
proof cases
  case (request_runs i attempts pc s1)
  show ?thesis unfolding request_runs(2) by (rule copy_inv_request [OF set ok inv request_runs(3,4)])
next
  case (init_runs i pc s1)
  show ?thesis unfolding init_runs(2) by (rule copy_inv_init [OF set ok inv init_runs(3,4)])
next
  case (worker_runs i pc st)
  show ?thesis unfolding worker_runs(2) by (rule copy_inv_worker [OF L agree set inv worker_runs(3,4)])
next
  case arrive
  then show ?thesis by (intro copy_inv_same [OF inv]) (simp_all add: pending_def)
next
  case (file_changes f)
  then show ?thesis by (intro copy_inv_same [OF inv]) (simp_all add: pending_def)
next
  case (data_runs c)
  with l show ?thesis by blast
qed

lemma copy_inv_run:
  assumes L: "libs_ok L" and agree: "agree E peers me"
  shows "\<lbrakk>load_run L E s ls s'; \<forall>c. Data c \<notin> set ls;
      st_peer_updated (ld_store s) \<or> File_changes \<notin> set ls; settled peers me s; load_inv s;
      copy_inv L E peers me base s\<rbrakk> \<Longrightarrow>
    (settled peers me s' \<and> st_peer_updated (ld_store s') = st_peer_updated (ld_store s)) \<and>
    load_inv s' \<and> copy_inv L E peers me base s'"
proof (induction rule: load_run.induct)
  case (load_refl s)
  then show ?case by simp
next
  case (load_trans s ls s' l s'')
  then have IH: "settled peers me s'" "st_peer_updated (ld_store s') = st_peer_updated (ld_store s)"
    "load_inv s'" "copy_inv L E peers me base s'" by auto
  moreover have "l \<noteq> Data c" for c using load_trans.prems(1) by auto
  moreover have "l = File_changes \<Longrightarrow> st_peer_updated (ld_store s')"
    using load_trans.prems(2) IH(2) by auto
  ultimately show ?case
    using settled_step [OF load_trans.hyps(2)] load_inv_step [OF load_trans.hyps(2)]
      copy_inv_step [OF L agree load_trans.hyps(2)]
    by blast
qed

lemma copy_inv_start:
  assumes "load_start s"
  shows "copy_inv L E peers me (kv_of L (ld_store s)) s"
  using assms by (auto simp: copy_inv_def load_start_def pending_def own_entries_def)

lemma copy_inv_loaded:
  assumes inv: "copy_inv L E peers me base s" and ok: "load_inv s"
    and loaded: "st_load_state (ld_store s) = LOAD_STATE_LOADED"
  shows "e \<in> own_entries E peers me \<Longrightarrow>
      kv_of L (ld_store s) (from_utf8_unchecked (fst e)) = Some (from_utf8_unchecked (snd e))"
    and "\<forall>e \<in> own_entries E peers me. from_utf8_unchecked (fst e) \<noteq> k \<Longrightarrow> kv_of L (ld_store s) k = base k"
proof -
  note fin = loaded_finished [OF ok loaded]
  then have "pending E s = {}"
    unfolding pending_def ex_nth using loaded by (auto simp: load_state_defs dirs_entries_def)
  then show "e \<in> own_entries E peers me \<Longrightarrow>
      kv_of L (ld_store s) (from_utf8_unchecked (fst e)) = Some (from_utf8_unchecked (snd e))"
    using inv fin by (auto simp: copy_inv_def holds_entry_def)
  show "\<forall>e \<in> own_entries E peers me. from_utf8_unchecked (fst e) \<noteq> k \<Longrightarrow> kv_of L (ld_store s) k = base k"
    using inv unfolding copy_inv_def by metis
qed

section \<open>Progress\<close>

text \<open>What the loading threads have left to do; every step of theirs makes it smaller.\<close>

fun worker_left :: "worker_pc \<Rightarrow> nat" where
  "worker_left (Spawned es) = length es + 2"
| "worker_left (Copying peers me es) = length es + 1"
| "worker_left Finished = 0"

fun dir_left :: "env \<Rightarrow> string \<Rightarrow> nat" where
  "dir_left E d = (case env_open_db E d of None \<Rightarrow> 1 | Some es \<Rightarrow> length es + 4)"

fun init_left :: "env \<Rightarrow> init_pc \<Rightarrow> nat" where
  "init_left E (Opening cores ds ws) = sum_list (map (dir_left E) ds) + length ws + 2"
| "init_left E (Joining ws) = length ws + 1"
| "init_left E Init_done = 0"
| "init_left E Init_panicked = 0"

definition load_left :: "env \<Rightarrow> ('kv, 'vs, 'zm, 'db) loading \<Rightarrow> nat" where
  "load_left E s = sum_list (map (init_left E) (ld_inits s)) + sum_list (map worker_left (ld_workers s))"

fun loader_label :: "load_label \<Rightarrow> bool" where
  "loader_label (Init_runs i) = True"
| "loader_label (Worker_runs i) = True"
| "loader_label _ = False"

lemma next_worker_left: "next_worker L pc s = Some (pc', s') \<Longrightarrow> worker_left pc' < worker_left pc"
  by (induction L pc s rule: next_worker.induct) auto

lemma next_init_left:
  assumes "next_init E pc s = Some (pc', s')"
  shows "init_left E pc' + sum_list (map worker_left (ld_workers s')) <
    init_left E pc + sum_list (map worker_left (ld_workers s))"
    and "ld_inits s' = ld_inits s"
  using assms by (cases rule: next_initE [consumes 1]; auto split: if_splits option.splits)+

lemma load_left_less:
  assumes step: "load_step L E s l s'" and ok: "load_inv s" and l: "loader_label l"
  shows "load_left E s' < load_left E s"
  using step
proof cases
  case (init_runs i pc s1)
  then have "st_load_state (ld_store s) \<noteq> LOAD_STATE_INIT"
    using ok by (auto simp: load_inv_def)
  with ok obtain pc0 where pc0: "ld_inits s = [pc0]" by (auto simp: load_inv_def)
  with init_runs have "next_init E pc0 s = Some (pc, s1)" and "i = 0" by simp_all
  with next_init_left [OF this(1)] init_runs(2) pc0 show ?thesis
    by (simp add: load_left_def)
next
  case (worker_runs i pc st)
  with sum_list_update_less [OF worker_runs(3), of worker_left, OF next_worker_left [OF worker_runs(4)]]
  show ?thesis by (simp add: load_left_def)
qed (use l in auto)

text \<open>The loading thread keeps the cores it was given; without one it panics at the first directory.\<close>

definition cores_inv :: "env \<Rightarrow> nat list \<Rightarrow> ('kv, 'vs, 'zm, 'db) loading \<Rightarrow> bool" where
  "cores_inv E cores s \<longleftrightarrow> st_all_cores (ld_store s) = cores \<and>
     (\<forall>pc \<in> set (ld_inits s).
        if cores = [] \<and> init_dirs E \<noteq> [] then pc = Opening [] (init_dirs E) [] \<or> pc = Init_panicked
        else pc \<noteq> Init_panicked \<and> (\<forall>cores' ds ws. pc = Opening cores' ds ws \<longrightarrow> cores' = cores \<and> (cores = [] \<longrightarrow> ds = [])))"

lemma next_request_cores:
  assumes "next_request E attempts pc s = Some (pc', s')"
  shows "st_all_cores (ld_store s') = st_all_cores (ld_store s)"
proof (cases pc)
  case (Rq_update info)
  let ?u = "update_peers E (uc_hosts info) (uc_index info) attempts (ld_store s)"
  obtain s1 r where u: "?u = (s1, r)" by (cases ?u)
  then have "st_all_cores s1 = st_all_cores (ld_store s)"
    by (auto simp: update_peers_def Let_def split: option.splits sum.splits)
  with assms Rq_update u show ?thesis by (cases r) auto
qed (use assms in \<open>auto split: option.splits if_splits\<close>)

lemma cores_inv_step:
  assumes step: "load_step L E s l s'" and inv: "cores_inv E cores s"
  shows "cores_inv E cores s'"
  using step
proof cases
  case (request_runs i attempts pc s1)
  from inv have old: "st_all_cores (ld_store s) = cores" by (simp add: cores_inv_def)
  note frame = next_request_frame [OF request_runs(4)] next_request_cores [OF request_runs(4)]
  show ?thesis
  proof (cases "ld_requests s ! i = Rq_claim \<and> st_load_state (ld_store s) = LOAD_STATE_INIT")
    case True
    with frame have "ld_inits s1 = ld_inits s @ [Opening cores (init_dirs E) []]" by (simp add: old)
    with inv frame(2) show ?thesis by (auto simp: request_runs(2) cores_inv_def)
  next
    case False
    with frame inv show ?thesis by (simp add: request_runs(2) cores_inv_def)
  qed
next
  case (init_runs i pc s1)
  let ?pc = "ld_inits s ! i"
  have "?pc \<in> set (ld_inits s)" using init_runs(3) by simp
  with inv have old: "if cores = [] \<and> init_dirs E \<noteq> [] then ?pc = Opening [] (init_dirs E) [] \<or> ?pc = Init_panicked
        else ?pc \<noteq> Init_panicked \<and> (\<forall>cores' ds ws. ?pc = Opening cores' ds ws \<longrightarrow> cores' = cores \<and> (cores = [] \<longrightarrow> ds = []))"
    unfolding cores_inv_def by blast
  have new: "if cores = [] \<and> init_dirs E \<noteq> [] then pc = Opening [] (init_dirs E) [] \<or> pc = Init_panicked
        else pc \<noteq> Init_panicked \<and> (\<forall>cores' ds ws. pc = Opening cores' ds ws \<longrightarrow> cores' = cores \<and> (cores = [] \<longrightarrow> ds = []))"
    using init_runs(4)
    by (cases rule: next_initE [consumes 1])
      (use old in \<open>auto split: if_splits option.splits\<close>)
  have "x \<in> set ((ld_inits s)[i := pc]) \<Longrightarrow> x = pc \<or> x \<in> set (ld_inits s)" for x
    using set_update_subset_insert by fastforce
  moreover have "st_all_cores (ld_store s1) = cores"
    using inv next_init_store(1) [OF init_runs(4)] by (auto simp: cores_inv_def)
  ultimately show ?thesis
    using inv new next_init_left(2) [OF init_runs(4)] unfolding cores_inv_def init_runs(2)
    by (metis (no_types, lifting) loading.select_convs(1) loading.select_convs(4) loading.surjective
        loading.update_convs(4))
next
  case (worker_runs i pc st)
  with inv next_worker_frame(5) [OF worker_runs(4)] show ?thesis by (simp add: cores_inv_def)
qed (use inv in \<open>auto simp: cores_inv_def\<close>)

lemma cores_inv_run: "\<lbrakk>load_run L E s ls s'; cores_inv E cores s\<rbrakk> \<Longrightarrow> cores_inv E cores s'"
  by (induction rule: load_run.induct) (auto intro: cores_inv_step)

lemma cores_inv_start: "load_start s \<Longrightarrow> cores_inv E (st_all_cores (ld_store s)) s"
  by (simp add: cores_inv_def load_start_def)

text \<open>While it loads, some loading thread can run, unless the loading thread has panicked.\<close>

lemma loader_enabled:
  assumes ok: "load_inv s" and state: "st_load_state (ld_store s) = LOAD_STATE_LOADING"
    and alive: "Init_panicked \<notin> set (ld_inits s)"
  shows "\<exists>l s'. loader_label l \<and> load_step L E s l s'"
proof -
  from ok state obtain pc where pc: "ld_inits s = [pc]" "init_ok pc (ld_workers s)" "pc \<noteq> Init_done"
    by (auto simp: load_inv_def load_state_defs split: if_splits)
  have runs: "\<exists>l s'. loader_label l \<and> load_step L E s l s'" if "next_init E pc s = Some r" for r
  proof -
    obtain pc' s1 where "r = (pc', s1)" by (cases r)
    with that pc(1) have "load_step L E s (Init_runs 0) (s1\<lparr>ld_inits := (ld_inits s1)[0 := pc']\<rparr>)"
      by (intro load_step.init_runs) simp_all
    then show ?thesis by (meson loader_label.simps(1))
  qed
  show ?thesis
  proof (cases "\<exists>j < length (ld_workers s). ld_workers s ! j \<noteq> Finished")
    case True
    then obtain j where j: "j < length (ld_workers s)" "ld_workers s ! j \<noteq> Finished" by blast
    have "\<exists>r. next_worker L (ld_workers s ! j) (ld_store s) = Some r"
      using j(2) by (cases "(L, ld_workers s ! j, ld_store s)" rule: next_worker.cases) auto
    then obtain pc' st where "next_worker L (ld_workers s ! j) (ld_store s) = Some (pc', st)" by auto
    from load_step.worker_runs [OF j(1) this] show ?thesis by (meson loader_label.simps(2))
  next
    case False
    have "\<exists>r. next_init E pc s = Some r"
    proof (cases pc)
      case (Opening cores ds ws)
      then show ?thesis by (cases ds) (auto split: option.split)
    next
      case (Joining ws)
      with pc(2) False show ?thesis by (cases ws) (auto simp: joined_below_def)
    qed (use pc alive in auto)
    with runs show ?thesis by blast
  qed
qed

lemma load_run_append: "\<lbrakk>load_run L E s' ls' s''; load_run L E s ls s'\<rbrakk> \<Longrightarrow> load_run L E s (ls @ ls') s''"
proof (induction rule: load_run.induct)
  case (load_trans a ls' b l c)
  then show ?case
    using load_run.load_trans [of L E s "ls @ ls'" b l c] by simp
qed simp

lemma load_run_Cons: "\<lbrakk>load_step L E s l s'; load_run L E s' ls s''\<rbrakk> \<Longrightarrow> load_run L E s (l # ls) s''"
  using load_run_append [of L E s' ls s'' s "[l]"] load_run.load_trans [OF load_run.load_refl, of L E s l s']
  by simp

lemma loading_completes:
  assumes "load_inv s" and "cores_inv E cores s" and "cores \<noteq> [] \<or> init_dirs E = []"
    and "st_load_state (ld_store s) = LOAD_STATE_LOADING"
  shows "\<exists>ls s'. load_run L E s ls s' \<and> (\<forall>l \<in> set ls. loader_label l) \<and> length ls \<le> load_left E s \<and>
    st_load_state (ld_store s') = LOAD_STATE_LOADED"
  using assms
proof (induction "load_left E s" arbitrary: s rule: less_induct)
  case less
  then have "Init_panicked \<notin> set (ld_inits s)" by (auto simp: cores_inv_def)
  with loader_enabled [OF less.prems(1,4)] obtain l s1 where l: "loader_label l" and step: "load_step L E s l s1"
    by blast
  have smaller: "load_left E s1 < load_left E s" by (rule load_left_less [OF step less.prems(1) l])
  have inv: "load_inv s1" "cores_inv E cores s1"
    using load_inv_step [OF step less.prems(1)] cores_inv_step [OF step less.prems(2)] by simp_all
  consider "st_load_state (ld_store s1) = LOAD_STATE_LOADED" | "st_load_state (ld_store s1) = LOAD_STATE_LOADING"
    using step
  proof cases
    case (init_runs i pc s2)
    then show thesis
      using that next_init_store(1) [OF init_runs(4)] less.prems(4) by auto
  next
    case (worker_runs i pc st)
    then show thesis
      using that next_worker_frame(1) [OF worker_runs(4)] less.prems(4) by simp
  qed (use l in auto)
  then show ?case
  proof cases
    case 1
    have "load_run L E s [l] s1" using step load_run_Cons load_run.load_refl by blast
    with 1 l smaller show ?thesis by (intro exI [of _ "[l]"] exI [of _ s1]) auto
  next
    case 2
    from less.hyps [OF smaller inv less.prems(3) 2] obtain ls s' where
      "load_run L E s1 ls s'" "\<forall>l \<in> set ls. loader_label l" "length ls \<le> load_left E s1"
      "st_load_state (ld_store s') = LOAD_STATE_LOADED"
      by blast
    with step l smaller show ?thesis
      by (intro exI [of _ "l # ls"] exI [of _ s']) (auto intro: load_run_Cons)
  qed
qed

lemma stuck_without_cores:
  assumes "load_run L E s ls s'" and "load_start s" and "st_all_cores (ld_store s) = []"
    and "init_dirs E \<noteq> []"
  shows "st_load_state (ld_store s') \<noteq> LOAD_STATE_LOADED"
proof
  assume loaded: "st_load_state (ld_store s') = LOAD_STATE_LOADED"
  have "ld_inits s' = [Init_done]"
    using loaded_finished [OF load_inv_run [OF assms(1) load_inv_start [OF assms(2)]] loaded] by simp
  moreover have "cores_inv E [] s'"
    using cores_inv_run [OF assms(1) cores_inv_start [OF assms(2)]] assms(3) by simp
  ultimately show False using assms(4) by (simp add: cores_inv_def)
qed

text \<open>Without a cluster file one request claims the loading, and the threads bring it to the end.\<close>

lemma can_claim:
  assumes start: "load_start s" and no_file: "ld_file s = None"
  shows "\<exists>s'. load_run L E s [Request_arrives, Request_runs 0, Request_runs 0] s' \<and>
     st_load_state (ld_store s') = LOAD_STATE_LOADING"
proof -
  let ?s1 = "s\<lparr>ld_requests := ld_requests s @ [Rq_peers]\<rparr>"
  have st: "st_load_state (ld_store s) = LOAD_STATE_INIT" "ld_requests s = []" "ld_inits s = []"
    using start by (simp_all add: load_start_def)
  let ?s2 = "?s1\<lparr>ld_requests := (ld_requests ?s1)[0 := Rq_claim]\<rparr>"
  have "next_request E [] (ld_requests ?s1 ! 0) ?s1 = Some (Rq_claim, ?s1)" by (simp add: st no_file)
  then have two: "load_step L E ?s1 (Request_runs 0) ?s2"
    by (intro load_step.request_runs) simp_all
  have "\<exists>s3. next_request E [] (ld_requests ?s2 ! 0) ?s2 = Some (Rq_reply, s3) \<and>
      st_load_state (ld_store s3) = LOAD_STATE_LOADING"
    by (simp add: st)
  then obtain s3 where "next_request E [] (ld_requests ?s2 ! 0) ?s2 = Some (Rq_reply, s3)"
    and state: "st_load_state (ld_store s3) = LOAD_STATE_LOADING" by blast
  then have three: "load_step L E ?s2 (Request_runs 0) (s3\<lparr>ld_requests := (ld_requests s3)[0 := Rq_reply]\<rparr>)"
    by (intro load_step.request_runs) (simp_all add: st)
  have "load_run L E s [Request_arrives, Request_runs 0, Request_runs 0]
      (s3\<lparr>ld_requests := (ld_requests s3)[0 := Rq_reply]\<rparr>)"
    by (intro load_run_Cons [OF load_step.arrive] load_run_Cons [OF two] load_run_Cons [OF three]
        load_run.load_refl)
  with state show ?thesis
    by (intro exI [of _ "s3\<lparr>ld_requests := (ld_requests s3)[0 := Rq_reply]\<rparr>"]) simp
qed

lemma can_load:
  assumes start: "load_start s" and no_file: "ld_file s = None" and cores: "st_all_cores (ld_store s) \<noteq> []"
  shows "\<exists>ls s'. load_run L E s ls s' \<and> (\<forall>c. Data c \<notin> set ls) \<and> File_changes \<notin> set ls \<and>
     st_load_state (ld_store s') = LOAD_STATE_LOADED"
proof -
  from can_claim [OF start no_file] obtain s1 where
    run1: "load_run L E s [Request_arrives, Request_runs 0, Request_runs 0] s1"
    and s1: "st_load_state (ld_store s1) = LOAD_STATE_LOADING" by blast
  have "load_inv s1" by (rule load_inv_run [OF run1 load_inv_start [OF start]])
  moreover have "cores_inv E (st_all_cores (ld_store s)) s1"
    by (rule cores_inv_run [OF run1 cores_inv_start [OF start]])
  ultimately obtain ls s' where run2: "load_run L E s1 ls s'"
    and ls: "\<forall>l \<in> set ls. loader_label l" and loaded: "st_load_state (ld_store s') = LOAD_STATE_LOADED"
    using loading_completes [of s1 E "st_all_cores (ld_store s)" L] s1 cores by auto
  have "Data c \<notin> set ls" "File_changes \<notin> set ls" for c using ls by force+
  with load_run_append [OF run2 run1] loaded show ?thesis by fastforce
qed

text \<open>After loading is over only data commands change the values, and nothing loads again.\<close>

lemma loaded_step:
  assumes step: "load_step L E s l s'" and ok: "load_inv s"
    and loaded: "st_load_state (ld_store s) = LOAD_STATE_LOADED" and l: "\<And>c. l \<noteq> Data c"
  shows "kv_of L (ld_store s') = kv_of L (ld_store s) \<and> st_load_state (ld_store s') = LOAD_STATE_LOADED"
proof -
  note finished = loaded_finished [OF ok loaded]
  show ?thesis
    using step
  proof cases
    case (request_runs i attempts pc s1)
    have "kv_of L (ld_store s1) = kv_of L (ld_store s)"
      using request_runs(4)
      by (cases "ld_requests s ! i")
        (auto simp: kv_of_def update_peers_def Let_def split: option.splits sum.splits if_splits)
    moreover have "st_load_state (ld_store s1) = LOAD_STATE_LOADED"
      using next_request_frame [OF request_runs(4)] loaded by (auto simp: load_state_defs split: if_splits)
    ultimately show ?thesis by (simp add: request_runs(2))
  next
    case (init_runs i pc s1)
    with finished show ?thesis by simp
  next
    case (worker_runs i pc st)
    then have "ld_workers s ! i = Finished" using finished nth_mem by metis
    with worker_runs(4) show ?thesis by simp
  next
    case (data_runs c)
    with l show ?thesis by blast
  qed (simp_all add: loaded)
qed

lemma loaded_run: "\<lbrakk>load_run L E s ls s'; load_inv s; st_load_state (ld_store s) = LOAD_STATE_LOADED;
      \<forall>c. Data c \<notin> set ls\<rbrakk> \<Longrightarrow>
    kv_of L (ld_store s') = kv_of L (ld_store s) \<and> st_load_state (ld_store s') = LOAD_STATE_LOADED"
proof (induction rule: load_run.induct)
  case (load_trans s ls s' l s'')
  then have "kv_of L (ld_store s') = kv_of L (ld_store s)" "st_load_state (ld_store s') = LOAD_STATE_LOADED" by auto
  moreover have "\<And>c. l \<noteq> Data c" using load_trans.prems(3) by auto
  ultimately show ?case
    using loaded_step [OF load_trans.hyps(2) load_inv_run [OF load_trans.hyps(1) load_trans.prems(1)]] by auto
qed simp

text \<open>A request that finds a cluster file joins the node and answers \<open>ok\<close> when loading is over.\<close>

lemma can_join_loaded:
  assumes "\<not> st_peer_updated (ld_store s)" and "st_load_state (ld_store s) = LOAD_STATE_LOADED"
    and "js_read_cluster E data = Some info" and "pool_new (env_parse_addr E) (uc_hosts info) attempts = Some (Inr qs)"
  shows "\<exists>s'. load_run L E s ([File_changes, Request_arrives] @ replicate 4 (Request_runs (length (ld_requests s)))) s' \<and>
    st_count (ld_store s') = word_of_nat (length (uc_hosts info)) \<and> st_me (ld_store s') = uc_index info - 1 \<and>
    ci_pool (st_cluster (ld_store s')) = qs \<and> last (ld_requests s') = Rq_done (ok_response ''ok'')"
proof -
  let ?i = "length (ld_requests s)"
  let ?at = "\<lambda>pc st. \<lparr>ld_store = st, ld_file = Some data, ld_requests = ld_requests s @ [pc],
      ld_inits = ld_inits s, ld_workers = ld_workers s\<rparr>"
  let ?s1 = "(ld_store s)\<lparr>st_peer_updated := True\<rparr>"
  let ?u = "update_peers E (uc_hosts info) (uc_index info) attempts ?s1"
  obtain s2 where s2: "?u = (s2, Inr ())" by (auto simp: update_peers_def Let_def assms(4))
  note frame = update_peers_frame [of E "uc_hosts info" "uc_index info" attempts ?s1, unfolded s2 fst_conv]
  have loaded: "st_load_state s2 = LOAD_STATE_LOADED" using frame(1) assms(2) by simp
  have pool: "ci_pool (st_cluster s2) = qs" using s2 by (auto simp: update_peers_def Let_def assms(4))
  have runs: "load_step L E (?at pc st) (Request_runs ?i) (?at pc' st')"
    if "next_request E attempts pc (?at pc st) = Some (pc', (?at pc st)\<lparr>ld_store := st'\<rparr>)" for pc st pc' st'
  proof -
    have "next_request E attempts (ld_requests (?at pc st) ! ?i) (?at pc st) = Some (pc', (?at pc st)\<lparr>ld_store := st'\<rparr>)"
      using that by simp
    from load_step.request_runs [OF _ this] show ?thesis by simp
  qed
  have "load_step L E s File_changes (s\<lparr>ld_file := Some data\<rparr>)" by (rule load_step.file_changes)
  moreover have "load_step L E (s\<lparr>ld_file := Some data\<rparr>) Request_arrives (?at Rq_peers (ld_store s))"
    using load_step.arrive [of L E "s\<lparr>ld_file := Some data\<rparr>"] by (cases s) simp
  moreover have "load_step L E (?at Rq_peers (ld_store s)) (Request_runs ?i) (?at (Rq_update info) ?s1)"
    by (rule runs) (simp add: assms(1,3))
  moreover have "load_step L E (?at (Rq_update info) ?s1) (Request_runs ?i) (?at Rq_claim s2)"
    by (rule runs) (simp add: s2)
  moreover have "load_step L E (?at Rq_claim s2) (Request_runs ?i) (?at Rq_reply s2)"
    by (rule runs) (simp add: loaded load_state_defs)
  moreover have "load_step L E (?at Rq_reply s2) (Request_runs ?i) (?at (Rq_done (ok_response ''ok'')) s2)"
    by (rule runs) (simp add: loaded)
  ultimately have "load_run L E s [File_changes, Request_arrives, Request_runs ?i, Request_runs ?i, Request_runs ?i, Request_runs ?i]
      (?at (Rq_done (ok_response ''ok'')) s2)"
    by (intro load_run_Cons) (assumption | rule load_run.load_refl)+
  then show ?thesis
    by (intro exI [of _ "?at (Rq_done (ok_response ''ok'')) s2"])
      (simp add: frame pool eval_nat_numeral)
qed

end
