(* ===== verification/Loaded_Cluster.thy ===== *)
theory Loaded_Cluster
  imports Loader Sample_Cluster Hash_Samples
begin

text \<open>
  A cluster whose nodes have all loaded the same directories: which entries the handlers then find.
  The loader of a node keeps the entries whose bytes hash to its shard, the handlers look for a key
  where its string hashes to, so an entry is found exactly when the two shards are the same.
\<close>

section \<open>Loading keeps the place of a node\<close>

definition same_place :: "('kv, 'vs, 'zm, 'db) storage \<Rightarrow> ('kv, 'vs, 'zm, 'db) storage \<Rightarrow> bool" where
  "same_place s s' \<longleftrightarrow> st_zsets s' = st_zsets s \<and> st_heap s' = st_heap s \<and> st_next s' = st_next s \<and>
     st_cluster s' = st_cluster s \<and> st_me s' = st_me s \<and> st_count s' = st_count s"

lemma same_place_refl: "same_place s s"
  and same_place_trans: "\<lbrakk>same_place a b; same_place b c\<rbrakk> \<Longrightarrow> same_place a c"
  by (simp_all add: same_place_def)

lemma same_place_state: "same_place s (s\<lparr>st_load_state := x\<rparr>)"
  by (simp add: same_place_def)

lemma next_worker_place: "next_worker L pc s = Some (pc', s') \<Longrightarrow> same_place s s'"
  by (induction L pc s rule: next_worker.induct) (auto simp: same_place_def load_entry_def)

lemma load_step_place:
  assumes "load_step L E s l s'" and "\<And>c. l \<noteq> Data c" and set: "settled peers me s"
  shows "same_place (ld_store s) (ld_store s')"
  using assms(1)
proof cases
  case (request_runs i attempts pc s1)
  have "ld_requests s ! i \<noteq> Rq_update info" for info
    using set request_runs(3) nth_mem unfolding settled_def by metis
  with set request_runs(2,4) show ?thesis
    by (cases "ld_requests s ! i") (auto simp: settled_def same_place_def split: option.splits if_splits)
next
  case (init_runs i pc s1)
  with next_init_store(1) [OF init_runs(4)] show ?thesis by (auto simp: same_place_refl same_place_state)
next
  case (worker_runs i pc st)
  with next_worker_place show ?thesis by simp
qed (use assms(2) in \<open>simp_all add: same_place_refl\<close>)

lemma load_run_place:
  "\<lbrakk>load_run L E s ls s'; \<forall>c. Data c \<notin> set ls; st_peer_updated (ld_store s) \<or> File_changes \<notin> set ls;
    settled peers me s\<rbrakk> \<Longrightarrow>
   settled peers me s' \<and> st_peer_updated (ld_store s') = st_peer_updated (ld_store s) \<and>
   same_place (ld_store s) (ld_store s')"
proof (induction rule: load_run.induct)
  case (load_trans s ls s' l s'')
  then have IH: "settled peers me s'" "st_peer_updated (ld_store s') = st_peer_updated (ld_store s)"
    "same_place (ld_store s) (ld_store s')" by auto
  have l: "l \<noteq> Data c" for c using load_trans.prems(1) by auto
  have "l = File_changes \<Longrightarrow> st_peer_updated (ld_store s')" using load_trans.prems(2) IH(2) by auto
  with settled_step [OF load_trans.hyps(2) IH(1)] load_step_place [OF load_trans.hyps(2) l IH(1)] IH show ?case
    using same_place_trans by blast
qed (simp add: same_place_refl)

lemma node_ok_place: "\<lbrakk>same_place s s'; node_ok L hosts i s\<rbrakk> \<Longrightarrow> node_ok L hosts i s'"
  by (simp add: same_place_def node_ok_def pool_ok_def storage_ok_def)

section \<open>Where an entry is found\<close>

lemma own_entry_owner:
  assumes "cluster_ok L hosts w"
  shows "own_entry (word_of_nat (length hosts)) (word_of_nat (owner_index hosts k)) e \<longleftrightarrow>
    shard_u32 (Hash_slice (fst e)) (word_of_nat (length hosts)) = shard_u32 (Hash_str k) (word_of_nat (length hosts))"
proof -
  have len: "0 < length hosts" "length hosts < 2 ^ 32" using cluster_okD [OF assms] by auto
  have "unat (shard_u32 (Hash_str k) (word_of_nat (length hosts))) = owner_index hosts k"
    using unat_shard_u32 [OF len] by (simp add: owner_index_def)
  then have "shard_u32 (Hash_str k) (word_of_nat (length hosts)) = word_of_nat (owner_index hosts k)"
    by (metis of_nat_unat ucast_id)
  then show ?thesis by (simp add: own_entry_def)
qed

text \<open>The contents of a cluster in which every node has loaded.\<close>

lemma loaded_owner:
  fixes before after :: "nat \<Rightarrow> ('kv, 'vs, 'zm, 'db) loading"
  assumes L: "libs_ok L" and c: "cluster_ok L hosts w" and i: "i < length hosts"
    and start: "load_start (before i)" "ld_store (before i) = w_node w (hosts ! i)"
      "settled (word_of_nat (length hosts)) (word_of_nat i) (before i)"
    and run: "load_run L E (before i) (ls i) (after i)" "\<forall>c. Data c \<notin> set (ls i)" "File_changes \<notin> set (ls i)"
    and loaded: "st_load_state (ld_store (after i)) = LOAD_STATE_LOADED"
    and agree: "agree E (word_of_nat (length hosts)) (word_of_nat i)"
  shows "node_ok L hosts i (ld_store (after i))"
    and "e \<in> own_entries E (word_of_nat (length hosts)) (word_of_nat i) \<Longrightarrow>
      kv_of L (ld_store (after i)) (from_utf8_unchecked (fst e)) = Some (from_utf8_unchecked (snd e))"
    and "\<forall>e \<in> own_entries E (word_of_nat (length hosts)) (word_of_nat i). from_utf8_unchecked (fst e) \<noteq> k \<Longrightarrow>
      kv_of L (ld_store (after i)) k = kv_of L (w_node w (hosts ! i)) k"
proof -
  have "same_place (w_node w (hosts ! i)) (ld_store (after i))"
    using load_run_place [OF run(1,2) _ start(3)] run(3) start(2) by simp
  then show "node_ok L hosts i (ld_store (after i))"
    using cluster_okD(5) [OF c i] by (rule node_ok_place)
  have "st_peer_updated (ld_store (before i)) \<or> File_changes \<notin> set (ls i)" using run(3) by simp
  note inv = copy_inv_run [OF L agree run(1,2) this start(3) load_inv_start [OF start(1)] copy_inv_start [OF start(1)]]
  show "e \<in> own_entries E (word_of_nat (length hosts)) (word_of_nat i) \<Longrightarrow>
      kv_of L (ld_store (after i)) (from_utf8_unchecked (fst e)) = Some (from_utf8_unchecked (snd e))"
    and "\<forall>e \<in> own_entries E (word_of_nat (length hosts)) (word_of_nat i). from_utf8_unchecked (fst e) \<noteq> k \<Longrightarrow>
      kv_of L (ld_store (after i)) k = kv_of L (w_node w (hosts ! i)) k"
    using copy_inv_loaded [OF _ _ loaded] inv start(2) by metis+
qed

section \<open>Properties\<close>

text \<open>
  C10. When every node of a cluster has loaded the same directories, a query at any node for the key
  of an entry answers with the entry's value exactly if the two hashes of the key give the same
  shard; otherwise it answers as it would have before the loading, for a new cluster with 404. On a
  cluster of one node every entry is found.
\<close>

theorem loaded_cluster:
  fixes before after :: "nat \<Rightarrow> ('kv, 'vs, 'zm, 'db) loading"
  assumes L: "libs_ok L" and c: "cluster_ok L hosts w"
    and start: "\<And>i. i < length hosts \<Longrightarrow> load_start (before i) \<and> ld_store (before i) = w_node w (hosts ! i) \<and>
      settled (word_of_nat (length hosts)) (word_of_nat i) (before i)"
    and run: "\<And>i. i < length hosts \<Longrightarrow> load_run L E (before i) (ls i) (after i) \<and>
      (\<forall>c. Data c \<notin> set (ls i)) \<and> File_changes \<notin> set (ls i) \<and>
      st_load_state (ld_store (after i)) = LOAD_STATE_LOADED"
    and agree: "\<And>i. i < length hosts \<Longrightarrow> agree E (word_of_nat (length hosts)) (word_of_nat i)"
    and w': "net_ok w'" "\<And>i. i < length hosts \<Longrightarrow> w_node w' (hosts ! i) = ld_store (after i)"
    and e: "(b, v) \<in> dirs_entries E (init_dirs E)" and i: "i < length hosts"
  shows "cluster_ok L hosts w' \<and> (\<exists>w''. handle_query L (hosts ! i) (from_utf8_unchecked b) w' =
      (w'', Inr (query_response
        (if shard_u32 (Hash_slice b) (word_of_nat (length hosts)) =
            shard_u32 (Hash_str (from_utf8_unchecked b)) (word_of_nat (length hosts))
         then Some (from_utf8_unchecked v)
         else sp_kv (cluster_abs L hosts w) (from_utf8_unchecked b))))) \<and>
    (length hosts = 1 \<longrightarrow> sp_kv (cluster_abs L hosts w') (from_utf8_unchecked b) = Some (from_utf8_unchecked v))"
proof -
  let ?k = "from_utf8_unchecked b" and ?n = "word_of_nat (length hosts) :: u64"
  let ?same = "shard_u32 (Hash_slice b) ?n = shard_u32 (Hash_str ?k) ?n"
  note node = loaded_owner [OF L c _ _ _ _ _ _ _ _ agree, where before = before and after = after and ls = ls]
  have ok: "cluster_ok L hosts w'"
    using c node(1) start run w'(2) by (simp add: cluster_ok_def)
  let ?j = "owner_index hosts ?k"
  have j: "?j < length hosts" using cluster_okD(1) [OF c] by (rule owner_index_less)
  note own = own_entry_owner [OF c, of ?k]
  have abs: "sp_kv (cluster_abs L hosts w') ?k = kv_of L (ld_store (after ?j)) ?k"
    "sp_kv (cluster_abs L hosts w) ?k = kv_of L (w_node w (hosts ! ?j)) ?k"
    by (simp_all add: cluster_abs_def owner_def w'(2) [OF j])
  have content: "sp_kv (cluster_abs L hosts w') ?k =
      (if ?same then Some (from_utf8_unchecked v) else sp_kv (cluster_abs L hosts w) ?k)"
  proof (cases ?same)
    case True
    then have "(b, v) \<in> own_entries E ?n (word_of_nat ?j)" using own e by (simp add: own_entries_def)
    from node(2) [OF j _ _ _ _ _ _ _ j this] start [OF j] run [OF j] True show ?thesis by (simp add: abs)
  next
    case False
    have "\<forall>e \<in> own_entries E ?n (word_of_nat ?j). from_utf8_unchecked (fst e) \<noteq> ?k"
      using own False by (auto simp: own_entries_def from_utf8_inject)
    from node(3) [OF j _ _ _ _ _ _ _ j this] start [OF j] run [OF j] False show ?thesis by (simp add: abs)
  qed
  moreover have "?same" if "length hosts = 1" using that by (simp add: shard_u32_def get_shard_def)
  ultimately show ?thesis
    using ok handle_query_cluster [OF ok w'(1) i, of ?k] by auto
qed

text \<open>One directory with one entry, for the witnesses.\<close>

definition loader_env :: env where
  "loader_env = sample_env\<lparr>env_init_dirs := Some ''d'',
     env_open_db := (\<lambda>d. if d = ''d'' then Some [(as_bytes ''a'', as_bytes ''v'')] else None)\<rparr>"

lemma loader_env_dirs: "init_dirs loader_env = [''d'']"
  by (simp add: init_dirs_def loader_env_def)

lemma loader_env_entries:
  "own_entries loader_env 2 0 = {(as_bytes ''a'', as_bytes ''v'')}" "agree loader_env 2 0"
  by (auto simp: agree_def own_entries_def dirs_entries_def loader_env_dirs own_entry_def shards_of_a)
    (simp_all add: loader_env_def shards_of_a)

text \<open>The sample cluster, its nodes with a core each, and their loading.\<close>

definition loading_world :: "sample_storage world" where
  "loading_world = sample_world\<lparr>w_node := (\<lambda>h. (w_node sample_world h)\<lparr>st_all_cores := [0]\<rparr>)\<rparr>"

definition loading_node ::
    "nat \<Rightarrow> (string \<Rightarrow> string option, string \<Rightarrow> u32 option, string \<Rightarrow> nat option, (bytes \<times> bytes) list) loading" where
  "loading_node i = \<lparr>ld_store = w_node loading_world (sample_hosts ! i), ld_file = None, ld_requests = [],
     ld_inits = [], ld_workers = []\<rparr>"

lemma loading_world_facts:
  "cluster_ok ref_libs sample_hosts loading_world" "cluster_abs ref_libs sample_hosts loading_world = spec_empty"
proof -
  have "node_ok L hosts i (s\<lparr>st_all_cores := cs\<rparr>) = node_ok L hosts i s" for L hosts i cs and s :: sample_storage
    by (simp add: node_ok_def pool_ok_def storage_ok_def)
  then show "cluster_ok ref_libs sample_hosts loading_world"
    using sample_world_ok(1) by (simp add: cluster_ok_def loading_world_def)
  show "cluster_abs ref_libs sample_hosts loading_world = spec_empty"
    using sample_world_abs by (simp add: cluster_abs_def loading_world_def kv_of_def zs_of_def fun_eq_iff)
qed

lemma loading_node_facts:
  assumes "i < length sample_hosts"
  shows "load_start (loading_node i)" "ld_file (loading_node i) = None" "st_all_cores (ld_store (loading_node i)) \<noteq> []"
    "settled (word_of_nat (length sample_hosts)) (word_of_nat i) (loading_node i)"
proof -
  have "w_node sample_world (sample_hosts ! i) = sample_node i"
    using assms by (auto simp: sample_world_def sample_hosts_def less_Suc_eq)
  then show "load_start (loading_node i)" "ld_file (loading_node i) = None"
    "st_all_cores (ld_store (loading_node i)) \<noteq> []"
    "settled (word_of_nat (length sample_hosts)) (word_of_nat i) (loading_node i)"
    by (simp_all add: loading_node_def load_start_def settled_def loading_world_def sample_node_def
        update_peers_frame new_storage_def)
qed

theorem loaded_cluster_witness:
  "\<exists>w' w''. cluster_ok ref_libs sample_hosts w' \<and>
    handle_query ref_libs ''n1'' ''a'' w' = (w'', Inr (empty_response NOT_FOUND))"
proof -
  have "\<exists>ls s'. load_run ref_libs loader_env (loading_node i) ls s' \<and> (\<forall>c. Data c \<notin> set ls) \<and>
      File_changes \<notin> set ls \<and> st_load_state (ld_store s') = LOAD_STATE_LOADED" if "i < length sample_hosts" for i
    by (rule can_load [OF loading_node_facts(1-3) [OF that]])
  then obtain ls after where run: "\<And>i. i < length sample_hosts \<Longrightarrow>
      load_run ref_libs loader_env (loading_node i) (ls i) (after i) \<and> (\<forall>c. Data c \<notin> set (ls i)) \<and>
      File_changes \<notin> set (ls i) \<and> st_load_state (ld_store (after i)) = LOAD_STATE_LOADED" by metis
  let ?w' = "loading_world\<lparr>w_node := (\<lambda>h. if h = ''n1'' then ld_store (after 0) else ld_store (after 1))\<rparr>"
  have start: "load_start (loading_node i) \<and> ld_store (loading_node i) = w_node loading_world (sample_hosts ! i) \<and>
      settled (word_of_nat (length sample_hosts)) (word_of_nat i) (loading_node i)" if "i < length sample_hosts" for i
    using loading_node_facts [OF that] by (simp add: loading_node_def)
  have agree: "agree loader_env (word_of_nat (length sample_hosts)) (word_of_nat i)" for i
    by (auto simp: agree_def own_entries_def dirs_entries_def loader_env_dirs) (simp add: loader_env_def)
  have net: "net_ok ?w'" using sample_world_ok(2) by (simp add: net_ok_def loading_world_def)
  have nodes: "w_node ?w' (sample_hosts ! i) = ld_store (after i)" if "i < length sample_hosts" for i
    using that by (auto simp: sample_hosts_def less_Suc_eq)
  have e: "(as_bytes ''a'', as_bytes ''v'') \<in> dirs_entries loader_env (init_dirs loader_env)"
    unfolding loader_env_dirs by (simp add: dirs_entries_def) (simp add: loader_env_def)
  have i: "0 < length sample_hosts" by (simp add: sample_hosts_def)
  from loaded_cluster [OF ref_libs_ok loading_world_facts(1) start run agree net nodes e i]
  show ?thesis
    by (auto simp: bytes_simps shards_of_a loading_world_facts(2) [unfolded sample_hosts_def] spec_empty_def query_response_def sample_hosts_def)
qed

end
