(* ===== verification/Zset_Race.thy ===== *)
theory Zset_Race
  imports Zset_Memory
begin

text \<open>
  Concurrent additions and removals on one sorted set, interleaved at the points where
  \<open>zadd_memory\<close> and \<open>zrmv\<close> give up exclusive access: each access to \<open>value_to_score\<close> is one
  step, each critical section of the lock on \<open>score_to_values\<close> is one step. Operations on
  different members may interleave freely; two additions of the same new member may leave it in
  two buckets.
\<close>

section \<open>Steps\<close>

datatype zset_pc =
    Add_Start score_value
  | Add_Move score_value u32
  | Add_Record score_value
  | Add_Insert score_value
  | Add_Index score_value
  | Rmv_Start string
  | Rmv_Index string u32
  | Op_Done

fun next_op :: "('vs, u32) cuckoo \<Rightarrow> zset_pc \<Rightarrow> 'vs zset \<Rightarrow> zset_pc \<times> 'vs zset" where
  "next_op V (Add_Start sv) z =
     (case ck_get V (value_to_score z) (sv_value sv) of
        Some score \<Rightarrow> (if score \<noteq> sv_score sv then Add_Move sv score else Op_Done, z)
      | None \<Rightarrow> (Add_Insert sv, z))"
| "next_op V (Add_Move sv score) z =
     (Add_Record sv, z\<lparr>score_to_values :=
        index_add (sv_score sv) (sv_value sv) (index_remove score (sv_value sv) (score_to_values z))\<rparr>)"
| "next_op V (Add_Record sv) z =
     (Op_Done, z\<lparr>value_to_score := ck_insert V (value_to_score z) (sv_value sv) (sv_score sv)\<rparr>)"
| "next_op V (Add_Insert sv) z =
     (Add_Index sv, z\<lparr>value_to_score := ck_insert V (value_to_score z) (sv_value sv) (sv_score sv)\<rparr>)"
| "next_op V (Add_Index sv) z =
     (Op_Done, z\<lparr>score_to_values := index_add (sv_score sv) (sv_value sv) (score_to_values z)\<rparr>)"
| "next_op V (Rmv_Start v) z =
     (case ck_remove V (value_to_score z) v of
        (m, None) \<Rightarrow> (Op_Done, z\<lparr>value_to_score := m\<rparr>)
      | (m, Some score) \<Rightarrow> (Rmv_Index v score, z\<lparr>value_to_score := m\<rparr>))"
| "next_op V (Rmv_Index v score) z =
     (Op_Done, z\<lparr>score_to_values := index_remove score v (score_to_values z)\<rparr>)"
| "next_op V Op_Done z = (Op_Done, z)"

text \<open>One operation by itself, and the threads of several, with the schedule that ran.\<close>

inductive race ::
    "('vs, u32) cuckoo \<Rightarrow> 'vs zset \<Rightarrow> zset_pc list \<Rightarrow> nat list \<Rightarrow> 'vs zset \<Rightarrow> zset_pc list \<Rightarrow> bool"
  for V :: "('vs, u32) cuckoo" where
  race_refl: "race V z pcs [] z pcs"
| race_step: "\<lbrakk>i < length pcs; pcs ! i \<noteq> Op_Done; next_op V (pcs ! i) z = (pc, z1);
    race V z1 (pcs[i := pc]) is z2 pcs2\<rbrakk> \<Longrightarrow> race V z pcs (i # is) z2 pcs2"

inductive_cases race_stepE: "race V z pcs (i # is) z2 pcs2"
inductive_simps race_Nil: "race V z pcs [] z2 pcs2"

datatype zset_op = Zset_Add score_value | Zset_Rmv string

fun op_start :: "zset_op \<Rightarrow> zset_pc" where
  "op_start (Zset_Add sv) = Add_Start sv"
| "op_start (Zset_Rmv v) = Rmv_Start v"

fun op_member :: "zset_op \<Rightarrow> string" where
  "op_member (Zset_Add sv) = sv_value sv"
| "op_member (Zset_Rmv v) = v"

text \<open>The operation alone, on the zset and on the map it stands for.\<close>

fun op_run :: "('vs, u32) cuckoo \<Rightarrow> zset_op \<Rightarrow> 'vs zset \<Rightarrow> 'vs zset" where
  "op_run V (Zset_Add sv) z = zset_add V z sv"
| "op_run V (Zset_Rmv v) z = fst (zset_remove V z v)"

fun op_result :: "zset_op \<Rightarrow> u32 option" where
  "op_result (Zset_Add sv) = Some (sv_score sv)"
| "op_result (Zset_Rmv v) = None"

lemma op_run_ok: "\<lbrakk>cuckoo_laws V; zset_ok V z\<rbrakk> \<Longrightarrow> zset_ok V (op_run V opn z)"
  by (cases opn) (simp_all add: inv_intros)

lemma op_run_abs: "cuckoo_laws V \<Longrightarrow> zset_abs V (op_run V opn z) = (zset_abs V z)(op_member opn := op_result opn)"
  by (cases opn) (simp_all add: abs_simps)

section \<open>One operation at a time\<close>

text \<open>
  The steps of an addition or a removal that runs without interruption, at most three, end in
  the zset its sequential definition gives.
\<close>

theorem uninterrupted_operation:
  "\<exists>is. length is \<le> 3 \<and> race V z [op_start opn] is (op_run V opn z) [Op_Done]"
proof (cases opn)
  case (Zset_Add sv)
  show ?thesis
  proof (cases "ck_get V (value_to_score z) (sv_value sv)")
    case None
    then show ?thesis
      unfolding Zset_Add
      by (intro exI [of _ "[0, 0, 0]"])
        (auto simp: zset_add_def Let_def intro!: race_step race_refl)
  next
    case (Some score)
    show ?thesis
    proof (cases "score = sv_score sv")
      case True
      with Some show ?thesis
        unfolding Zset_Add
        by (intro exI [of _ "[0]"]) (auto simp: zset_add_def Let_def intro!: race_step race_refl)
    next
      case False
      with Some show ?thesis
        unfolding Zset_Add
        by (intro exI [of _ "[0, 0, 0]"]) (auto simp: zset_add_def Let_def intro!: race_step race_refl)
    qed
  qed
next
  case (Zset_Rmv v)
  show ?thesis
  proof (cases "snd (ck_remove V (value_to_score z) v)")
    case None
    then show ?thesis
      unfolding Zset_Rmv
      by (intro exI [of _ "[0]"])
        (auto simp: zset_remove_def split: prod.splits intro!: race_step race_refl)
  next
    case (Some score)
    then show ?thesis
      unfolding Zset_Rmv
      by (intro exI [of _ "[0, 0]"])
        (auto simp: zset_remove_def split: prod.splits intro!: race_step race_refl)
  qed
qed

section \<open>Operations on different members\<close>

definition in_bucket :: "(u32 \<times> string set) list \<Rightarrow> string \<Rightarrow> u32 \<Rightarrow> bool" where
  "in_bucket idx v sc \<longleftrightarrow> (\<exists>vs. bt_get idx sc = Some vs \<and> v \<in> vs)"

definition index_wf :: "(u32 \<times> string set) list \<Rightarrow> bool" where
  "index_wf idx \<longleftrightarrow> bt_inv idx \<and> (\<forall>sc vs. bt_get idx sc = Some vs \<longrightarrow> finite vs)"

lemma zset_ok_buckets:
  "zset_ok V z \<longleftrightarrow> index_wf (score_to_values z) \<and>
     (\<forall>v. in_bucket (score_to_values z) v = (\<lambda>sc. zset_abs V z v = Some sc))"
proof -
  have "(\<forall>v. in_bucket (score_to_values z) v = (\<lambda>sc. zset_abs V z v = Some sc)) \<longleftrightarrow>
      (\<forall>v sc. zset_abs V z v = Some sc \<longleftrightarrow> (\<exists>vs. bt_get (score_to_values z) sc = Some vs \<and> v \<in> vs))"
    unfolding in_bucket_def fun_eq_iff by (intro iff_allI eq_commute)
  then show ?thesis by (simp add: zset_ok_def index_of_def index_wf_def)
qed

lemma index_add_facts:
  assumes "index_wf idx"
  shows "index_wf (index_add s v idx)"
    and "in_bucket (index_add s v idx) u = (\<lambda>sc. in_bucket idx u sc \<or> (u = v \<and> sc = s))"
proof -
  have inv: "bt_inv idx" and fin: "\<And>sc vs. bt_get idx sc = Some vs \<Longrightarrow> finite vs"
    using assms by (auto simp: index_wf_def)
  have get: "bt_get (index_add s v idx) =
      (bt_get idx)(s \<mapsto> insert v (case bt_get idx s of None \<Rightarrow> {} | Some vs \<Rightarrow> vs))"
    by (simp add: index_add_def bt.get_or_insert_with [OF inv])
  show "index_wf (index_add s v idx)"
    using fin by (auto simp: index_wf_def get index_add_def bt.invar_or_insert_with [OF inv]
        bt.get_or_insert_with [OF inv] split: if_splits option.splits)
  show "in_bucket (index_add s v idx) u = (\<lambda>sc. in_bucket idx u sc \<or> (u = v \<and> sc = s))"
    by (auto simp: fun_eq_iff in_bucket_def get split: option.splits if_splits)
qed

lemma index_remove_facts:
  assumes "index_wf idx"
  shows "index_wf (index_remove s v idx)"
    and "in_bucket (index_remove s v idx) u = (\<lambda>sc. in_bucket idx u sc \<and> \<not> (u = v \<and> sc = s))"
proof -
  have inv: "bt_inv idx" and fin: "\<And>sc vs. bt_get idx sc = Some vs \<Longrightarrow> finite vs"
    using assms by (auto simp: index_wf_def)
  have get: "bt_get (index_remove s v idx) =
      (bt_get idx)(s := map_option (\<lambda>values. values - {v}) (bt_get idx s))"
    by (simp add: index_remove_def bt.get_and_modify [OF inv])
  show "index_wf (index_remove s v idx)"
    using fin by (auto simp: index_wf_def index_remove_def bt.invar_and_modify [OF inv]
        bt.get_and_modify [OF inv] split: if_splits)
  show "in_bucket (index_remove s v idx) u = (\<lambda>sc. in_bucket idx u sc \<and> \<not> (u = v \<and> sc = s))"
    by (auto simp: fun_eq_iff in_bucket_def get)
qed

text \<open>
  What holds of the member of an operation while the operation is at a point: its score in the
  map and its buckets, given the score \<open>m0\<close> it had before.
\<close>

fun op_inv :: "u32 option \<Rightarrow> zset_op \<Rightarrow> zset_pc \<Rightarrow> u32 option \<Rightarrow> (u32 \<Rightarrow> bool) \<Rightarrow> bool" where
  "op_inv m0 (Zset_Add sv) pc m b \<longleftrightarrow>
     (case pc of
        Add_Start sv1 \<Rightarrow> sv1 = sv \<and> m = m0 \<and> b = (\<lambda>sc. m0 = Some sc)
      | Add_Move sv1 score \<Rightarrow> sv1 = sv \<and> m0 = Some score \<and> m = m0 \<and> b = (\<lambda>sc. sc = score)
      | Add_Record sv1 \<Rightarrow> sv1 = sv \<and> m = m0 \<and> b = (\<lambda>sc. sc = sv_score sv)
      | Add_Insert sv1 \<Rightarrow> sv1 = sv \<and> m0 = None \<and> m = None \<and> b = (\<lambda>sc. False)
      | Add_Index sv1 \<Rightarrow> sv1 = sv \<and> m0 = None \<and> m = Some (sv_score sv) \<and> b = (\<lambda>sc. False)
      | Op_Done \<Rightarrow> m = Some (sv_score sv) \<and> b = (\<lambda>sc. sc = sv_score sv)
      | _ \<Rightarrow> False)"
| "op_inv m0 (Zset_Rmv v) pc m b \<longleftrightarrow>
     (case pc of
        Rmv_Start v1 \<Rightarrow> v1 = v \<and> m = m0 \<and> b = (\<lambda>sc. m0 = Some sc)
      | Rmv_Index v1 score \<Rightarrow> v1 = v \<and> m0 = Some score \<and> m = None \<and> b = (\<lambda>sc. sc = score)
      | Op_Done \<Rightarrow> m = None \<and> b = (\<lambda>sc. False)
      | _ \<Rightarrow> False)"

lemma op_inv_step:
  assumes V: "cuckoo_laws V" and wf: "index_wf (score_to_values z)"
    and inv: "op_inv m0 opn pc (zset_abs V z (op_member opn)) (in_bucket (score_to_values z) (op_member opn))"
    and step: "next_op V pc z = (pc1, z1)"
  shows "op_inv m0 opn pc1 (zset_abs V z1 (op_member opn)) (in_bucket (score_to_values z1) (op_member opn))"
    and "index_wf (score_to_values z1)"
    and "u \<noteq> op_member opn \<Longrightarrow> zset_abs V z1 u = zset_abs V z u"
    and "u \<noteq> op_member opn \<Longrightarrow> in_bucket (score_to_values z1) u = in_bucket (score_to_values z) u"
proof -
  note facts = index_add_facts [OF index_remove_facts(1) [OF wf]] index_add_facts [OF wf] index_remove_facts [OF wf]
  have "op_inv m0 opn pc1 (zset_abs V z1 (op_member opn)) (in_bucket (score_to_values z1) (op_member opn)) \<and>
      index_wf (score_to_values z1) \<and> (u \<noteq> op_member opn \<longrightarrow> zset_abs V z1 u = zset_abs V z u \<and>
        in_bucket (score_to_values z1) u = in_bucket (score_to_values z) u)" for u
  proof (cases opn)
    case (Zset_Add sv)
    show ?thesis
      using inv step wf unfolding Zset_Add
      by (cases pc) (auto simp: zset_abs_def ck_laws [OF V] facts split: option.splits if_splits)
  next
    case (Zset_Rmv v)
    show ?thesis
      using inv step wf ck_get_remove [OF V, of "value_to_score z" v] ck_snd_remove [OF V, of "value_to_score z" v]
      unfolding Zset_Rmv
      by (cases pc) (auto simp: zset_abs_def facts split: option.splits prod.splits)
  qed
  then show "op_inv m0 opn pc1 (zset_abs V z1 (op_member opn)) (in_bucket (score_to_values z1) (op_member opn))"
    and "index_wf (score_to_values z1)"
    and "u \<noteq> op_member opn \<Longrightarrow> zset_abs V z1 u = zset_abs V z u"
    and "u \<noteq> op_member opn \<Longrightarrow> in_bucket (score_to_values z1) u = in_bucket (score_to_values z) u"
    by blast+
qed

definition race_inv ::
    "('vs, u32) cuckoo \<Rightarrow> (string \<Rightarrow> u32 option) \<Rightarrow> zset_op list \<Rightarrow> 'vs zset \<Rightarrow> zset_pc list \<Rightarrow> bool" where
  "race_inv V m0 ops z pcs \<longleftrightarrow> length pcs = length ops \<and> index_wf (score_to_values z) \<and>
     (\<forall>i < length ops. op_inv (m0 (op_member (ops ! i))) (ops ! i) (pcs ! i)
        (zset_abs V z (op_member (ops ! i))) (in_bucket (score_to_values z) (op_member (ops ! i)))) \<and>
     (\<forall>v. v \<notin> op_member ` set ops \<longrightarrow>
        zset_abs V z v = m0 v \<and> in_bucket (score_to_values z) v = (\<lambda>sc. m0 v = Some sc))"

lemma race_inv_start:
  assumes "zset_ok V z"
  shows "race_inv V (zset_abs V z) ops z (map op_start ops)"
proof -
  have "op_inv (zset_abs V z (op_member opn)) opn (op_start opn) (zset_abs V z (op_member opn))
      (in_bucket (score_to_values z) (op_member opn))" for opn
    using assms by (cases opn) (auto simp: zset_ok_buckets)
  then show ?thesis using assms by (auto simp: race_inv_def zset_ok_buckets)
qed

lemma race_inv_step:
  assumes V: "cuckoo_laws V" and distinct: "distinct (map op_member ops)" and inv: "race_inv V m0 ops z pcs"
    and i: "i < length pcs" and step: "next_op V (pcs ! i) z = (pc, z1)"
  shows "race_inv V m0 ops z1 (pcs[i := pc])"
proof -
  from inv i have len: "length pcs = length ops" and i': "i < length ops"
    and wf: "index_wf (score_to_values z)"
    and at: "op_inv (m0 (op_member (ops ! i))) (ops ! i) (pcs ! i)
        (zset_abs V z (op_member (ops ! i))) (in_bucket (score_to_values z) (op_member (ops ! i)))"
    by (simp_all add: race_inv_def)
  note s = op_inv_step [OF V wf at step]
  have other: "op_member (ops ! j) \<noteq> op_member (ops ! i)" if "j < length ops" "j \<noteq> i" for j
    using distinct that i' by (simp add: distinct_conv_nth)
  have "op_inv (m0 (op_member (ops ! j))) (ops ! j) (pcs[i := pc] ! j)
      (zset_abs V z1 (op_member (ops ! j))) (in_bucket (score_to_values z1) (op_member (ops ! j)))"
    if j: "j < length ops" for j
  proof (cases "j = i")
    case True
    then show ?thesis using s(1) i by simp
  next
    case False
    from other [OF j this] s(3,4) inv j False show ?thesis by (simp add: race_inv_def)
  qed
  moreover have "zset_abs V z1 v = m0 v \<and> in_bucket (score_to_values z1) v = (\<lambda>sc. m0 v = Some sc)"
    if "v \<notin> op_member ` set ops" for v
  proof -
    from that i' have "v \<noteq> op_member (ops ! i)" by force
    with s(3,4) inv that show ?thesis by (simp add: race_inv_def)
  qed
  ultimately show ?thesis using s(2) len by (simp add: race_inv_def)
qed

lemma race_inv_run:
  "\<lbrakk>race V z pcs is z1 pcs1; cuckoo_laws V; distinct (map op_member ops); race_inv V m0 ops z pcs\<rbrakk> \<Longrightarrow>
     race_inv V m0 ops z1 pcs1"
  by (induction rule: race.induct) (auto intro: race_inv_step)

text \<open>The contents after the operations in the order of the list.\<close>

lemma serial_abs:
  assumes "cuckoo_laws V" and "distinct (map op_member ops)"
  shows "zset_abs V (fold (op_run V) ops z) v =
    (case find (\<lambda>opn. op_member opn = v) ops of None \<Rightarrow> zset_abs V z v | Some opn \<Rightarrow> op_result opn)"
  using assms(2)
proof (induction ops arbitrary: z)
  case (Cons opn ops)
  have "find (\<lambda>opn. op_member opn = v) ops = None" if "op_member opn = v"
    using Cons.prems that by (auto simp: find_None_iff) (metis image_eqI)
  with Cons show ?case by (auto simp: op_run_abs [OF assms(1)] split: option.splits)
qed simp

lemma race_inv_done:
  assumes V: "cuckoo_laws V" and distinct: "distinct (map op_member ops)"
    and inv: "race_inv V (zset_abs V z0) ops z pcs" and over: "\<forall>pc \<in> set pcs. pc = Op_Done"
  shows "zset_ok V z" and "zset_abs V z = zset_abs V (fold (op_run V) ops z0)"
proof -
  have fin: "zset_abs V z (op_member (ops ! i)) = op_result (ops ! i) \<and>
      in_bucket (score_to_values z) (op_member (ops ! i)) = (\<lambda>sc. op_result (ops ! i) = Some sc)"
    if i: "i < length ops" for i
  proof -
    have "pcs ! i = Op_Done" using over inv i by (simp add: race_inv_def)
    with inv i show ?thesis
      by (cases "ops ! i") (auto simp: race_inv_def fun_eq_iff dest!: spec [of _ i])
  qed
  have view: "in_bucket (score_to_values z) v = (\<lambda>sc. zset_abs V z v = Some sc) \<and>
      zset_abs V z v = zset_abs V (fold (op_run V) ops z0) v" for v
  proof (cases "find (\<lambda>opn. op_member opn = v) ops")
    case None
    then have "v \<notin> op_member ` set ops" by (auto simp: find_None_iff)
    with inv None show ?thesis by (simp add: race_inv_def serial_abs [OF V distinct])
  next
    case (Some opn)
    then obtain i where "i < length ops" "opn = ops ! i" "op_member opn = v" by (auto simp: find_Some_iff)
    with fin [of i] Some show ?thesis by (simp add: serial_abs [OF V distinct])
  qed
  with inv show "zset_ok V z" by (simp add: zset_ok_buckets race_inv_def)
  show "zset_abs V z = zset_abs V (fold (op_run V) ops z0)" using view by blast
qed

text \<open>An operation takes at most three steps, whatever happens around it.\<close>

fun steps_left :: "zset_pc \<Rightarrow> nat" where
  "steps_left (Add_Start sv) = 3"
| "steps_left (Add_Move sv score) = 2"
| "steps_left (Add_Record sv) = 1"
| "steps_left (Add_Insert sv) = 2"
| "steps_left (Add_Index sv) = 1"
| "steps_left (Rmv_Start v) = 2"
| "steps_left (Rmv_Index v score) = 1"
| "steps_left Op_Done = 0"

lemma next_op_steps: "\<lbrakk>next_op V pc z = (pc1, z1); pc \<noteq> Op_Done\<rbrakk> \<Longrightarrow> steps_left pc1 < steps_left pc"
  by (cases pc) (auto split: option.splits if_splits prod.splits)

lemma race_length: "race V z pcs is z1 pcs1 \<Longrightarrow> length is + sum_list (map steps_left pcs1) \<le> sum_list (map steps_left pcs)"
proof (induction rule: race.induct)
  case (race_step i pcs z pc z1 "is" z2 pcs2)
  have "sum_list (map steps_left (pcs[i := pc])) < sum_list (map steps_left pcs)"
    using next_op_steps [OF race_step(3,2)] race_step(1) by (intro sum_list_update_less)
  with race_step.IH show ?case by simp
qed simp

lemma iteration_singleton: "iteration_laws it \<Longrightarrow> it {v} = [v]"
proof -
  assume "iteration_laws it"
  then have "set (it {v}) = {v}" "distinct (it {v})" by (simp_all add: iteration_laws_def)
  then have "length (it {v}) = 1" using distinct_card [of "it {v}"] by simp
  with \<open>set (it {v}) = {v}\<close> show ?thesis by (cases "it {v}") auto
qed

section \<open>Properties\<close>

text \<open>
  Additions and removals of different members, interleaved in any way, end in a consistent
  zset with the contents they would have produced one after the other, in at most three steps
  each.
\<close>

theorem distinct_members_interleave:
  assumes "cuckoo_laws V" and "zset_ok V z" and "distinct (map op_member ops)"
    and "race V z (map op_start ops) is z1 pcs" and "\<forall>pc \<in> set pcs. pc = Op_Done"
  shows "zset_ok V z1 \<and> zset_abs V z1 = zset_abs V (fold (op_run V) ops z) \<and> length is \<le> 3 * length ops"
proof -
  have "race_inv V (zset_abs V z) ops z1 pcs"
    by (rule race_inv_run [OF assms(4,1,3) race_inv_start [OF assms(2)]])
  note inv_done = race_inv_done [OF assms(1,3) this assms(5)]
  have "steps_left (op_start opn) \<le> 3" for opn by (cases opn) simp_all
  then have "sum_list (map steps_left (map op_start ops)) \<le> 3 * length ops"
    by (induction ops) (simp_all add: add_mono)
  with race_length [OF assms(4)] inv_done show ?thesis by simp
qed

theorem distinct_members_interleave_witness:
  "\<exists>z. race fun_cuckoo (zset_new fun_cuckoo) [Add_Start (Score_Value 1 ''a''), Add_Start (Score_Value 2 ''b'')]
      [0, 1, 1, 0, 1, 0] z [Op_Done, Op_Done] \<and> zset_ok fun_cuckoo z"
proof -
  have "\<exists>z. race fun_cuckoo (zset_new fun_cuckoo) [Add_Start (Score_Value 1 ''a''), Add_Start (Score_Value 2 ''b'')]
      [0, 1, 1, 0, 1, 0] z [Op_Done, Op_Done]"
    by (auto simp: fun_cuckoo_def zset_new_def intro!: exI race_step race_refl)
  then obtain z where z: "race fun_cuckoo (zset_new fun_cuckoo)
      (map op_start [Zset_Add (Score_Value 1 ''a''), Zset_Add (Score_Value 2 ''b'')])
      [0, 1, 1, 0, 1, 0] z [Op_Done, Op_Done]" by auto
  have "zset_ok fun_cuckoo z"
    using distinct_members_interleave [OF fun_cuckoo_laws zset_new_ok [OF fun_cuckoo_laws] _ z] by simp
  with z show ?thesis by auto
qed

text \<open>
  A member in the bucket of a score that is not its score in the map. No addition or removal can
  clear the bucket of it, except after an addition with that very score.
\<close>

definition stale :: "('vs, u32) cuckoo \<Rightarrow> u32 \<Rightarrow> string \<Rightarrow> 'vs zset \<Rightarrow> bool" where
  "stale V score v z \<longleftrightarrow> index_wf (score_to_values z) \<and> in_bucket (score_to_values z) v score \<and>
     zset_abs V z v \<noteq> Some score"

lemma stale_op:
  assumes V: "cuckoo_laws V" and stale: "stale V score v z" and other: "opn \<noteq> Zset_Add (Score_Value score v)"
  shows "stale V score v (op_run V opn z)"
proof -
  have wf: "index_wf (score_to_values z)" using stale by (simp add: stale_def)
  note facts = index_add_facts [OF index_remove_facts(1) [OF wf]] index_add_facts [OF wf] index_remove_facts [OF wf]
  show ?thesis
  proof (cases opn)
    case (Zset_Add sv)
    then have "sv_value sv = v \<Longrightarrow> sv_score sv \<noteq> score" using other by (cases sv) auto
    then show ?thesis
      using stale unfolding Zset_Add
      by (auto simp: stale_def zset_add_def Let_def zset_abs_def ck_laws [OF V] facts split: option.split)
  next
    case (Zset_Rmv u)
    show ?thesis
      using stale ck_get_remove [OF V, of "value_to_score z" u] ck_snd_remove [OF V, of "value_to_score z" u]
      unfolding Zset_Rmv
      by (auto simp: stale_def zset_remove_def zset_abs_def facts split: option.splits prod.splits if_splits)
  qed
qed

lemma stale_run: "\<lbrakk>cuckoo_laws V; stale V score v z; Zset_Add (Score_Value score v) \<notin> set ops\<rbrakk> \<Longrightarrow>
    stale V score v (fold (op_run V) ops z)"
proof (induction ops arbitrary: z)
  case (Cons opn ops)
  then have "opn \<noteq> Zset_Add (Score_Value score v)" by auto
  with Cons stale_op [OF Cons.prems(1,2)] show ?case by simp
qed simp

lemma bucket_in_range:
  assumes "index_wf (score_to_values z)" and "in_bucket (score_to_values z) v score" and "iteration_laws it"
    and "in_range r score"
  shows "\<exists>rs. zset_range it z r = Inr rs \<and> Score_Value score v \<in> set rs"
proof -
  have inv: "bt_inv (score_to_values z)" using assms(1) by (simp add: index_wf_def)
  have "min_score r \<le> max_score r" using assms(4) by (auto simp: in_range_def)
  then obtain es where es: "bt_range (min_score r) (max_score r) (score_to_values z) = Inr es"
    by (simp add: bt_range_def not_less [symmetric])
  obtain vs where vs: "bt_get (score_to_values z) score = Some vs" "v \<in> vs" "finite vs"
    using assms(1,2) by (auto simp: in_bucket_def index_wf_def)
  then have "(score, vs) \<in> set es"
    using bt.range_set [OF inv es] assms(4) by (simp add: in_range_def)
  with es vs iteration_set [OF assms(3) vs(3)] show ?thesis
    by (auto simp: zset_range_def set_flatten_buckets simp del: set_concat)
qed

lemma index_after_remove:
  assumes "cuckoo_laws V"
  shows "score_to_values (fst (zset_remove V z v)) =
    (case ck_get V (value_to_score z) v of
       None \<Rightarrow> score_to_values z
     | Some score \<Rightarrow> index_remove score v (score_to_values z))"
  using ck_snd_remove [OF assms, of "value_to_score z" v]
  by (cases "ck_remove V (value_to_score z) v") (auto simp: zset_remove_def split: option.split)

text \<open>
  C20. Two concurrent additions of the same new member with different scores may leave it under
  both scores, and a range query then returns it twice. After a removal the map has no score for
  it, but every range query over the lower score still returns it, through any later additions
  and removals, the member's own included, as long as none adds the member with that same score;
  an addition with that score followed by a removal clears it.
\<close>

theorem racing_additions:
  assumes "cuckoo_laws V" and "iteration_laws it" and "s1 < s2"
  shows "\<exists>z z1. race V (zset_new V) [Add_Start (Score_Value s1 v), Add_Start (Score_Value s2 v)] [0, 1, 0, 0, 1, 1]
      z [Op_Done, Op_Done] \<and> \<not> zset_ok V z \<and>
    zset_range it z \<lparr>min_score = s1, max_score = s2\<rparr> = Inr [Score_Value s1 v, Score_Value s2 v] \<and>
    z1 = fst (zset_remove V z v) \<and> zset_abs V z1 v = None \<and>
    zset_range it z1 \<lparr>min_score = s1, max_score = s2\<rparr> = Inr [Score_Value s1 v] \<and>
    (\<forall>ops r. Zset_Add (Score_Value s1 v) \<notin> set ops \<longrightarrow> in_range r s1 \<longrightarrow>
      (\<exists>rs. zset_range it (fold (op_run V) ops z1) r = Inr rs \<and> Score_Value s1 v \<in> set rs)) \<and>
    zset_range it (op_run V (Zset_Rmv v) (op_run V (Zset_Add (Score_Value s1 v)) z1))
      \<lparr>min_score = s1, max_score = s2\<rparr> = Inr []"
proof -
  have less: "s1 \<le> s2" "\<not> s2 < s1" "\<not> s2 \<le> s1" "s1 \<noteq> s2" "s2 \<noteq> s1" using assms(3) by auto
  note laws = ck_laws [OF assms(1)]
  have empty: "it {} = []" using iteration_set [OF assms(2), of "{}"] by simp
  let ?z = "\<lparr>value_to_score = ck_insert V (ck_insert V (ck_new V) v s1) v s2,
      score_to_values = index_add s2 v (index_add s1 v [])\<rparr>"
  have idx: "index_add s2 v (index_add s1 v []) = [(s1, {v}), (s2, {v})]"
    by (simp add: index_add_def less)
  have run: "race V (zset_new V) [Add_Start (Score_Value s1 v), Add_Start (Score_Value s2 v)] [0, 1, 0, 0, 1, 1]
      ?z [Op_Done, Op_Done]"
    by (auto simp: zset_new_def laws intro!: race_step race_refl)
  have both: "zset_range it ?z \<lparr>min_score = s1, max_score = s2\<rparr> = Inr [Score_Value s1 v, Score_Value s2 v]"
    unfolding idx by (simp add: zset_range_def bt_range_def less iteration_singleton [OF assms(2)])
  have "\<not> (in_bucket (score_to_values ?z) v s1 \<longleftrightarrow> zset_abs V ?z v = Some s1)"
    unfolding idx by (simp add: less in_bucket_def zset_abs_def laws)
  then have broken: "\<not> zset_ok V ?z" unfolding zset_ok_buckets by metis
  define z1 where "z1 = fst (zset_remove V ?z v)"
  have gone: "zset_abs V z1 v = None"
    by (simp add: z1_def zset_abs_remove [OF assms(1)])
  have left: "score_to_values z1 = [(s1, {v}), (s2, {})]"
    unfolding z1_def index_after_remove [OF assms(1)] idx by (simp add: laws index_remove_def less)
  have "stale V s1 v z1"
    using gone by (simp add: stale_def left index_wf_def bt_inv_def in_bucket_def assms(3))
  then have stays: "\<forall>ops r. Zset_Add (Score_Value s1 v) \<notin> set ops \<longrightarrow> in_range r s1 \<longrightarrow>
      (\<exists>rs. zset_range it (fold (op_run V) ops z1) r = Inr rs \<and> Score_Value s1 v \<in> set rs)"
    using stale_run [OF assms(1)] bucket_in_range [OF _ _ assms(2)] unfolding stale_def by blast
  have one: "zset_range it z1 \<lparr>min_score = s1, max_score = s2\<rparr> = Inr [Score_Value s1 v]"
    by (simp add: zset_range_def bt_range_def left less empty iteration_singleton [OF assms(2)])
  define z2 where "z2 = op_run V (Zset_Add (Score_Value s1 v)) z1"
  have again: "score_to_values z2 = [(s1, {v}), (s2, {})]" "ck_get V (value_to_score z2) v = Some s1"
    using gone left by (simp_all add: z2_def zset_add_def Let_def index_add_def zset_abs_def laws)
  have "score_to_values (op_run V (Zset_Rmv v) z2) = [(s1, {}), (s2, {})]"
    by (simp add: index_after_remove [OF assms(1)] again index_remove_def less)
  then have "zset_range it (op_run V (Zset_Rmv v) z2) \<lparr>min_score = s1, max_score = s2\<rparr> = Inr []"
    by (simp add: zset_range_def bt_range_def less empty)
  then show ?thesis
    using run both broken gone one stays unfolding z2_def z1_def by blast
qed

theorem racing_additions_witness:
  "\<exists>z z1. race fun_cuckoo (zset_new fun_cuckoo) [Add_Start (Score_Value 1 ''a''), Add_Start (Score_Value 2 ''a'')]
      [0, 1, 0, 0, 1, 1] z [Op_Done, Op_Done] \<and> z1 = fst (zset_remove fun_cuckoo z ''a'') \<and>
    (\<exists>rs. zset_range sorted_list_of_set
        (fold (op_run fun_cuckoo) [Zset_Add (Score_Value 3 ''a''), Zset_Rmv ''a''] z1)
        \<lparr>min_score = 0, max_score = 9\<rparr> = Inr rs \<and> Score_Value 1 ''a'' \<in> set rs)"
proof -
  have "Zset_Add (Score_Value 1 ''a'') \<notin> set [Zset_Add (Score_Value 3 ''a''), Zset_Rmv ''a'']"
    and "in_range \<lparr>min_score = 0, max_score = 9\<rparr> 1" by (simp_all add: in_range_def)
  moreover have "(1 :: u32) < 2" by simp
  ultimately show ?thesis
    using racing_additions [OF fun_cuckoo_laws sorted_list_iteration, of 1 2 "''a''"] by blast
qed

end
