(* ===== verification/Store_Race.thy ===== *)
theory Store_Race
  imports Zset_Race Durability
begin

text \<open>
  Commands that run concurrently on one store, interleaved at every access to a shared object:
  the two concurrent maps, the two databases, and a sorted set in the steps of \<open>Zset_Race\<close>.
  Commands are independent when their keys differ, or when they work on different members of one
  sorted set; all complete interleavings of independent commands leave the same contents in
  memory and on disk, those of the sequential execution. Two commands on one key can leave
  different values in memory and on disk.
\<close>

section \<open>Steps\<close>

text \<open>
  The points of \<open>insert_kv\<close>, of the two delete handlers, of \<open>zadd\<close> and of \<open>zrmv\<close> between which
  another thread can come; a found zset is the address of its object.
\<close>

datatype store_pc =
    Add_Zset string string | Add_Disk string string | Add_Kv string string
  | Del_Disk string | Del_Kv string | Del_Zset string
  | Zadd_Disk string score_value | Zadd_Find string score_value | Zadd_Zset string score_value nat zset_pc
  | Zrmv_Find string string | Zrmv_Zset string string nat zset_pc | Zrmv_Disk string string nat u32
  | Cmd_Done

fun cmd_start :: "cmd \<Rightarrow> store_pc" where
  "cmd_start (Add k v) = Add_Zset k v"
| "cmd_start (Del k) = Del_Disk k"
| "cmd_start (Zadd k sv) = Zadd_Disk k sv"
| "cmd_start (Zrmv k v) = Zrmv_Find k v"

text \<open>
  One step of each operation; a deletion ends with the handler removing the sorted set. A point
  of another operation stays where it is.
\<close>

fun insert_kv_step ::
    "('kv, 'vs, 'zm, 'db) libs \<Rightarrow> store_pc \<Rightarrow> ('kv, 'vs, 'zm, 'db) storage \<Rightarrow>
     store_pc \<times> ('kv, 'vs, 'zm, 'db) storage" where
  "insert_kv_step L (Add_Zset k v) s = (Add_Disk k v, zsets_remove L k s)"
| "insert_kv_step L (Add_Disk k v) s =
     (Add_Kv k v, s\<lparr>st_db := fst (rdb_put (lib_db L) (st_db s) (as_bytes k) (as_bytes v))\<rparr>)"
| "insert_kv_step L (Add_Kv k v) s = (Cmd_Done, fst (insert_kv_in_memory L k v s))"
| "insert_kv_step L pc s = (pc, s)"

fun remove_key_step ::
    "('kv, 'vs, 'zm, 'db) libs \<Rightarrow> store_pc \<Rightarrow> ('kv, 'vs, 'zm, 'db) storage \<Rightarrow>
     store_pc \<times> ('kv, 'vs, 'zm, 'db) storage" where
  "remove_key_step L (Del_Disk k) s =
     (Del_Kv k, s\<lparr>st_db := fst (rdb_delete (lib_db L) (st_db s) (as_bytes k))\<rparr>)"
| "remove_key_step L (Del_Kv k) s = (Del_Zset k, fst (remove_key_in_memory L k s))"
| "remove_key_step L (Del_Zset k) s = (Cmd_Done, zsets_remove L k s)"
| "remove_key_step L pc s = (pc, s)"

fun zadd_cmd_step ::
    "('kv, 'vs, 'zm, 'db) libs \<Rightarrow> store_pc \<Rightarrow> ('kv, 'vs, 'zm, 'db) storage \<Rightarrow>
     store_pc \<times> ('kv, 'vs, 'zm, 'db) storage" where
  "zadd_cmd_step L (Zadd_Disk k sv) s =
     (Zadd_Find k sv, s\<lparr>st_zset_db := fst (rdb_put (lib_db L) (st_zset_db s)
        (get_zset_key k (sv_value sv)) (to_le_bytes (sv_score sv)))\<rparr>)"
| "zadd_cmd_step L (Zadd_Find k sv) s =
     (case ck_get_or_insert (lib_zm L) (st_zsets s) k (st_next s) of (zm, a) \<Rightarrow>
        (Zadd_Zset k sv a (Add_Start sv),
         s\<lparr>st_zsets := zm, st_next := Suc (st_next s),
           st_heap := (st_heap s)(st_next s := zset_new (lib_vs L))\<rparr>))"
| "zadd_cmd_step L (Zadd_Zset k sv a pc) s =
     (case next_op (lib_vs L) pc (st_heap s a) of (pc1, z) \<Rightarrow>
        (if pc1 = Op_Done then Cmd_Done else Zadd_Zset k sv a pc1, s\<lparr>st_heap := (st_heap s)(a := z)\<rparr>))"
| "zadd_cmd_step L pc s = (pc, s)"

fun zrmv_cmd_step ::
    "('kv, 'vs, 'zm, 'db) libs \<Rightarrow> store_pc \<Rightarrow> ('kv, 'vs, 'zm, 'db) storage \<Rightarrow>
     store_pc \<times> ('kv, 'vs, 'zm, 'db) storage" where
  "zrmv_cmd_step L (Zrmv_Find k v) s =
     (case ck_get (lib_zm L) (st_zsets s) k of
        None \<Rightarrow> (Cmd_Done, s)
      | Some a \<Rightarrow> (Zrmv_Zset k v a (Rmv_Start v), s))"
| "zrmv_cmd_step L (Zrmv_Zset k v a pc) s =
     (case next_op (lib_vs L) pc (st_heap s a) of (pc1, z) \<Rightarrow>
        (case pc1 of Rmv_Index v1 score \<Rightarrow> Zrmv_Disk k v a score | _ \<Rightarrow> Cmd_Done,
         s\<lparr>st_heap := (st_heap s)(a := z)\<rparr>))"
| "zrmv_cmd_step L (Zrmv_Disk k v a score) s =
     (Zrmv_Zset k v a (Rmv_Index v score),
      s\<lparr>st_zset_db := fst (rdb_delete (lib_db L) (st_zset_db s) (get_zset_key k v))\<rparr>)"
| "zrmv_cmd_step L pc s = (pc, s)"

fun next_cmd ::
    "('kv, 'vs, 'zm, 'db) libs \<Rightarrow> store_pc \<Rightarrow> ('kv, 'vs, 'zm, 'db) storage \<Rightarrow>
     store_pc \<times> ('kv, 'vs, 'zm, 'db) storage" where
  "next_cmd L (Add_Zset k v) s = insert_kv_step L (Add_Zset k v) s"
| "next_cmd L (Add_Disk k v) s = insert_kv_step L (Add_Disk k v) s"
| "next_cmd L (Add_Kv k v) s = insert_kv_step L (Add_Kv k v) s"
| "next_cmd L (Del_Disk k) s = remove_key_step L (Del_Disk k) s"
| "next_cmd L (Del_Kv k) s = remove_key_step L (Del_Kv k) s"
| "next_cmd L (Del_Zset k) s = remove_key_step L (Del_Zset k) s"
| "next_cmd L (Zadd_Disk k sv) s = zadd_cmd_step L (Zadd_Disk k sv) s"
| "next_cmd L (Zadd_Find k sv) s = zadd_cmd_step L (Zadd_Find k sv) s"
| "next_cmd L (Zadd_Zset k sv a pc) s = zadd_cmd_step L (Zadd_Zset k sv a pc) s"
| "next_cmd L (Zrmv_Find k v) s = zrmv_cmd_step L (Zrmv_Find k v) s"
| "next_cmd L (Zrmv_Zset k v a pc) s = zrmv_cmd_step L (Zrmv_Zset k v a pc) s"
| "next_cmd L (Zrmv_Disk k v a score) s = zrmv_cmd_step L (Zrmv_Disk k v a score) s"
| "next_cmd L Cmd_Done s = (Cmd_Done, s)"

inductive store_race ::
    "('kv, 'vs, 'zm, 'db) libs \<Rightarrow> ('kv, 'vs, 'zm, 'db) storage \<Rightarrow> store_pc list \<Rightarrow> nat list \<Rightarrow>
     ('kv, 'vs, 'zm, 'db) storage \<Rightarrow> store_pc list \<Rightarrow> bool"
  for L :: "('kv, 'vs, 'zm, 'db) libs" where
  store_refl: "store_race L s pcs [] s pcs"
| store_step: "\<lbrakk>i < length pcs; pcs ! i \<noteq> Cmd_Done; next_cmd L (pcs ! i) s = (pc, s1);
    store_race L s1 (pcs[i := pc]) is s2 pcs2\<rbrakk> \<Longrightarrow> store_race L s pcs (i # is) s2 pcs2"

inductive_simps store_race_Nil: "store_race L s pcs [] s2 pcs2"
inductive_simps store_race_Cons: "store_race L s pcs (i # is) s2 pcs2"

lemma store_race_append:
  "\<lbrakk>store_race L s pcs is s1 pcs1; store_race L s1 pcs1 is' s2 pcs2\<rbrakk> \<Longrightarrow> store_race L s pcs (is @ is') s2 pcs2"
  by (induction rule: store_race.induct) (auto intro: store_race.intros)

section \<open>A command that runs alone\<close>

lemma zadd_steps_lift:
  "\<lbrakk>race (lib_vs L) z pcs0 js z1 pcs1; pcs0 = [pc]; pcs1 = [Op_Done]; i < length pcs; st_heap s a = z;
    pcs ! i = (if pc = Op_Done then Cmd_Done else Zadd_Zset k sv a pc)\<rbrakk> \<Longrightarrow>
   \<exists>is. store_race L s pcs is (s\<lparr>st_heap := (st_heap s)(a := z1)\<rparr>) (pcs[i := Cmd_Done])"
proof (induction arbitrary: pc pcs s rule: race.induct)
  case (race_refl z pcs0)
  then have "pcs[i := Cmd_Done] = pcs" by (metis list.inject list_update_id)
  moreover have "(st_heap s)(a := z) = st_heap s" using race_refl(4) by auto
  ultimately show ?case by (intro exI [of _ "[]"]) (simp only: store_race_Nil, simp)
next
  case (race_step j pcs0 z pc1 z1 js z2 pcs2)
  let ?pcs = "pcs[i := if pc1 = Op_Done then Cmd_Done else Zadd_Zset k sv a pc1]"
  let ?s = "s\<lparr>st_heap := (st_heap s)(a := z1)\<rparr>"
  have j: "j = 0" "pc \<noteq> Op_Done" "next_op (lib_vs L) pc z = (pc1, z1)" using race_step by auto
  have "\<exists>is. store_race L ?s ?pcs is (?s\<lparr>st_heap := (st_heap ?s)(a := z2)\<rparr>) (?pcs[i := Cmd_Done])"
    by (rule race_step.IH) (use race_step.prems j in auto)
  then obtain js' where rest: "store_race L ?s ?pcs js' (s\<lparr>st_heap := (st_heap s)(a := z2)\<rparr>) (pcs[i := Cmd_Done])"
    by auto
  have "store_race L s pcs (i # js') (s\<lparr>st_heap := (st_heap s)(a := z2)\<rparr>) (pcs[i := Cmd_Done])"
    by (rule store_step [OF _ _ _ rest]) (use race_step.prems j in auto)
  then show ?case by blast
qed

lemma cmd_alone:
  fixes L :: "('kv, 'vs, 'zm, 'db) libs"
  assumes "libs_ok L" and "i < length pcs" and "pcs ! i = cmd_start c"
  shows "\<exists>is. store_race L s pcs is (server_step L c s) (pcs[i := Cmd_Done])"
proof (cases c)
  case (Add k v)
  with assms show ?thesis
    by (intro exI [of _ "[i, i, i]"])
      (simp add: store_race_Cons store_race_Nil rpc_add_eq insert_kv_def Let_def)
next
  case (Del k)
  with assms show ?thesis
    by (intro exI [of _ "[i, i, i]"])
      (simp add: store_race_Cons store_race_Nil rpc_del_eq remove_key_def)
next
  case (Zadd k sv)
  obtain zm a where goi: "ck_get_or_insert (lib_zm L) (st_zsets s) k (st_next s) = (zm, a)"
    by (cases "ck_get_or_insert (lib_zm L) (st_zsets s) k (st_next s)")
  let ?s1 = "s\<lparr>st_zset_db := fst (rdb_put (lib_db L) (st_zset_db s) (get_zset_key k (sv_value sv))
    (to_le_bytes (sv_score sv)))\<rparr>"
  let ?s2 = "?s1\<lparr>st_zsets := zm, st_next := Suc (st_next s), st_heap := (st_heap s)(st_next s := zset_new (lib_vs L))\<rparr>"
  let ?pcs = "pcs[i := Zadd_Zset k sv a (Add_Start sv)]"
  from uninterrupted_operation [where V = "lib_vs L" and opn = "Zset_Add sv" and z = "st_heap ?s2 a"] obtain js where
    "race (lib_vs L) (st_heap ?s2 a) [Add_Start sv] js (zset_add (lib_vs L) (st_heap ?s2 a) sv) [Op_Done]" by auto
  from zadd_steps_lift [OF this refl refl, of i ?pcs ?s2 a k sv] assms(2) obtain js' where
    "store_race L ?s2 ?pcs js' (?s2\<lparr>st_heap := (st_heap ?s2)(a := zset_add (lib_vs L) (st_heap ?s2 a) sv)\<rparr>)
      (pcs[i := Cmd_Done])" by auto
  moreover have "store_race L s pcs [i, i] ?s2 ?pcs"
    using assms(2,3) by (simp add: store_race_Cons store_race_Nil Zadd goi)
  ultimately have "store_race L s pcs ([i, i] @ js')
      (?s2\<lparr>st_heap := (st_heap ?s2)(a := zset_add (lib_vs L) (st_heap ?s2 a) sv)\<rparr>) (pcs[i := Cmd_Done])"
    by (rule store_race_append [rotated])
  moreover have "server_step L c s = ?s2\<lparr>st_heap := (st_heap ?s2)(a := zset_add (lib_vs L) (st_heap ?s2 a) sv)\<rparr>"
    by (simp add: Zadd rpc_zadd_def zadd_def zadd_memory_def goi Let_def)
  ultimately show ?thesis by auto
next
  case (Zrmv k v)
  show ?thesis
  proof (cases "ck_get (lib_zm L) (st_zsets s) k")
    case None
    with Zrmv assms show ?thesis
      by (intro exI [of _ "[i]"]) (simp add: store_race_Cons store_race_Nil rpc_zrmv_def zrmv_def)
  next
    case (Some a)
    obtain m r where rm: "ck_remove (lib_vs L) (value_to_score (st_heap s a)) v = (m, r)"
      by (cases "ck_remove (lib_vs L) (value_to_score (st_heap s a)) v")
    show ?thesis
    proof (cases r)
      case None
      with Zrmv assms Some rm show ?thesis
        by (intro exI [of _ "[i, i]"])
          (simp add: store_race_Cons store_race_Nil rpc_zrmv_def zrmv_def zset_remove_def)
    next
      case (Some sc)
      with Zrmv assms \<open>ck_get (lib_zm L) (st_zsets s) k = Some a\<close> rm show ?thesis
        by (intro exI [of _ "[i, i, i, i]"])
          (simp add: store_race_Cons store_race_Nil rpc_zrmv_def zrmv_def zset_remove_def)
    qed
  qed
qed

section \<open>What the store shows of a key\<close>

definition addr_of :: "('kv, 'vs, 'zm, 'db) libs \<Rightarrow> ('kv, 'vs, 'zm, 'db) storage \<Rightarrow> string \<Rightarrow> nat option" where
  "addr_of L s k = ck_get (lib_zm L) (st_zsets s) k"

definition score_at :: "('kv, 'vs, 'zm, 'db) libs \<Rightarrow> ('kv, 'vs, 'zm, 'db) storage \<Rightarrow>
    string \<Rightarrow> string \<Rightarrow> u32 option" where
  "score_at L s k v = Option.bind (addr_of L s k) (\<lambda>a. zset_abs (lib_vs L) (st_heap s a) v)"

definition bucket_at :: "('kv, 'vs, 'zm, 'db) libs \<Rightarrow> ('kv, 'vs, 'zm, 'db) storage \<Rightarrow>
    string \<Rightarrow> string \<Rightarrow> u32 \<Rightarrow> bool" where
  "bucket_at L s k v =
     (case addr_of L s k of None \<Rightarrow> (\<lambda>_. False) | Some a \<Rightarrow> in_bucket (score_to_values (st_heap s a)) v)"

definition heap_wf :: "('kv, 'vs, 'zm, 'db) libs \<Rightarrow> ('kv, 'vs, 'zm, 'db) storage \<Rightarrow> bool" where
  "heap_wf L s \<longleftrightarrow>
     (\<forall>k a. addr_of L s k = Some a \<longrightarrow> a < st_next s \<and> index_wf (score_to_values (st_heap s a))) \<and>
     (\<forall>k k' a. addr_of L s k = Some a \<longrightarrow> addr_of L s k' = Some a \<longrightarrow> k = k')"

lemma storage_ok_view:
  "storage_ok L s \<longleftrightarrow> heap_wf L s \<and> (\<forall>k v. bucket_at L s k v = (\<lambda>sc. score_at L s k v = Some sc))"
proof -
  have "(\<forall>k a. addr_of L s k = Some a \<longrightarrow> (\<forall>v. in_bucket (score_to_values (st_heap s a)) v =
      (\<lambda>sc. zset_abs (lib_vs L) (st_heap s a) v = Some sc))) \<longleftrightarrow>
    (\<forall>k v. bucket_at L s k v = (\<lambda>sc. score_at L s k v = Some sc))"
    by (auto simp: bucket_at_def score_at_def split: option.split)
  then show ?thesis
    by (auto simp: storage_ok_def heap_wf_def zset_ok_buckets simp flip: addr_of_def)
qed

lemma zs_of_view: "zs_of L s k = (if addr_of L s k = None then None else Some (score_at L s k))"
  by (auto simp: zs_of_def score_at_def addr_of_def fun_eq_iff)

text \<open>A new object at the address of a key, and a key with a new object.\<close>

lemma view_update:
  assumes wf: "heap_wf L s" and a: "addr_of L s k = Some a"
    and s1: "st_zsets s1 = st_zsets s" "st_next s1 = st_next s" "st_heap s1 = (st_heap s)(a := z)"
  shows "addr_of L s1 = addr_of L s"
    and "index_wf (score_to_values z) \<Longrightarrow> heap_wf L s1"
    and "score_at L s1 k' v' = (if k' = k then zset_abs (lib_vs L) z v' else score_at L s k' v')"
    and "bucket_at L s1 k' v' = (if k' = k then in_bucket (score_to_values z) v' else bucket_at L s k' v')"
proof -
  show addr: "addr_of L s1 = addr_of L s" by (simp add: addr_of_def fun_eq_iff s1)
  have inj: "addr_of L s k' = Some a \<longleftrightarrow> k' = k" for k' using wf a unfolding heap_wf_def by metis
  show "index_wf (score_to_values z) \<Longrightarrow> heap_wf L s1"
    using wf by (auto simp: heap_wf_def addr s1)
  show "score_at L s1 k' v' = (if k' = k then zset_abs (lib_vs L) z v' else score_at L s k' v')"
    using inj [of k'] a by (cases "addr_of L s k'") (auto simp: score_at_def addr s1)
  show "bucket_at L s1 k' v' = (if k' = k then in_bucket (score_to_values z) v' else bucket_at L s k' v')"
    using inj [of k'] a by (cases "addr_of L s k'") (auto simp: bucket_at_def addr s1)
qed

lemma view_find:
  assumes L: "libs_ok L" and wf: "heap_wf L s"
    and goi: "ck_get_or_insert (lib_zm L) (st_zsets s) k (st_next s) = (zm, a)"
    and s1: "st_zsets s1 = zm" "st_next s1 = Suc (st_next s)"
      "st_heap s1 = (st_heap s)(st_next s := zset_new (lib_vs L))"
  shows "addr_of L s1 = (addr_of L s)(k \<mapsto> a)" and "addr_of L s k = None \<or> addr_of L s k = Some a"
    and "heap_wf L s1" and "score_at L s1 = score_at L s" and "bucket_at L s1 = bucket_at L s"
proof -
  note zm = zm_laws(5) [OF L, of "st_zsets s" k "st_next s", unfolded goi fst_conv]
    and a = zm_laws(6) [OF L, of "st_zsets s" k "st_next s", unfolded goi snd_conv]
  show addr: "addr_of L s1 = (addr_of L s)(k \<mapsto> a)"
    using zm a by (auto simp: addr_of_def fun_eq_iff s1 split: option.splits)
  show ka: "addr_of L s k = None \<or> addr_of L s k = Some a"
    using a by (auto simp: addr_of_def split: option.splits)
  have new: "addr_of L s k = None \<Longrightarrow> a = st_next s" using a by (simp add: addr_of_def)
  have old: "addr_of L s k' = Some b \<Longrightarrow> b < st_next s" for k' b using wf by (auto simp: heap_wf_def)
  have V: "cuckoo_laws (lib_vs L)" by (rule libs_okD(2) [OF L])
  have "zset_ok (lib_vs L) (zset_new (lib_vs L))" by (rule zset_new_ok [OF V])
  then have wf_new: "index_wf (score_to_values (zset_new (lib_vs L)))"
    and b_new: "in_bucket (score_to_values (zset_new (lib_vs L))) v = (\<lambda>_. False)" for v
    by (simp_all add: zset_ok_buckets zset_abs_new [OF V])
  show "heap_wf L s1"
    unfolding heap_wf_def addr s1(2,3)
  proof (intro conjI allI impI)
    fix k' b assume "((addr_of L s)(k \<mapsto> a)) k' = Some b"
    then consider "k' = k" "addr_of L s k = None" "b = st_next s" | "addr_of L s k' = Some b"
      using ka new by (auto split: if_splits)
    then have "b < Suc (st_next s) \<and>
        index_wf (score_to_values (((st_heap s)(st_next s := zset_new (lib_vs L))) b))"
    proof cases
      case 2
      then have "b < st_next s" "index_wf (score_to_values (st_heap s b))"
        using wf by (auto simp: heap_wf_def)
      then show ?thesis by simp
    qed (use wf_new in simp)
    then show "b < Suc (st_next s)" "index_wf (score_to_values (((st_heap s)(st_next s := zset_new (lib_vs L))) b))"
      by simp_all
  next
    fix k' k'' b
    assume "((addr_of L s)(k \<mapsto> a)) k' = Some b" "((addr_of L s)(k \<mapsto> a)) k'' = Some b"
    then show "k' = k''" using ka new old wf by (auto simp: heap_wf_def split: if_splits)
  qed
  have "score_at L s1 k' v = score_at L s k' v \<and> bucket_at L s1 k' v = bucket_at L s k' v" for k' v
  proof (cases "k' = k \<and> addr_of L s k = None")
    case True
    then show ?thesis
      using new by (simp add: score_at_def bucket_at_def addr s1 zset_abs_new [OF V] b_new)
  next
    case False
    then have same: "addr_of L s1 k' = addr_of L s k'" using ka by (auto simp: addr)
    show ?thesis
      using old [of k'] by (cases "addr_of L s k'") (auto simp: score_at_def bucket_at_def same s1)
  qed
  then show "score_at L s1 = score_at L s" "bucket_at L s1 = bucket_at L s" by (simp_all add: fun_eq_iff)
qed

section \<open>Independent commands\<close>

fun cmd_member :: "cmd \<Rightarrow> string option" where
  "cmd_member (Add k v) = None"
| "cmd_member (Del k) = None"
| "cmd_member (Zadd k sv) = Some (sv_value sv)"
| "cmd_member (Zrmv k v) = Some v"

definition independent :: "cmd \<Rightarrow> cmd \<Rightarrow> bool" where
  "independent c d \<longleftrightarrow> cmd_key c \<noteq> cmd_key d \<or>
     (cmd_member c \<noteq> None \<and> cmd_member d \<noteq> None \<and> cmd_member c \<noteq> cmd_member d)"

text \<open>
  What holds of the key of a command, and of its member if it has one, while the command is at a
  point, in terms of the store \<open>s0\<close> at the start.
\<close>

definition zset_same ::
    "('kv, 'vs, 'zm, 'db) libs \<Rightarrow> ('kv, 'vs, 'zm, 'db) storage \<Rightarrow> ('kv, 'vs, 'zm, 'db) storage \<Rightarrow>
     string \<Rightarrow> bool" where
  "zset_same L s s1 k \<longleftrightarrow> score_at L s1 k = score_at L s k \<and> bucket_at L s1 k = bucket_at L s k"

fun cmd_inv ::
    "('kv, 'vs, 'zm, 'db) libs \<Rightarrow> ('kv, 'vs, 'zm, 'db) storage \<Rightarrow> cmd \<Rightarrow> store_pc \<Rightarrow>
     ('kv, 'vs, 'zm, 'db) storage \<Rightarrow> bool" where
  "cmd_inv L s0 (Add k v) pc s \<longleftrightarrow>
     (let kv = (kv_of L s k = kv_of L s0 k); disk = (disk_kv L s k = disk_kv L s0 k)
      in case pc of
        Add_Zset k1 v1 \<Rightarrow> k1 = k \<and> v1 = v \<and> kv \<and> disk \<and> zset_same L s0 s k
      | Add_Disk k1 v1 \<Rightarrow> k1 = k \<and> v1 = v \<and> kv \<and> disk \<and> addr_of L s k = None
      | Add_Kv k1 v1 \<Rightarrow> k1 = k \<and> v1 = v \<and> kv \<and> addr_of L s k = None \<and> disk_kv L s k = Some v
      | Cmd_Done \<Rightarrow> addr_of L s k = None \<and> disk_kv L s k = Some v \<and> kv_of L s k = Some v
      | _ \<Rightarrow> False)"
| "cmd_inv L s0 (Del k) pc s \<longleftrightarrow>
     (let kv = (kv_of L s k = kv_of L s0 k); disk = (disk_kv L s k = disk_kv L s0 k)
      in case pc of
        Del_Disk k1 \<Rightarrow> k1 = k \<and> kv \<and> disk \<and> zset_same L s0 s k
      | Del_Kv k1 \<Rightarrow> k1 = k \<and> kv \<and> disk_kv L s k = None \<and> zset_same L s0 s k
      | Del_Zset k1 \<Rightarrow> k1 = k \<and> disk_kv L s k = None \<and> kv_of L s k = None \<and> zset_same L s0 s k
      | Cmd_Done \<Rightarrow> addr_of L s k = None \<and> disk_kv L s k = None \<and> kv_of L s k = None
      | _ \<Rightarrow> False)"
| "cmd_inv L s0 (Zadd k sv) pc s \<longleftrightarrow>
     (let at = (\<lambda>zpc. op_inv (score_at L s0 k (sv_value sv)) (Zset_Add sv) zpc
                  (score_at L s k (sv_value sv)) (bucket_at L s k (sv_value sv)));
          disk = (disk_score L s k (sv_value sv) = Some (sv_score sv))
      in case pc of
        Zadd_Disk k1 sv1 \<Rightarrow> k1 = k \<and> sv1 = sv \<and> at (Add_Start sv) \<and>
          disk_score L s k (sv_value sv) = disk_score L s0 k (sv_value sv)
      | Zadd_Find k1 sv1 \<Rightarrow> k1 = k \<and> sv1 = sv \<and> at (Add_Start sv) \<and> disk
      | Zadd_Zset k1 sv1 a zpc \<Rightarrow> k1 = k \<and> sv1 = sv \<and> addr_of L s k = Some a \<and> at zpc \<and> zpc \<noteq> Op_Done \<and> disk
      | Cmd_Done \<Rightarrow> addr_of L s k \<noteq> None \<and> at Op_Done \<and> disk
      | _ \<Rightarrow> False)"
| "cmd_inv L s0 (Zrmv k v) pc s \<longleftrightarrow>
     (let at = (\<lambda>zpc. op_inv (score_at L s0 k v) (Zset_Rmv v) zpc (score_at L s k v) (bucket_at L s k v));
          same = (disk_score L s k v = disk_score L s0 k v);
          there = (score_at L s0 k v \<noteq> None)
      in case pc of
        Zrmv_Find k1 v1 \<Rightarrow> k1 = k \<and> v1 = v \<and> at (Rmv_Start v) \<and> same
      | Zrmv_Zset k1 v1 a zpc \<Rightarrow> k1 = k \<and> v1 = v \<and> addr_of L s k = Some a \<and> at zpc \<and>
          (case zpc of
             Rmv_Start v2 \<Rightarrow> same
           | Rmv_Index v2 sc \<Rightarrow> disk_score L s k v = None \<and> there
           | _ \<Rightarrow> False)
      | Zrmv_Disk k1 v1 a sc \<Rightarrow> k1 = k \<and> v1 = v \<and> addr_of L s k = Some a \<and> at (Rmv_Index v sc) \<and> there \<and> same
      | Cmd_Done \<Rightarrow> at Op_Done \<and> disk_score L s k v = (if there then None else disk_score L s0 k v)
      | _ \<Rightarrow> False)"

text \<open>What a step of a command leaves alone.\<close>

definition cmd_frame ::
    "('kv, 'vs, 'zm, 'db) libs \<Rightarrow> cmd \<Rightarrow> ('kv, 'vs, 'zm, 'db) storage \<Rightarrow> ('kv, 'vs, 'zm, 'db) storage \<Rightarrow> bool" where
  "cmd_frame L c s s1 \<longleftrightarrow>
     (\<forall>k. k \<noteq> cmd_key c \<or> cmd_member c \<noteq> None \<longrightarrow> kv_of L s1 k = kv_of L s k \<and> disk_kv L s1 k = disk_kv L s k) \<and>
     (\<forall>k. k \<noteq> cmd_key c \<longrightarrow> addr_of L s1 k = addr_of L s k) \<and>
     (cmd_member c \<noteq> None \<longrightarrow> addr_of L s (cmd_key c) \<noteq> None \<longrightarrow>
        addr_of L s1 (cmd_key c) = addr_of L s (cmd_key c)) \<and>
     (addr_of L s1 (cmd_key c) \<noteq> None \<longrightarrow> addr_of L s (cmd_key c) \<noteq> None \<or> (\<exists>k sv. c = Zadd k sv)) \<and>
     (\<forall>k v. k \<noteq> cmd_key c \<or> (cmd_member c \<noteq> None \<and> cmd_member c \<noteq> Some v) \<longrightarrow>
        score_at L s1 k v = score_at L s k v \<and> bucket_at L s1 k v = bucket_at L s k v) \<and>
     (\<forall>k v. k \<noteq> cmd_key c \<or> cmd_member c \<noteq> Some v \<longrightarrow> disk_score L s1 k v = disk_score L s k v)"

text \<open>The invariant of a command only looks at what independent commands leave alone.\<close>

lemma cmd_inv_stable:
  assumes ind: "independent c d" and frame: "cmd_frame L d s s1"
    and inv: "cmd_inv L s0 c pc s"
  shows "cmd_inv L s0 c pc s1"
proof -
  let ?k = "cmd_key c"
  have kv: "kv_of L s1 ?k = kv_of L s ?k" "disk_kv L s1 ?k = disk_kv L s ?k"
    using ind frame by (auto simp: independent_def cmd_frame_def)
  have addr: "addr_of L s1 ?k = addr_of L s ?k" if "cmd_member c = None \<or> addr_of L s ?k \<noteq> None"
    using ind frame that unfolding independent_def cmd_frame_def by metis
  have zset: "score_at L s1 ?k v = score_at L s ?k v" "bucket_at L s1 ?k v = bucket_at L s ?k v"
      "disk_score L s1 ?k v = disk_score L s ?k v" if "cmd_member c = Some v" for v
    using ind frame that by (auto simp: independent_def cmd_frame_def)
  have whole: "zset_same L s0 s1 ?k = zset_same L s0 s ?k" if "cmd_member c = None"
  proof -
    have "score_at L s1 ?k v = score_at L s ?k v \<and> bucket_at L s1 ?k v = bucket_at L s ?k v" for v
      using ind frame that by (auto simp: independent_def cmd_frame_def)
    then have "score_at L s1 ?k = score_at L s ?k" "bucket_at L s1 ?k = bucket_at L s ?k" by blast+
    then show ?thesis by (simp add: zset_same_def)
  qed
  show ?thesis
  proof (cases c)
    case (Add k v)
    with inv kv addr whole show ?thesis by (cases pc) (simp_all add: Let_def)
  next
    case (Del k)
    with inv kv addr whole show ?thesis by (cases pc) (simp_all add: Let_def)
  next
    case (Zadd k sv)
    with inv zset addr show ?thesis by (cases pc) (simp_all add: Let_def)
  next
    case (Zrmv k v)
    with inv zset addr show ?thesis by (cases pc) (simp_all add: Let_def split: zset_pc.splits)
  qed
qed

lemma cmd_frame_refl: "cmd_frame L c s s"
  by (simp add: cmd_frame_def)

section \<open>One step\<close>

declare op_inv.simps [simp del]

lemmas op_inv_points = op_inv.simps

lemma view_frames:
  "addr_of L (s\<lparr>st_db := d\<rparr>) = addr_of L s" "addr_of L (s\<lparr>st_zset_db := d\<rparr>) = addr_of L s"
  "addr_of L (s\<lparr>st_kv := kv\<rparr>) = addr_of L s"
  "score_at L (s\<lparr>st_db := d\<rparr>) = score_at L s" "score_at L (s\<lparr>st_zset_db := d\<rparr>) = score_at L s"
  "score_at L (s\<lparr>st_kv := kv\<rparr>) = score_at L s"
  "bucket_at L (s\<lparr>st_db := d\<rparr>) = bucket_at L s" "bucket_at L (s\<lparr>st_zset_db := d\<rparr>) = bucket_at L s"
  "bucket_at L (s\<lparr>st_kv := kv\<rparr>) = bucket_at L s"
  "heap_wf L (s\<lparr>st_db := d\<rparr>) = heap_wf L s" "heap_wf L (s\<lparr>st_zset_db := d\<rparr>) = heap_wf L s"
  "heap_wf L (s\<lparr>st_kv := kv\<rparr>) = heap_wf L s"
  by (simp_all add: addr_of_def score_at_def bucket_at_def heap_wf_def fun_eq_iff split: option.split)

lemma kv_frames:
  "kv_of L (s\<lparr>st_db := d\<rparr>) = kv_of L s" "kv_of L (s\<lparr>st_zset_db := d\<rparr>) = kv_of L s"
  "kv_of L (s\<lparr>st_heap := h\<rparr>) = kv_of L s" "kv_of L (s\<lparr>st_zsets := zm\<rparr>) = kv_of L s"
  "kv_of L (s\<lparr>st_zsets := zm, st_heap := h, st_next := n\<rparr>) = kv_of L s"
  by (simp_all add: kv_of_def)

lemma disk_frames:
  "disk_kv L (s\<lparr>st_zset_db := d\<rparr>) = disk_kv L s" "disk_kv L (s\<lparr>st_kv := kv\<rparr>) = disk_kv L s"
  "disk_kv L (s\<lparr>st_heap := h\<rparr>) = disk_kv L s" "disk_kv L (s\<lparr>st_zsets := zm\<rparr>) = disk_kv L s"
  "disk_kv L (s\<lparr>st_zsets := zm, st_heap := h, st_next := n\<rparr>) = disk_kv L s"
  "disk_score L (s\<lparr>st_db := d\<rparr>) = disk_score L s" "disk_score L (s\<lparr>st_kv := kv\<rparr>) = disk_score L s"
  "disk_score L (s\<lparr>st_heap := h\<rparr>) = disk_score L s" "disk_score L (s\<lparr>st_zsets := zm\<rparr>) = disk_score L s"
  "disk_score L (s\<lparr>st_zsets := zm, st_heap := h, st_next := n\<rparr>) = disk_score L s"
  by (simp_all add: disk_kv_def disk_score_def fun_eq_iff)

lemma view_zsets_remove:
  assumes "libs_ok L"
  shows "addr_of L (zsets_remove L k s) = (addr_of L s)(k := None)"
    and "score_at L (zsets_remove L k s) k' v = (if k' = k then None else score_at L s k' v)"
    and "bucket_at L (zsets_remove L k s) k' v = (if k' = k then (\<lambda>_. False) else bucket_at L s k' v)"
    and "heap_wf L s \<Longrightarrow> heap_wf L (zsets_remove L k s)"
    and "kv_of L (zsets_remove L k s) = kv_of L s"
    and "disk_kv L (zsets_remove L k s) = disk_kv L s" and "disk_score L (zsets_remove L k s) = disk_score L s"
proof -
  show addr: "addr_of L (zsets_remove L k s) = (addr_of L s)(k := None)"
    by (simp add: addr_of_def fun_eq_iff zsets_remove_def zm_laws [OF assms])
  show "score_at L (zsets_remove L k s) k' v = (if k' = k then None else score_at L s k' v)"
    by (simp add: score_at_def addr) (simp add: zsets_remove_def)
  show "bucket_at L (zsets_remove L k s) k' v = (if k' = k then (\<lambda>_. False) else bucket_at L s k' v)"
    by (simp add: bucket_at_def addr split: option.split) (simp add: zsets_remove_def)
  show "heap_wf L s \<Longrightarrow> heap_wf L (zsets_remove L k s)"
    by (simp add: heap_wf_def addr) (auto simp: zsets_remove_def)
qed (simp_all add: zsets_remove_def kv_frames disk_frames)

lemma view_kv:
  assumes "libs_ok L"
  shows "kv_of L (fst (insert_kv_in_memory L k v s)) = (kv_of L s)(k \<mapsto> v)"
    and "kv_of L (fst (remove_key_in_memory L k s)) = (kv_of L s)(k := None)"
  by (simp_all add: kv_of_def fun_eq_iff insert_kv_in_memory_def remove_key_in_memory_def kv_laws [OF assms])

lemma view_disk:
  assumes "libs_ok L" and "rocks_reliable (lib_db L)"
  shows "disk_kv L (s\<lparr>st_db := fst (rdb_put (lib_db L) (st_db s) (as_bytes k) (as_bytes v))\<rparr>) = (disk_kv L s)(k \<mapsto> v)"
    and "disk_kv L (s\<lparr>st_db := fst (rdb_delete (lib_db L) (st_db s) (as_bytes k))\<rparr>) = (disk_kv L s)(k := None)"
  by (auto simp: disk_kv_def fun_eq_iff db_laws [OF assms] as_bytes_inject bytes_simps)

lemma view_zset_disk:
  assumes "libs_ok L" and "rocks_reliable (lib_db L)" and "key_clean k"
  shows "disk_score L (s\<lparr>st_zset_db := fst (rdb_put (lib_db L) (st_zset_db s) (get_zset_key k v) (to_le_bytes sc))\<rparr>) k' v' =
      (if k' = k \<and> v' = v then Some sc else disk_score L s k' v')"
    and "disk_score L (s\<lparr>st_zset_db := fst (rdb_delete (lib_db L) (st_zset_db s) (get_zset_key k v))\<rparr>) k' v' =
      (if k' = k \<and> v' = v then None else disk_score L s k' v')"
  using assms(3) get_zset_key_inject [of k' k v' v]
  by (auto simp: disk_score_def db_laws [OF assms(1,2)] bytes_simps)

lemma view_locked:
  "\<lbrakk>addr_of L s k = Some a\<rbrakk> \<Longrightarrow> score_at L s k v = zset_abs (lib_vs L) (st_heap s a) v"
  "\<lbrakk>addr_of L s k = Some a\<rbrakk> \<Longrightarrow> bucket_at L s k v = in_bucket (score_to_values (st_heap s a)) v"
  by (simp_all add: score_at_def bucket_at_def)

text \<open>A command on a value.\<close>

lemma kv_cmd_step:
  fixes L :: "('kv, 'vs, 'zm, 'db) libs"
  assumes L: "libs_ok L" "rocks_reliable (lib_db L)" and wf: "heap_wf L s" and inv: "cmd_inv L s0 c pc s"
    and kv: "cmd_member c = None" and step: "next_cmd L pc s = (pc1, s1)"
  shows "cmd_inv L s0 c pc1 s1 \<and> cmd_frame L c s s1 \<and> heap_wf L s1"
proof -
  have mem: "fst (insert_kv_in_memory L k v s) = s\<lparr>st_kv := ck_insert (lib_kv L) (st_kv s) k v\<rparr>"
    "fst (remove_key_in_memory L k s) = s\<lparr>st_kv := fst (ck_remove (lib_kv L) (st_kv s) k)\<rparr>"
    for k v and s :: "('kv, 'vs, 'zm, 'db) storage"
    by (simp_all add: insert_kv_in_memory_def remove_key_in_memory_def)
  note simps = view_zsets_remove [OF L(1)] view_disk [OF L] view_kv [OF L(1), unfolded mem]
  show ?thesis
  proof (cases c)
    case (Add k v)
    with inv step wf show ?thesis
      by (cases pc) (auto simp: Let_def zset_same_def cmd_frame_def simps mem view_frames kv_frames disk_frames)
  next
    case (Del k)
    with inv step wf show ?thesis
      by (cases pc) (auto simp: Let_def zset_same_def cmd_frame_def simps mem view_frames kv_frames disk_frames)
  qed (use kv in simp_all)
qed
text \<open>A step of a command on the object of its zset, and the commands on a zset.\<close>

lemma zset_object_step:
  assumes L: "libs_ok L" and wf: "heap_wf L s" and a: "addr_of L s k = Some a"
    and inv: "op_inv m0 opn zpc (score_at L s k (op_member opn)) (bucket_at L s k (op_member opn))"
    and step: "next_op (lib_vs L) zpc (st_heap s a) = (zpc1, z)"
    and s1: "s1 = s\<lparr>st_heap := (st_heap s)(a := z)\<rparr>"
  shows "addr_of L s1 = addr_of L s" and "heap_wf L s1"
    and "op_inv m0 opn zpc1 (score_at L s1 k (op_member opn)) (bucket_at L s1 k (op_member opn))"
    and "\<lbrakk>k' \<noteq> k \<or> v \<noteq> op_member opn\<rbrakk> \<Longrightarrow>
      score_at L s1 k' v = score_at L s k' v \<and> bucket_at L s1 k' v = bucket_at L s k' v"
    and "kv_of L s1 = kv_of L s" "disk_kv L s1 = disk_kv L s" "disk_score L s1 = disk_score L s"
proof -
  note upd = view_update [OF wf a, of s1 z, unfolded s1, simplified, folded s1]
  have "index_wf (score_to_values (st_heap s a))" using wf a by (simp add: heap_wf_def)
  note z = op_inv_step [OF libs_okD(2) [OF L] this inv [unfolded view_locked [OF a]] step]
  show "addr_of L s1 = addr_of L s" by (rule upd(1))
  show "heap_wf L s1" by (rule upd(2) [OF z(2)])
  show "op_inv m0 opn zpc1 (score_at L s1 k (op_member opn)) (bucket_at L s1 k (op_member opn))"
    using z(1) by (simp add: upd(3,4))
  show "\<lbrakk>k' \<noteq> k \<or> v \<noteq> op_member opn\<rbrakk> \<Longrightarrow>
      score_at L s1 k' v = score_at L s k' v \<and> bucket_at L s1 k' v = bucket_at L s k' v"
    using z(3,4) [of v] by (auto simp: upd(3,4) view_locked [OF a])
qed (simp_all add: s1 kv_frames disk_frames)

lemma zadd_step:
  fixes L :: "('kv, 'vs, 'zm, 'db) libs"
  assumes L: "libs_ok L" "rocks_reliable (lib_db L)" and wf: "heap_wf L s" and clean: "key_clean k"
    and inv: "cmd_inv L s0 (Zadd k sv) pc s" and step: "next_cmd L pc s = (pc1, s1)"
  shows "cmd_inv L s0 (Zadd k sv) pc1 s1 \<and> cmd_frame L (Zadd k sv) s s1 \<and> heap_wf L s1"
proof (cases pc)
  case (Zadd_Disk k1 sv1)
  with inv step wf show ?thesis
    by (auto simp: cmd_frame_def Let_def view_frames kv_frames disk_frames view_zset_disk [OF L clean])
next
  case (Zadd_Find k1 sv1)
  with inv have eq: "k1 = k" "sv1 = sv" by (simp_all add: Let_def)
  obtain zm a where goi: "ck_get_or_insert (lib_zm L) (st_zsets s) k (st_next s) = (zm, a)"
    by (cases "ck_get_or_insert (lib_zm L) (st_zsets s) k (st_next s)")
  have s1: "pc1 = Zadd_Zset k sv a (Add_Start sv)"
    "s1 = s\<lparr>st_zsets := zm, st_next := Suc (st_next s), st_heap := (st_heap s)(st_next s := zset_new (lib_vs L))\<rparr>"
    using step by (simp_all add: Zadd_Find eq goi)
  have new: "st_zsets s1 = zm" "st_next s1 = Suc (st_next s)"
    "st_heap s1 = (st_heap s)(st_next s := zset_new (lib_vs L))"
    by (simp_all add: s1(2))
  note view = view_find [OF L(1) wf goi new]
  have "kv_of L s1 = kv_of L s" "disk_kv L s1 = disk_kv L s" "disk_score L s1 = disk_score L s"
    by (simp_all add: s1 kv_of_def disk_kv_def disk_score_def fun_eq_iff)
  with view inv show ?thesis by (auto simp: Zadd_Find s1(1) cmd_frame_def Let_def)
next
  case (Zadd_Zset k1 sv1 a zpc)
  with inv have eq: "k1 = k" "sv1 = sv" "addr_of L s k = Some a" "zpc \<noteq> Op_Done"
    and at: "op_inv (score_at L s0 k (sv_value sv)) (Zset_Add sv) zpc
      (score_at L s k (op_member (Zset_Add sv))) (bucket_at L s k (op_member (Zset_Add sv)))"
    and disk: "disk_score L s k (sv_value sv) = Some (sv_score sv)"
    by (simp_all add: Let_def)
  obtain zpc1 z where z: "next_op (lib_vs L) zpc (st_heap s a) = (zpc1, z)"
    by (cases "next_op (lib_vs L) zpc (st_heap s a)")
  have s1: "pc1 = (if zpc1 = Op_Done then Cmd_Done else Zadd_Zset k sv a zpc1)"
    "s1 = s\<lparr>st_heap := (st_heap s)(a := z)\<rparr>"
    using step by (auto simp: Zadd_Zset eq z)
  note view = zset_object_step [OF L(1) wf eq(3) at z s1(2)]
  from view(3) have at1: "op_inv (score_at L s0 k (sv_value sv)) (Zset_Add sv) zpc1
      (score_at L s1 k (sv_value sv)) (bucket_at L s1 k (sv_value sv))" by simp
  have "cmd_inv L s0 (Zadd k sv) pc1 s1"
    using at1 by (cases "zpc1 = Op_Done") (simp_all add: s1(1) Let_def view(1,7) eq disk)
  moreover have "cmd_frame L (Zadd k sv) s s1" using view(4) by (auto simp: cmd_frame_def view(1,5-7))
  ultimately show ?thesis using view(2) by simp
next
  case Cmd_Done
  with inv step wf show ?thesis by (simp add: cmd_frame_refl)
qed (use inv in \<open>simp_all add: Let_def\<close>)

lemma zrmv_step:
  fixes L :: "('kv, 'vs, 'zm, 'db) libs"
  assumes L: "libs_ok L" "rocks_reliable (lib_db L)" and wf: "heap_wf L s" and clean: "key_clean k"
    and inv: "cmd_inv L s0 (Zrmv k v) pc s" and step: "next_cmd L pc s = (pc1, s1)"
  shows "cmd_inv L s0 (Zrmv k v) pc1 s1 \<and> cmd_frame L (Zrmv k v) s s1 \<and> heap_wf L s1"
proof (cases pc)
  case (Zrmv_Find k1 v1)
  with inv have eq: "k1 = k" "v1 = v" by (simp_all add: Let_def)
  show ?thesis
  proof (cases "addr_of L s k")
    case None
    then have gone: "score_at L s k v = None" "bucket_at L s k v = (\<lambda>_. False)"
      by (simp_all add: score_at_def bucket_at_def)
    have s1: "pc1 = Cmd_Done" "s1 = s" using step None by (simp_all add: Zrmv_Find eq addr_of_def)
    from inv have "score_at L s0 k v = None" "disk_score L s k v = disk_score L s0 k v"
      by (simp_all add: Zrmv_Find Let_def op_inv_points gone)
    then show ?thesis
      using wf by (simp add: s1 cmd_frame_refl Let_def op_inv_points gone)
  next
    case (Some a)
    then have "pc1 = Zrmv_Zset k v a (Rmv_Start v)" "s1 = s"
      using step by (simp_all add: Zrmv_Find eq addr_of_def)
    with Some inv wf show ?thesis by (simp add: Zrmv_Find Let_def cmd_frame_refl)
  qed
next
  case (Zrmv_Zset k1 v1 a zpc)
  with inv have eq: "k1 = k" "v1 = v" "addr_of L s k = Some a"
    and at: "op_inv (score_at L s0 k v) (Zset_Rmv v) zpc
      (score_at L s k (op_member (Zset_Rmv v))) (bucket_at L s k (op_member (Zset_Rmv v)))"
    by (simp_all add: Let_def)
  obtain zpc1 z where z: "next_op (lib_vs L) zpc (st_heap s a) = (zpc1, z)"
    by (cases "next_op (lib_vs L) zpc (st_heap s a)")
  have s1: "pc1 = (case zpc1 of Rmv_Index v1 score \<Rightarrow> Zrmv_Disk k v a score | _ \<Rightarrow> Cmd_Done)"
    "s1 = s\<lparr>st_heap := (st_heap s)(a := z)\<rparr>"
    using step by (auto simp: Zrmv_Zset eq z)
  note view = zset_object_step [OF L(1) wf eq(3) at z s1(2)]
  from view(3) have at1: "op_inv (score_at L s0 k v) (Zset_Rmv v) zpc1 (score_at L s1 k v) (bucket_at L s1 k v)"
    by simp
  have "cmd_inv L s0 (Zrmv k v) pc1 s1"
  proof (cases zpc)
    case (Rmv_Start v2)
    then have v2: "v2 = v" and m0: "score_at L s k v = score_at L s0 k v" using at by (simp_all add: op_inv_points)
    have now: "zset_abs (lib_vs L) (st_heap s a) v = score_at L s0 k v"
      using m0 view_locked(1) [OF eq(3), of v] by simp
    have same: "disk_score L s1 k v = disk_score L s0 k v"
      using inv by (simp add: Zrmv_Zset Rmv_Start Let_def view(7))
    obtain m r where m: "ck_remove (lib_vs L) (value_to_score (st_heap s a)) v = (m, r)"
      by (cases "ck_remove (lib_vs L) (value_to_score (st_heap s a)) v")
    then have r: "r = score_at L s0 k v"
      using now ck_snd_remove [OF libs_okD(2) [OF L(1)], of "value_to_score (st_heap s a)" v]
      by (simp add: zset_abs_def)
    show ?thesis
    proof (cases r)
      case None
      with m z have "zpc1 = Op_Done" by (simp add: Rmv_Start v2)
      with at1 same r None show ?thesis
        unfolding cmd_inv.simps Let_def by (simp add: s1(1))
    next
      case (Some sc)
      with m z have "zpc1 = Rmv_Index v sc" by (simp add: Rmv_Start v2)
      moreover from r Some have "score_at L s0 k v = Some sc" by simp
      ultimately show ?thesis using at1 Some same
        unfolding cmd_inv.simps Let_def by (simp add: s1(1) view(1) eq(3))
    qed
  next
    case (Rmv_Index v2 sc)
    with z have "zpc1 = Op_Done" by simp
    moreover have "disk_score L s k v = None \<and> score_at L s0 k v \<noteq> None"
      using inv by (simp add: Zrmv_Zset Rmv_Index Let_def)
    ultimately show ?thesis using at1 by (simp add: s1(1) Let_def view(7))
  qed (use inv in \<open>simp_all add: Zrmv_Zset Let_def\<close>)
  moreover have "cmd_frame L (Zrmv k v) s s1" using view(4) by (auto simp: cmd_frame_def view(1,5-7))
  ultimately show ?thesis using view(2) by simp
next
  case (Zrmv_Disk k1 v1 a sc)
  with inv step wf show ?thesis
    by (auto simp: cmd_frame_def Let_def view_frames kv_frames disk_frames view_zset_disk [OF L clean])
next
  case Cmd_Done
  with inv step wf show ?thesis by (simp add: cmd_frame_refl)
qed (use inv in \<open>simp_all add: Let_def\<close>)

lemma cmd_step:
  assumes "libs_ok L" and "rocks_reliable (lib_db L)" and "heap_wf L s"
    and "cmd_member c \<noteq> None \<Longrightarrow> key_clean (cmd_key c)"
    and "cmd_inv L s0 c pc s" and "next_cmd L pc s = (pc1, s1)"
  shows "cmd_inv L s0 c pc1 s1" and "cmd_frame L c s s1" and "heap_wf L s1"
proof -
  have "cmd_inv L s0 c pc1 s1 \<and> cmd_frame L c s s1 \<and> heap_wf L s1"
  proof (cases c)
    case (Zadd k sv)
    have "key_clean k" using assms(4) by (simp add: Zadd)
    from zadd_step [OF assms(1-3) this assms(5) [unfolded Zadd] assms(6)] show ?thesis by (simp add: Zadd)
  next
    case (Zrmv k v)
    have "key_clean k" using assms(4) by (simp add: Zrmv)
    from zrmv_step [OF assms(1-3) this assms(5) [unfolded Zrmv] assms(6)] show ?thesis by (simp add: Zrmv)
  qed (rule kv_cmd_step [OF assms(1-3,5) _ assms(6)], simp)+
  then show "cmd_inv L s0 c pc1 s1" "cmd_frame L c s s1" "heap_wf L s1" by simp_all
qed

section \<open>Any number of commands\<close>

definition store_inv ::
    "('kv, 'vs, 'zm, 'db) libs \<Rightarrow> ('kv, 'vs, 'zm, 'db) storage \<Rightarrow> cmd list \<Rightarrow>
     ('kv, 'vs, 'zm, 'db) storage \<Rightarrow> store_pc list \<Rightarrow> bool" where
  "store_inv L s0 cs s pcs \<longleftrightarrow> length pcs = length cs \<and> heap_wf L s \<and>
     (\<forall>i < length cs. cmd_inv L s0 (cs ! i) (pcs ! i) s) \<and>
     (\<forall>k. (\<forall>c \<in> set cs. k \<noteq> cmd_key c \<or> cmd_member c \<noteq> None) \<longrightarrow>
        kv_of L s k = kv_of L s0 k \<and> disk_kv L s k = disk_kv L s0 k \<and>
        (addr_of L s0 k \<noteq> None \<longrightarrow> addr_of L s k \<noteq> None) \<and>
        (addr_of L s k \<noteq> None \<longrightarrow> addr_of L s0 k \<noteq> None \<or> (\<exists>sv. Zadd k sv \<in> set cs))) \<and>
     (\<forall>k v. (\<forall>c \<in> set cs. k \<noteq> cmd_key c \<or> (cmd_member c \<noteq> None \<and> cmd_member c \<noteq> Some v)) \<longrightarrow>
        score_at L s k v = score_at L s0 k v \<and> bucket_at L s k v = bucket_at L s0 k v) \<and>
     (\<forall>k v. (\<forall>c \<in> set cs. k \<noteq> cmd_key c \<or> cmd_member c \<noteq> Some v) \<longrightarrow>
        disk_score L s k v = disk_score L s0 k v)"

lemma store_inv_start: "storage_ok L s0 \<Longrightarrow> store_inv L s0 cs s0 (map cmd_start cs)"
proof -
  assume "storage_ok L s0"
  then have wf: "heap_wf L s0" and b: "bucket_at L s0 k v = (\<lambda>sc. score_at L s0 k v = Some sc)" for k v
    by (simp_all add: storage_ok_view)
  have "cmd_inv L s0 c (cmd_start c) s0" for c
    by (cases c) (simp_all add: Let_def op_inv_points b zset_same_def)
  with wf show ?thesis by (simp add: store_inv_def)
qed

lemma store_inv_step:
  assumes L: "libs_ok L" "rocks_reliable (lib_db L)"
    and ind: "\<And>i j. \<lbrakk>i < length cs; j < length cs; i \<noteq> j\<rbrakk> \<Longrightarrow> independent (cs ! i) (cs ! j)"
    and clean: "\<And>c. \<lbrakk>c \<in> set cs; cmd_member c \<noteq> None\<rbrakk> \<Longrightarrow> key_clean (cmd_key c)"
    and inv: "store_inv L s0 cs s pcs" and i: "i < length pcs" and step: "next_cmd L (pcs ! i) s = (pc, s1)"
  shows "store_inv L s0 cs s1 (pcs[i := pc])"
proof -
  let ?c = "cs ! i"
  from inv i have len: "length pcs = length cs" "i < length cs" and wf: "heap_wf L s"
    and at: "cmd_inv L s0 ?c (pcs ! i) s" by (simp_all add: store_inv_def)
  then have c: "?c \<in> set cs" by simp
  note s1 = cmd_step [OF L wf clean [OF c] at step]
  have "cmd_inv L s0 (cs ! j) (pcs[i := pc] ! j) s1" if j: "j < length cs" for j
  proof (cases "j = i")
    case True
    with s1(1) i show ?thesis by simp
  next
    case False
    with inv j have "cmd_inv L s0 (cs ! j) (pcs ! j) s" by (simp add: store_inv_def)
    from cmd_inv_stable [OF ind [OF j len(2) False] s1(2) this] False show ?thesis by simp
  qed
  moreover have "kv_of L s1 k = kv_of L s0 k \<and> disk_kv L s1 k = disk_kv L s0 k \<and>
      (addr_of L s0 k \<noteq> None \<longrightarrow> addr_of L s1 k \<noteq> None) \<and>
      (addr_of L s1 k \<noteq> None \<longrightarrow> addr_of L s0 k \<noteq> None \<or> (\<exists>sv. Zadd k sv \<in> set cs))"
    if k: "\<forall>c \<in> set cs. k \<noteq> cmd_key c \<or> cmd_member c \<noteq> None" for k
  proof -
    have s: "kv_of L s k = kv_of L s0 k" "disk_kv L s k = disk_kv L s0 k"
      "addr_of L s0 k \<noteq> None \<longrightarrow> addr_of L s k \<noteq> None"
      "addr_of L s k \<noteq> None \<longrightarrow> addr_of L s0 k \<noteq> None \<or> (\<exists>sv. Zadd k sv \<in> set cs)"
      using inv k unfolding store_inv_def by blast+
    have kc: "k \<noteq> cmd_key ?c \<or> cmd_member ?c \<noteq> None" using k c by blast
    have "addr_of L s1 k = addr_of L s k \<or>
        (addr_of L s k = None \<and> (addr_of L s1 k \<noteq> None \<longrightarrow> (\<exists>sv. Zadd k sv \<in> set cs)))"
    proof (cases "k = cmd_key ?c")
      case False
      with s1(2) show ?thesis by (simp add: cmd_frame_def)
    next
      case True
      have "addr_of L s k \<noteq> None \<longrightarrow> addr_of L s1 k = addr_of L s k"
        using s1(2) kc True by (simp add: cmd_frame_def)
      moreover have "addr_of L s1 k \<noteq> None \<longrightarrow> addr_of L s k \<noteq> None \<or> (\<exists>k1 sv. ?c = Zadd k1 sv)"
        using s1(2) True by (simp add: cmd_frame_def)
      moreover have "Zadd k sv \<in> set cs" if "?c = Zadd k1 sv" for k1 sv
        using c that True by simp
      ultimately show ?thesis by metis
    qed
    moreover have "kv_of L s1 k = kv_of L s k" "disk_kv L s1 k = disk_kv L s k"
      using s1(2) kc by (simp_all add: cmd_frame_def)
    ultimately show ?thesis using s by auto
  qed
  moreover have "score_at L s1 k v = score_at L s0 k v \<and> bucket_at L s1 k v = bucket_at L s0 k v"
    if k: "\<forall>c \<in> set cs. k \<noteq> cmd_key c \<or> (cmd_member c \<noteq> None \<and> cmd_member c \<noteq> Some v)" for k v
  proof -
    have "score_at L s k v = score_at L s0 k v \<and> bucket_at L s k v = bucket_at L s0 k v"
      using inv k by (simp add: store_inv_def)
    moreover have "k \<noteq> cmd_key ?c \<or> (cmd_member ?c \<noteq> None \<and> cmd_member ?c \<noteq> Some v)" using k c by blast
    ultimately show ?thesis using s1(2) by (simp add: cmd_frame_def)
  qed
  moreover have "disk_score L s1 k v = disk_score L s0 k v"
    if k: "\<forall>c \<in> set cs. k \<noteq> cmd_key c \<or> cmd_member c \<noteq> Some v" for k v
  proof -
    have "disk_score L s k v = disk_score L s0 k v" using inv k by (simp add: store_inv_def)
    moreover have "k \<noteq> cmd_key ?c \<or> cmd_member ?c \<noteq> Some v" using k c by blast
    ultimately show ?thesis using s1(2) by (simp add: cmd_frame_def)
  qed
  ultimately show ?thesis using s1(3) len unfolding store_inv_def by (simp only: length_list_update) simp
qed

lemma store_inv_run:
  assumes "store_race L s pcs is s1 pcs1" and "libs_ok L" and "rocks_reliable (lib_db L)"
    and "\<And>i j. \<lbrakk>i < length cs; j < length cs; i \<noteq> j\<rbrakk> \<Longrightarrow> independent (cs ! i) (cs ! j)"
    and "\<And>c. \<lbrakk>c \<in> set cs; cmd_member c \<noteq> None\<rbrakk> \<Longrightarrow> key_clean (cmd_key c)"
    and "store_inv L s0 cs s pcs"
  shows "store_inv L s0 cs s1 pcs1"
  using assms(1,6) by (induction rule: store_race.induct) (auto intro: store_inv_step [OF assms(2-5)])

text \<open>The commands one after the other are one of the interleavings.\<close>

lemma serial_race:
  assumes L: "libs_ok L"
  shows "\<exists>is. store_race L s (replicate n Cmd_Done @ map cmd_start cs) is
    (fold (server_step L) cs s) (replicate (n + length cs) Cmd_Done)"
proof (induction cs arbitrary: n s)
  case Nil
  show ?case by (intro exI [of _ "[]"]) (simp add: store_race_Nil)
next
  case (Cons c cs)
  let ?pcs = "replicate n Cmd_Done @ map cmd_start (c # cs)"
  have "n < length ?pcs" "?pcs ! n = cmd_start c" by (simp_all add: nth_append)
  from cmd_alone [OF L this, of s] obtain js where
    js: "store_race L s ?pcs js (server_step L c s) (?pcs[n := Cmd_Done])" by blast
  have "?pcs[n := Cmd_Done] = replicate (Suc n) Cmd_Done @ map cmd_start cs"
    by (simp add: list_update_append replicate_append_same)
  with Cons.IH [of "server_step L c s" "Suc n"] obtain ks where
    "store_race L (server_step L c s) (?pcs[n := Cmd_Done]) ks
      (fold (server_step L) cs (server_step L c s)) (replicate (Suc n + length cs) Cmd_Done)" by auto
  from store_race_append [OF js this] show ?case by auto
qed

text \<open>A command takes at most five steps, whatever happens around it.\<close>

fun cmd_left :: "store_pc \<Rightarrow> nat" where
  "cmd_left (Add_Zset k v) = 3"
| "cmd_left (Add_Disk k v) = 2"
| "cmd_left (Add_Kv k v) = 1"
| "cmd_left (Del_Disk k) = 3"
| "cmd_left (Del_Kv k) = 2"
| "cmd_left (Del_Zset k) = 1"
| "cmd_left (Zadd_Disk k sv) = 5"
| "cmd_left (Zadd_Find k sv) = 4"
| "cmd_left (Zadd_Zset k sv a pc) = max 1 (steps_left pc)"
| "cmd_left (Zrmv_Find k v) = 4"
| "cmd_left (Zrmv_Zset k v a pc) = (case pc of Rmv_Start _ \<Rightarrow> 3 | _ \<Rightarrow> 1)"
| "cmd_left (Zrmv_Disk k v a sc) = 2"
| "cmd_left Cmd_Done = 0"

lemma next_cmd_left: "\<lbrakk>next_cmd L pc s = (pc1, s1); pc \<noteq> Cmd_Done\<rbrakk> \<Longrightarrow> cmd_left pc1 < cmd_left pc"
proof (cases pc)
  case (Zadd_Zset k sv a zpc)
  assume step: "next_cmd L pc s = (pc1, s1)"
  obtain zpc1 z where z: "next_op (lib_vs L) zpc (st_heap s a) = (zpc1, z)"
    by (cases "next_op (lib_vs L) zpc (st_heap s a)")
  then have pc1: "pc1 = (if zpc1 = Op_Done then Cmd_Done else Zadd_Zset k sv a zpc1)"
    using step by (auto simp: Zadd_Zset)
  show ?thesis
  proof (cases "zpc1 = Op_Done")
    case False
    then have "zpc \<noteq> Op_Done" using z by auto
    then have "steps_left zpc1 < steps_left zpc" by (rule next_op_steps [OF z])
    moreover have "0 < steps_left zpc1" using False by (cases zpc1) simp_all
    ultimately show ?thesis by (simp add: pc1 Zadd_Zset False)
  qed (simp add: pc1 Zadd_Zset)
next
  case (Zrmv_Zset k v a zpc)
  assume step: "next_cmd L pc s = (pc1, s1)"
  obtain zpc1 z where z: "next_op (lib_vs L) zpc (st_heap s a) = (zpc1, z)"
    by (cases "next_op (lib_vs L) zpc (st_heap s a)")
  then have pc1: "pc1 = (case zpc1 of Rmv_Index v1 score \<Rightarrow> Zrmv_Disk k v a score | _ \<Rightarrow> Cmd_Done)"
    using step by (auto simp: Zrmv_Zset)
  show ?thesis
    using z by (cases zpc) (auto simp: pc1 Zrmv_Zset split: option.splits if_splits prod.splits zset_pc.split)
qed (auto split: prod.splits option.splits)

lemma store_race_length:
  "store_race L s pcs is s1 pcs1 \<Longrightarrow> length is + sum_list (map cmd_left pcs1) \<le> sum_list (map cmd_left pcs)"
proof (induction rule: store_race.induct)
  case (store_step i pcs s pc s1 "is" s2 pcs2)
  have "sum_list (map cmd_left (pcs[i := pc])) < sum_list (map cmd_left pcs)"
    using next_cmd_left [OF store_step(3,2)] store_step(1) by (intro sum_list_update_less)
  with store_step.IH show ?case by simp
qed simp

text \<open>Two complete runs of the same commands show the same.\<close>

lemma store_inv_unique:
  assumes inv: "store_inv L s0 cs s pcs" "store_inv L s0 cs s' pcs'"
    and over: "\<forall>pc \<in> set pcs. pc = Cmd_Done" "\<forall>pc \<in> set pcs'. pc = Cmd_Done"
  shows "kv_of L s k = kv_of L s' k" and "disk_kv L s k = disk_kv L s' k"
    and "addr_of L s k = None \<longleftrightarrow> addr_of L s' k = None"
    and "score_at L s k v = score_at L s' k v" and "bucket_at L s k v = bucket_at L s' k v"
    and "disk_score L s k v = disk_score L s' k v"
proof -
  have at: "cmd_inv L s0 c Cmd_Done s \<and> cmd_inv L s0 c Cmd_Done s'" if "c \<in> set cs" for c
    using that inv over unfolding store_inv_def by (metis in_set_conv_nth)
  have kv: "kv_of L s k = kv_of L s' k \<and> disk_kv L s k = disk_kv L s' k \<and>
      (addr_of L s k = None \<longleftrightarrow> addr_of L s' k = None)"
  proof (cases "\<forall>c \<in> set cs. k \<noteq> cmd_key c \<or> cmd_member c \<noteq> None")
    case True
    then have "kv_of L s k = kv_of L s' k \<and> disk_kv L s k = disk_kv L s' k"
      using inv unfolding store_inv_def by simp
    moreover have "addr_of L s k \<noteq> None \<and> addr_of L s' k \<noteq> None" if "Zadd k sv \<in> set cs" for sv
      using at [OF that] by (simp add: Let_def)
    moreover have "addr_of L s0 k \<noteq> None \<longrightarrow> addr_of L s k \<noteq> None \<and> addr_of L s' k \<noteq> None"
      "addr_of L s k \<noteq> None \<or> addr_of L s' k \<noteq> None \<longrightarrow> addr_of L s0 k \<noteq> None \<or> (\<exists>sv. Zadd k sv \<in> set cs)"
      using inv True unfolding store_inv_def by blast+
    ultimately show ?thesis by blast
  next
    case False
    then obtain c where "c \<in> set cs" "k = cmd_key c" "cmd_member c = None" by blast
    with at [of c] show ?thesis by (cases c) simp_all
  qed
  then show "kv_of L s k = kv_of L s' k" "disk_kv L s k = disk_kv L s' k"
    "addr_of L s k = None \<longleftrightarrow> addr_of L s' k = None" by simp_all
  have "score_at L s k v = score_at L s' k v \<and> bucket_at L s k v = bucket_at L s' k v"
  proof (cases "\<forall>c \<in> set cs. k \<noteq> cmd_key c \<or> (cmd_member c \<noteq> None \<and> cmd_member c \<noteq> Some v)")
    case True
    then show ?thesis using inv unfolding store_inv_def by simp
  next
    case False
    then obtain c where c: "c \<in> set cs" "k = cmd_key c" and "cmd_member c = None \<or> cmd_member c = Some v"
      by metis
    then consider "cmd_member c = None" | "cmd_member c = Some v" by metis
    then show ?thesis
    proof cases
      case 1
      with at [OF c(1)] have "addr_of L s k = None \<and> addr_of L s' k = None" by (cases c) (simp_all add: c(2))
      then show ?thesis by (simp add: score_at_def bucket_at_def)
    next
      case 2
      with at [OF c(1)] show ?thesis by (cases c) (simp_all add: c(2) Let_def op_inv_points)
    qed
  qed
  then show "score_at L s k v = score_at L s' k v" "bucket_at L s k v = bucket_at L s' k v" by simp_all
  show "disk_score L s k v = disk_score L s' k v"
  proof (cases "\<forall>c \<in> set cs. k \<noteq> cmd_key c \<or> cmd_member c \<noteq> Some v")
    case True
    then show ?thesis using inv unfolding store_inv_def by simp
  next
    case False
    then obtain c where "c \<in> set cs" "k = cmd_key c" "cmd_member c = Some v" by blast
    with at [of c] show ?thesis by (cases c) (simp_all add: Let_def)
  qed
qed

text \<open>At every moment of a run every view is that of the start or that of the end.\<close>

lemma op_inv_between:
  assumes "op_inv m0 opn zpc m b" and "op_inv m0 opn Op_Done m2 b2" and "b0 = (\<lambda>sc. m0 = Some sc)"
  shows "m \<in> {m0, m2} \<and> b \<in> {b0, b2}"
  using assms by (cases opn; cases zpc) (auto simp: op_inv_points)

lemma store_inv_between:
  assumes ok: "storage_ok L s0" and inv: "store_inv L s0 cs s pcs" "store_inv L s0 cs s2 pcs2"
    and over: "\<forall>pc \<in> set pcs2. pc = Cmd_Done"
  shows "kv_of L s k \<in> {kv_of L s0 k, kv_of L s2 k}" and "disk_kv L s k \<in> {disk_kv L s0 k, disk_kv L s2 k}"
    and "score_at L s k v \<in> {score_at L s0 k v, score_at L s2 k v}"
    and "bucket_at L s k v \<in> {bucket_at L s0 k v, bucket_at L s2 k v}"
    and "disk_score L s k v \<in> {disk_score L s0 k v, disk_score L s2 k v}"
proof -
  have at: "(\<exists>pc. cmd_inv L s0 c pc s) \<and> cmd_inv L s0 c Cmd_Done s2" if "c \<in> set cs" for c
    using that inv over unfolding store_inv_def by (metis in_set_conv_nth)
  have b0: "bucket_at L s0 k v = (\<lambda>sc. score_at L s0 k v = Some sc)" using ok by (simp add: storage_ok_view)
  have kv_cmd: "kv_of L s k \<in> {kv_of L s0 k, kv_of L s2 k} \<and> disk_kv L s k \<in> {disk_kv L s0 k, disk_kv L s2 k} \<and>
      (zset_same L s0 s k \<or> addr_of L s k = None) \<and> addr_of L s2 k = None"
    if c: "c \<in> set cs" "k = cmd_key c" "cmd_member c = None" for c
  proof -
    obtain pc where pc: "cmd_inv L s0 c pc s" "cmd_inv L s0 c Cmd_Done s2" using at [OF c(1)] by blast
    show ?thesis
    proof (cases c)
      case (Add k1 v1)
      with pc c show ?thesis by (cases pc) (simp_all add: Let_def)
    next
      case (Del k1)
      with pc c show ?thesis by (cases pc) (simp_all add: Let_def)
    qed (use c in simp_all)
  qed
  have "kv_of L s k \<in> {kv_of L s0 k, kv_of L s2 k} \<and> disk_kv L s k \<in> {disk_kv L s0 k, disk_kv L s2 k}"
  proof (cases "\<forall>c \<in> set cs. k \<noteq> cmd_key c \<or> cmd_member c \<noteq> None")
    case True
    then show ?thesis using inv(1) unfolding store_inv_def by simp
  next
    case False
    then show ?thesis using kv_cmd by blast
  qed
  then show "kv_of L s k \<in> {kv_of L s0 k, kv_of L s2 k}" "disk_kv L s k \<in> {disk_kv L s0 k, disk_kv L s2 k}"
    by blast+
  have member_cmd: "score_at L s k v \<in> {score_at L s0 k v, score_at L s2 k v} \<and>
      bucket_at L s k v \<in> {bucket_at L s0 k v, bucket_at L s2 k v} \<and>
      disk_score L s k v \<in> {disk_score L s0 k v, disk_score L s2 k v}"
    if c: "c \<in> set cs" "k = cmd_key c" "cmd_member c = Some v" for c
  proof -
    obtain pc where pc: "cmd_inv L s0 c pc s" "cmd_inv L s0 c Cmd_Done s2" using at [OF c(1)] by blast
    show ?thesis
    proof (cases c)
      case (Zadd k1 sv)
      with c pc(2) have v: "k1 = k" "sv_value sv = v"
        and fin: "op_inv (score_at L s0 k v) (Zset_Add sv) Op_Done (score_at L s2 k v) (bucket_at L s2 k v)"
        by (auto simp: Let_def)
      from pc(1) Zadd v obtain zpc where
        "op_inv (score_at L s0 k v) (Zset_Add sv) zpc (score_at L s k v) (bucket_at L s k v)"
        by (cases pc) (auto simp: Let_def)
      note between = op_inv_between [OF this fin b0]
      have "disk_score L s k v \<in> {disk_score L s0 k v, disk_score L s2 k v}"
        using pc Zadd v by (cases pc) (simp_all add: Let_def)
      with between show ?thesis by blast
    next
      case (Zrmv k1 v1)
      with c pc(2) have v: "k1 = k" "v1 = v"
        and fin: "op_inv (score_at L s0 k v) (Zset_Rmv v) Op_Done (score_at L s2 k v) (bucket_at L s2 k v)"
        by (auto simp: Let_def)
      from pc(1) Zrmv v obtain zpc where
        "op_inv (score_at L s0 k v) (Zset_Rmv v) zpc (score_at L s k v) (bucket_at L s k v)"
        by (cases pc) (auto simp: Let_def)
      note between = op_inv_between [OF this fin b0]
      have "disk_score L s k v \<in> {disk_score L s0 k v, disk_score L s2 k v}"
        using pc Zrmv v by (cases pc) (auto simp: Let_def split: zset_pc.splits if_splits)
      with between show ?thesis by blast
    qed (use c in simp_all)
  qed
  have views: "score_at L s k v \<in> {score_at L s0 k v, score_at L s2 k v} \<and>
      bucket_at L s k v \<in> {bucket_at L s0 k v, bucket_at L s2 k v}"
  proof (cases "\<forall>c \<in> set cs. k \<noteq> cmd_key c \<or> (cmd_member c \<noteq> None \<and> cmd_member c \<noteq> Some v)")
    case True
    then show ?thesis using inv(1) unfolding store_inv_def by simp
  next
    case False
    then obtain c where c: "c \<in> set cs" "k = cmd_key c" and "cmd_member c = None \<or> cmd_member c = Some v"
      by metis
    then consider "cmd_member c = None" | "cmd_member c = Some v" by metis
    then show ?thesis
    proof cases
      case 1
      have none: "score_at L s k v = None" "bucket_at L s k v = (\<lambda>_. False)" if "addr_of L s k = None" for s
        using that by (simp_all add: score_at_def bucket_at_def)
      from kv_cmd [OF c 1] have "zset_same L s0 s k \<or> addr_of L s k = None" "addr_of L s2 k = None" by simp_all
      then show ?thesis using none [of s] none [of s2] by (auto simp: zset_same_def)
    next
      case 2
      from member_cmd [OF c 2] show ?thesis by blast
    qed
  qed
  then show "score_at L s k v \<in> {score_at L s0 k v, score_at L s2 k v}"
    "bucket_at L s k v \<in> {bucket_at L s0 k v, bucket_at L s2 k v}" by blast+
  show "disk_score L s k v \<in> {disk_score L s0 k v, disk_score L s2 k v}"
  proof (cases "\<forall>c \<in> set cs. k \<noteq> cmd_key c \<or> cmd_member c \<noteq> Some v")
    case True
    then show ?thesis using inv(1) unfolding store_inv_def by simp
  next
    case False
    then obtain c where "c \<in> set cs" "k = cmd_key c" "cmd_member c = Some v" by blast
    from member_cmd [OF this] show ?thesis by blast
  qed
qed

text \<open>A range query only reads the index, and answers with the scores the index has.\<close>

lemma range_buckets:
  fixes z :: "'vs zset"
  assumes wf: "index_wf (score_to_values z)" and b: "\<And>v. in_bucket (score_to_values z) v = (\<lambda>sc. m v = Some sc)"
    and it: "iteration_laws it" and rs: "zset_range it z r = Inr rs"
  shows "set rs = range_answer m r" "distinct rs" "sorted (map sv_score rs)"
proof -
  let ?z = "\<lparr>value_to_score = m, score_to_values = score_to_values z\<rparr>"
  have abs: "zset_abs fun_cuckoo ?z = m" by (simp add: zset_abs_def fun_cuckoo_def)
  then have "zset_ok fun_cuckoo ?z" using wf b by (simp add: zset_ok_buckets)
  moreover have "zset_range it ?z r = Inr rs" using rs by (simp add: zset_range_def)
  ultimately show "set rs = range_answer m r" "distinct rs" "sorted (map sv_score rs)"
    using zset_range_answer [OF _ it, of fun_cuckoo ?z r rs] abs by simp_all
qed

lemma score_at_spec: "sp_score (storage_abs L s) k v = score_at L s k v"
  by (simp add: sp_score_def sp_storage_abs zs_of_view) (simp add: score_at_def)

section \<open>Properties\<close>

definition store_view :: "('kv, 'vs, 'zm, 'db) libs \<Rightarrow> ('kv, 'vs, 'zm, 'db) storage \<Rightarrow>
    spec \<times> (string \<Rightarrow> string option) \<times> (string \<Rightarrow> string \<Rightarrow> u32 option)" where
  "store_view L s = (storage_abs L s, disk_kv L s, disk_score L s)"

lemma independent_inv:
  assumes L: "libs_ok L" and reliable: "rocks_reliable (lib_db L)" and ok: "storage_ok L s"
    and ind: "sorted_wrt independent cs"
    and clean: "\<forall>c \<in> set cs. cmd_member c \<noteq> None \<longrightarrow> key_clean (cmd_key c)"
    and run: "store_race L s (map cmd_start cs) is s1 pcs"
  shows "store_inv L s cs s1 pcs" and "store_inv L s cs (fold (server_step L) cs s) (replicate (length cs) Cmd_Done)"
    and "\<forall>pc \<in> set (replicate (length cs) Cmd_Done). pc = Cmd_Done"
proof -
  have ind': "independent (cs ! i) (cs ! j)" if "i < length cs" "j < length cs" "i \<noteq> j" for i j
  proof -
    have "independent (cs ! i) (cs ! j) \<or> independent (cs ! j) (cs ! i)"
      using ind that by (cases "i < j") (auto simp: sorted_wrt_iff_nth_less)
    then show ?thesis by (auto simp: independent_def)
  qed
  obtain js where serial: "store_race L s (map cmd_start cs) js (fold (server_step L) cs s)
      (replicate (length cs) Cmd_Done)"
    using serial_race [OF L, of s 0 cs] by auto
  show "store_inv L s cs s1 pcs" "store_inv L s cs (fold (server_step L) cs s) (replicate (length cs) Cmd_Done)"
    using store_inv_run [OF run L reliable ind'] store_inv_run [OF serial L reliable ind']
      store_inv_start [OF ok, of cs] clean by blast+
  show "\<forall>pc \<in> set (replicate (length cs) Cmd_Done). pc = Cmd_Done" by simp
qed

text \<open>
  C7. Any complete interleaving of independent commands, those on members with keys that have no
  zero byte, leaves a consistent store, with the
  contents in memory and in both databases that the commands leave when they run one after the
  other, which in memory are those of the abstract store; it takes at most five steps a command.
\<close>

theorem independent_commands:
  assumes L: "libs_ok L" and reliable: "rocks_reliable (lib_db L)" and ok: "storage_ok L s"
    and ind: "sorted_wrt independent cs"
    and clean: "\<forall>c \<in> set cs. cmd_member c \<noteq> None \<longrightarrow> key_clean (cmd_key c)"
    and run: "store_race L s (map cmd_start cs) is s1 pcs" and over: "\<forall>pc \<in> set pcs. pc = Cmd_Done"
  shows "storage_ok L s1 \<and> store_view L s1 = store_view L (fold (server_step L) cs s) \<and>
    storage_abs L s1 = fold spec_step cs (storage_abs L s) \<and> length is \<le> 5 * length cs"
proof -
  let ?s2 = "fold (server_step L) cs s"
  note inv = independent_inv [OF L reliable ok ind clean run]
  note same = store_inv_unique [OF inv(1,2) over inv(3)]
  have "storage_ok L ?s2 \<and> storage_abs L ?s2 = fold spec_step cs (storage_abs L s)"
    using server.run_refines [of L s cs] L ok by simp
  moreover have "store_view L s1 = store_view L ?s2"
    by (auto simp: store_view_def storage_abs_def fun_eq_iff zs_of_view same)
  moreover have "storage_ok L s1"
    using calculation(1) inv(1) by (simp add: storage_ok_view same store_inv_def)
  moreover have "length is \<le> 5 * length cs"
  proof -
    have "cmd_left (cmd_start c) \<le> 5" for c by (cases c) simp_all
    then have "sum_list (map cmd_left (map cmd_start cs)) \<le> 5 * length cs"
      by (induction cs) (simp_all add: add_mono)
    with store_race_length [OF run] show ?thesis by simp
  qed
  ultimately show ?thesis by (simp add: store_view_def)
qed

lemma sample_race:
  "\<exists>s. store_race ref_libs (new_storage ref_libs [] [])
     (map cmd_start [Zadd ''z'' (Score_Value 1 ''a''), Zadd ''z'' (Score_Value 2 ''b''), Add ''k'' ''v''])
     [0, 1, 2, 0, 1, 2, 0, 1, 1, 0, 1, 0, 2] s (replicate 3 Cmd_Done)"
  by (simp add: store_race_Cons store_race_Nil new_storage_def zset_new_def zsets_remove_def
      insert_kv_in_memory_def ref_defs numeral_3_eq_3)

theorem independent_commands_witness:
  "\<exists>s. store_race ref_libs (new_storage ref_libs [] [])
      (map cmd_start [Zadd ''z'' (Score_Value 1 ''a''), Zadd ''z'' (Score_Value 2 ''b''), Add ''k'' ''v''])
      [0, 1, 2, 0, 1, 2, 0, 1, 1, 0, 1, 0, 2] s (replicate 3 Cmd_Done) \<and>
    storage_ok ref_libs s \<and> sp_score (storage_abs ref_libs s) ''z'' ''a'' = Some 1 \<and>
    sp_score (storage_abs ref_libs s) ''z'' ''b'' = Some 2"
proof -
  let ?cs = "[Zadd ''z'' (Score_Value 1 ''a''), Zadd ''z'' (Score_Value 2 ''b''), Add ''k'' ''v'']"
  from sample_race obtain s where s: "store_race ref_libs (new_storage ref_libs [] []) (map cmd_start ?cs)
      [0, 1, 2, 0, 1, 2, 0, 1, 1, 0, 1, 0, 2] s (replicate 3 Cmd_Done)" by blast
  have "sorted_wrt independent ?cs" "\<forall>c \<in> set ?cs. cmd_member c \<noteq> None \<longrightarrow> key_clean (cmd_key c)"
    by (simp_all add: independent_def key_clean_def as_bytes_def)
  from independent_commands [OF ref_libs_ok ref_libs_reliable new_storage_ok [OF ref_libs_ok] this s]
  have "storage_ok ref_libs s" "storage_abs ref_libs s = fold spec_step ?cs spec_empty"
    by (simp_all add: new_storage_abs [OF ref_libs_ok])
  with s show ?thesis by (auto simp: spec_empty_def sp_score_def zs_put_def)
qed

text \<open>
  C8. What a reader sees while independent commands run, at any moment of any interleaving: each
  value is that of before or that of after all of them, and so is each score a range query answers
  with; its answer is sorted and without repetition. The databases too hold, for every key and every
  member, what they held before or will hold in the end, so a kill in the middle loses or keeps
  each change as a whole.
\<close>

theorem reads_between:
  assumes L: "libs_ok L" and reliable: "rocks_reliable (lib_db L)" and ok: "storage_ok L s"
    and ind: "sorted_wrt independent cs"
    and clean: "\<forall>c \<in> set cs. cmd_member c \<noteq> None \<longrightarrow> key_clean (cmd_key c)"
    and run: "store_race L s (map cmd_start cs) is s1 pcs" and s2: "s2 = fold (server_step L) cs s"
  shows "get_kv L s1 k \<in> {get_kv L s k, get_kv L s2 k} \<and>
    (zrange L s1 k r = Inr (Some svs) \<longrightarrow> distinct svs \<and> sorted (map sv_score svs) \<and>
      (\<exists>m. set svs = range_answer m r \<and>
        (\<forall>v. m v \<in> {sp_score (storage_abs L s) k v, sp_score (storage_abs L s2) k v}))) \<and>
    disk_kv L s1 k \<in> {disk_kv L s k, disk_kv L s2 k} \<and>
    disk_score L s1 k v \<in> {disk_score L s k v, disk_score L s2 k v}"
proof -
  note inv = independent_inv [OF L reliable ok ind clean run]
  note between = store_inv_between [OF ok inv [folded s2]]
  have range: "distinct svs \<and> sorted (map sv_score svs) \<and>
      (\<exists>m. set svs = range_answer m r \<and>
        (\<forall>v. m v \<in> {sp_score (storage_abs L s) k v, sp_score (storage_abs L s2) k v}))"
    if answer: "zrange L s1 k r = Inr (Some svs)"
  proof -
    obtain a where a: "addr_of L s1 k = Some a" and svs: "zset_range (lib_iter L) (st_heap s1 a) r = Inr svs"
      using answer by (auto simp: zrange_def addr_of_def split: option.splits sum.splits)
    have wf: "index_wf (score_to_values (st_heap s1 a))"
      using inv(1) a by (auto simp: store_inv_def heap_wf_def)
    have ok2: "storage_ok L s2" using server.run_refines [of L s cs] L ok by (simp add: s2)
    let ?m = "\<lambda>v. if bucket_at L s1 k v = bucket_at L s k v then score_at L s k v else score_at L s2 k v"
    have "in_bucket (score_to_values (st_heap s1 a)) v = (\<lambda>sc. ?m v = Some sc)" for v
    proof -
      have "bucket_at L s k v = (\<lambda>sc. score_at L s k v = Some sc)"
        "bucket_at L s2 k v = (\<lambda>sc. score_at L s2 k v = Some sc)"
        using ok ok2 by (simp_all add: storage_ok_view)
      then show ?thesis using between(4) [of k v] view_locked(2) [OF a, of v] by auto
    qed
    from range_buckets [OF wf this libs_okD(5) [OF L] svs] show ?thesis
      by (intro conjI exI [of _ ?m]) (simp_all add: score_at_spec)
  qed
  show ?thesis using between(1,2,5) range by (simp add: get_kv_kv_of)
qed

theorem reads_between_witness:
  "\<exists>s pcs. store_race ref_libs (new_storage ref_libs [] [])
      (map cmd_start [Zadd ''z'' (Score_Value 1 ''a''), Add ''k'' ''v'']) [0, 1, 0, 1, 0, 0] s pcs \<and>
    get_kv ref_libs s ''k'' \<in> {None, Some ''v''} \<and> disk_score ref_libs s ''z'' ''a'' = Some 1"
proof -
  let ?cs = "[Zadd ''z'' (Score_Value 1 ''a''), Add ''k'' ''v'']" and ?new = "new_storage ref_libs [] []"
  have "\<exists>s pcs. store_race ref_libs ?new (map cmd_start ?cs) [0, 1, 0, 1, 0, 0] s pcs \<and>
      disk_score ref_libs s ''z'' ''a'' = Some 1"
    by (simp add: store_race_Cons store_race_Nil new_storage_def zset_new_def zsets_remove_def
        insert_kv_in_memory_def ref_defs)
      (simp add: disk_score_def rdb_lookup_def ref_defs key_clean_def as_bytes_def get_zset_key_def bytes_simps)
  then obtain s pcs where s: "store_race ref_libs ?new (map cmd_start ?cs) [0, 1, 0, 1, 0, 0] s pcs"
    and disk: "disk_score ref_libs s ''z'' ''a'' = Some 1" by blast
  have ind: "sorted_wrt independent ?cs" "\<forall>c \<in> set ?cs. cmd_member c \<noteq> None \<longrightarrow> key_clean (cmd_key c)"
    by (simp_all add: independent_def key_clean_def as_bytes_def)
  have kv: "kv_of ref_libs ?new ''k'' = None" "kv_of ref_libs (fold (server_step ref_libs) ?cs ?new) ''k'' = Some ''v''"
    using server.run_refines [of ref_libs ?new ?cs] ref_libs_ok
    by (simp_all add: new_storage_ok new_storage_abs spec_empty_def flip: sp_storage_abs)
  from reads_between [OF ref_libs_ok ref_libs_reliable new_storage_ok [OF ref_libs_ok] ind s refl, of "''k''"]
  have "get_kv ref_libs s ''k'' \<in> {None, Some ''v''}" by (simp only: get_kv_kv_of kv)
  with s disk show ?thesis by blast
qed

text \<open>
  C21. Two writes of one key are not atomic: two \<open>/add\<close> requests can leave the first value in memory
  and the second on disk, and an \<open>/add\<close> and a \<open>/del\<close> can leave a key that memory has lost and the
  database still holds. Queries answer from memory; after a restart the value on disk comes back.
\<close>

theorem racing_writers:
  assumes L: "libs_ok L" and reliable: "rocks_reliable (lib_db L)" and wf: "disk_wf L s"
  shows "(\<exists>s1 s2. store_race L s (map cmd_start [Add k v, Add k u]) [0, 0, 1, 1, 1, 0] s1 [Cmd_Done, Cmd_Done] \<and>
      get_kv L s1 k = Some v \<and> restart L s1 = (s2, Inr ()) \<and> get_kv L s2 k = Some u) \<and>
    (\<exists>s1 s2. store_race L s (map cmd_start [Del k, Add k u]) [0, 1, 1, 1, 0, 0] s1 [Cmd_Done, Cmd_Done] \<and>
      get_kv L s1 k = None \<and> restart L s1 = (s2, Inr ()) \<and> get_kv L s2 k = Some u)"
proof -
  have again: "\<exists>s2. restart L s1 = (s2, Inr ()) \<and> get_kv L s2 k = disk_kv L s1 k"
    if "st_zset_db s1 = st_zset_db s" for s1
    using restart_contents [OF L, of s1] wf that by (auto simp: get_kv_kv_of disk_wf_def)
  have "\<exists>s1. store_race L s (map cmd_start [Add k v, Add k u]) [0, 0, 1, 1, 1, 0] s1 [Cmd_Done, Cmd_Done] \<and>
      get_kv L s1 k = Some v \<and> disk_kv L s1 k = Some u \<and> st_zset_db s1 = st_zset_db s"
    by (simp add: store_race_Cons store_race_Nil get_kv_kv_of view_kv [OF L])
      (simp add: disk_kv_def zsets_remove_def insert_kv_in_memory_def db_laws [OF L reliable] bytes_simps)
  moreover have "\<exists>s1. store_race L s (map cmd_start [Del k, Add k u]) [0, 1, 1, 1, 0, 0] s1 [Cmd_Done, Cmd_Done] \<and>
      get_kv L s1 k = None \<and> disk_kv L s1 k = Some u \<and> st_zset_db s1 = st_zset_db s"
    by (simp add: store_race_Cons store_race_Nil get_kv_kv_of view_kv [OF L] view_zsets_remove [OF L])
      (simp add: disk_kv_def zsets_remove_def insert_kv_in_memory_def remove_key_in_memory_def
        db_laws [OF L reliable] bytes_simps)
  ultimately show ?thesis using again by metis
qed

theorem racing_writers_witness:
  "\<exists>s1. store_race ref_libs (new_storage ref_libs [] []) (map cmd_start [Add ''k'' ''v'', Add ''k'' ''u''])
      [0, 0, 1, 1, 1, 0] s1 [Cmd_Done, Cmd_Done] \<and> get_kv ref_libs s1 ''k'' = Some ''v''"
proof -
  have "disk_wf ref_libs (new_storage ref_libs [] [])" using sample_synced by (simp add: disk_synced_def)
  from racing_writers [OF ref_libs_ok ref_libs_reliable this, of "''k''" "''v''" "''u''"] show ?thesis by blast
qed

end
