(* ===== verification/Boot.thy ===== *)
theory Boot
  imports Durability Cluster Sample_Cluster
begin

text \<open>
  Starting a process (\<open>main\<close> and \<open>tokio_run\<close> of \<open>hcache.rs\<close>, features \<open>tokio\<close> and \<open>memory\<close>):
  the databases are opened and loaded, the cores are recorded, and the task that serves the
  peers tries to load the cluster file, so a node that had joined joins again. The background
  thread that flushes the databases has no part here: the nodes stop with everything written out.
  What a killed process leaves is theory \<open>Crash\<close>.
\<close>

section \<open>Starting\<close>

text \<open>
  What opening a database and asking for the cores returned are arguments. A panic in the task
  that loads the peers ends the task, not the process; it is the fault of the result.
\<close>

definition tokio_run ::
    "env \<Rightarrow> string \<Rightarrow> nat list option \<Rightarrow> ('kv, 'vs, 'zm, 'db) storage world \<Rightarrow>
     ('kv, 'vs, 'zm, 'db) storage world \<times> unit result" where
  "tokio_run E h core_ids w =
     (case core_ids of
        None \<Rightarrow> (w, Inl Unwrap_Failed)
      | Some cores \<Rightarrow> try_load_peers E h (set_node h ((w_node w h)\<lparr>st_all_cores := cores\<rparr>) w))"

definition boot ::
    "('kv, 'vs, 'zm, 'db) libs \<Rightarrow> env \<Rightarrow> string \<Rightarrow> 'db option \<Rightarrow> 'db option \<Rightarrow> nat list option \<Rightarrow>
     ('kv, 'vs, 'zm, 'db) storage world \<Rightarrow> ('kv, 'vs, 'zm, 'db) storage world \<times> unit result" where
  "boot L E h opened_kv opened_zset core_ids w =
     (case (opened_kv, opened_zset) of
        (Some db, Some zset_db) \<Rightarrow>
          (case load_from_disk L (new_storage L db zset_db) of
             (s, Inl e) \<Rightarrow> (w, Inl e)
           | (s, Inr _) \<Rightarrow> tokio_run E h core_ids (set_node h s w))
      | _ \<Rightarrow> (w, Inl Unwrap_Failed))"

text \<open>A node that was down starts again on the databases it left.\<close>

definition reboot ::
    "('kv, 'vs, 'zm, 'db) libs \<Rightarrow> env \<Rightarrow> nat list \<Rightarrow> string \<Rightarrow> ('kv, 'vs, 'zm, 'db) storage world \<Rightarrow>
     ('kv, 'vs, 'zm, 'db) storage world \<times> unit result" where
  "reboot L E cores h w =
     boot L E h (Some (st_db (w_node w h))) (Some (st_zset_db (w_node w h))) (Some cores) w"

section \<open>A node joins again\<close>

text \<open>The cluster file of every host names the hosts and its place, and enough connections succeed.\<close>

definition rejoin_ok :: "env \<Rightarrow> string list \<Rightarrow> 's world \<Rightarrow> bool" where
  "rejoin_ok E hosts w \<longleftrightarrow>
     (\<forall>p \<in> set hosts. env_parse_addr E (p @ peer_port) = Some p) \<and>
     (\<forall>i < length hosts. (\<exists>data. w_file w (hosts ! i) = Some data \<and>
        js_read_cluster E data = Some \<lparr>uc_hosts = hosts, uc_index = word_of_nat (Suc i)\<rparr>) \<and>
        16 * length hosts \<le> count_list (w_connects w (hosts ! i)) True)"

lemma new_storage_frame:
  "st_peer_updated (new_storage L db zdb) = False" "st_load_state (new_storage L db zdb) = LOAD_STATE_INIT"
  by (simp_all add: new_storage_def)

lemma load_kv_config:
  "st_peer_updated (load_kv L es s) = st_peer_updated s" "st_load_state (load_kv L es s) = st_load_state s"
  by (induction es arbitrary: s; simp add: load_kv_def split_beta)+

lemma zadd_memory_config:
  "st_peer_updated (zadd_memory L k sv s) = st_peer_updated s" "st_load_state (zadd_memory L k sv s) = st_load_state s"
  by (simp_all add: zadd_memory_def Let_def split: option.splits prod.splits)

lemma load_zsets_config:
  "st_peer_updated (fst (load_zsets L es s)) = st_peer_updated s"
  "st_load_state (fst (load_zsets L es s)) = st_load_state s"
  by (induction es arbitrary: s) (auto simp: zadd_memory_config split: sum.splits prod.splits)

lemma restart_config:
  assumes "restart L s = (s', r)"
  shows "st_peer_updated s' = False" and "st_load_state s' = LOAD_STATE_INIT"
proof -
  have s': "s' = fst (restart L s)" using assms by simp
  show "st_peer_updated s' = False" and "st_load_state s' = LOAD_STATE_INIT"
    unfolding s' restart_def load_from_disk_def
    by (simp_all add: load_zsets_config load_kv_config new_storage_frame)
qed

lemma zadd_memory_dbs: "st_db (zadd_memory L k sv s) = st_db s" "st_zset_db (zadd_memory L k sv s) = st_zset_db s"
  by (simp_all add: zadd_memory_def Let_def split: option.splits prod.splits)

lemma load_zsets_dbs: "st_db (fst (load_zsets L es s)) = st_db s" "st_zset_db (fst (load_zsets L es s)) = st_zset_db s"
  by (induction L es s rule: load_zsets.induct) (auto simp: zadd_memory_dbs split: sum.splits prod.splits)

lemma restart_dbs:
  assumes "restart L s = (s', r)"
  shows "st_db s' = st_db s" and "st_zset_db s' = st_zset_db s"
proof -
  have s': "s' = fst (restart L s)" using assms by simp
  show "st_db s' = st_db s" and "st_zset_db s' = st_zset_db s"
    unfolding s' restart_def load_from_disk_def
    by (simp_all add: load_zsets_dbs load_kv_frame) (simp_all add: new_storage_def)
qed

text \<open>What the configuration of a node does not touch.\<close>

definition same_data :: "('kv, 'vs, 'zm, 'db) storage \<Rightarrow> ('kv, 'vs, 'zm, 'db) storage \<Rightarrow> bool" where
  "same_data a b \<longleftrightarrow> st_kv b = st_kv a \<and> st_zsets b = st_zsets a \<and> st_heap b = st_heap a \<and>
     st_next b = st_next a \<and> st_db b = st_db a \<and> st_zset_db b = st_zset_db a"

lemma disk_synced_cong:
  assumes "st_db b = st_db a" "st_zset_db b = st_zset_db a" "kv_of L b = kv_of L a" "score_of L b = score_of L a"
  shows "disk_synced L b = disk_synced L a"
proof -
  have "disk_wf L b = disk_wf L a" "disk_kv L b = disk_kv L a" "disk_score L b = disk_score L a"
    using assms(1,2) by (simp_all add: disk_wf_def disk_kv_def disk_score_def fun_eq_iff)
  then show ?thesis using assms(3,4) by (simp add: disk_synced_def)
qed

lemma same_data_facts:
  assumes "same_data a b"
  shows "storage_ok L b = storage_ok L a" and "kv_of L b = kv_of L a" and "zs_of L b = zs_of L a"
    and "score_of L b = score_of L a" and "disk_synced L b = disk_synced L a"
proof -
  show s: "storage_ok L b = storage_ok L a" "kv_of L b = kv_of L a" and z: "zs_of L b = zs_of L a"
    using assms by (simp_all add: same_data_def storage_ok_def kv_of_def zs_of_def fun_eq_iff)
  show sc: "score_of L b = score_of L a"
    using s z by (simp add: score_of_def storage_abs_def sp_score_def fun_eq_iff)
  show "disk_synced L b = disk_synced L a"
    using assms s sc by (intro disk_synced_cong) (simp_all add: same_data_def)
qed

lemma same_data_update_peers: "same_data s (fst (update_peers E peers i att s))"
  by (auto simp: same_data_def update_peers_def Let_def split: option.splits sum.splits)

lemma same_data_advance: "same_data s (advance_pool j s)"
  by (simp add: same_data_def advance_pool_def)

lemma update_peers_cores: "st_all_cores (fst (update_peers E peers i att s)) = st_all_cores s"
  by (auto simp: update_peers_def Let_def split: option.splits sum.splits)

text \<open>A reboot of one node: the same contents, the place in the cluster, and the cores.\<close>

lemma reboot_node:
  assumes L: "libs_ok L" and i: "i < length hosts" and synced: "disk_synced L (w_node w (hosts ! i))"
    and rejoin: "rejoin_ok E hosts w"
  shows "\<exists>s'. reboot L E cores (hosts ! i) w = (set_node (hosts ! i) s' w, Inr ()) \<and> node_ok L hosts i s' \<and>
    disk_synced L s' \<and> kv_of L s' = kv_of L (w_node w (hosts ! i)) \<and>
    score_of L s' = score_of L (w_node w (hosts ! i)) \<and>
    st_all_cores s' = cores \<and> st_load_state s' = LOAD_STATE_INIT \<and> st_peer_updated s'"
proof -
  let ?h = "hosts ! i"
  let ?s = "w_node w ?h"
  from synced_restart [OF L synced] obtain s1 where
    restart: "restart L ?s = (s1, Inr ())" and ok1: "storage_ok L s1"
    and kv1: "kv_of L s1 = kv_of L ?s" and sc1: "score_of L s1 = score_of L ?s" by blast
  have synced1: "disk_synced L s1"
    using disk_synced_cong [OF restart_dbs [OF restart] kv1 sc1] synced by simp
  from rejoin i obtain data where parse: "\<forall>p \<in> set hosts. env_parse_addr E (p @ peer_port) = Some p"
    and data: "w_file w ?h = Some data"
    and info: "js_read_cluster E data = Some \<lparr>uc_hosts = hosts, uc_index = word_of_nat (Suc i)\<rparr>"
    and connects: "16 * length hosts \<le> count_list (w_connects w ?h) True"
    unfolding rejoin_ok_def by blast
  let ?s2 = "s1\<lparr>st_all_cores := cores\<rparr>"
  let ?s3 = "?s2\<lparr>st_peer_updated := True\<rparr>"
  have data3: "same_data s1 ?s3" by (simp add: same_data_def)
  have "\<forall>p \<in> set hosts. env_parse_addr E (p @ peer_port) \<noteq> None" using parse by simp
  then obtain qs where "pool_new (env_parse_addr E) hosts (w_connects w ?h) = Some (Inr qs)"
    using pool_new_returns [of hosts "env_parse_addr E" "w_connects w ?h"] connects by blast
  then obtain s' where join: "update_peers E hosts (word_of_nat (Suc i)) (w_connects w ?h) ?s3 = (s', Inr ())"
    by (simp add: update_peers_def Let_def)
  have s': "s' = fst (update_peers E hosts (word_of_nat (Suc i)) (w_connects w ?h) ?s3)" by (simp only: join fst_conv)
  have "storage_ok L ?s3" using same_data_facts(1) [OF data3] ok1 by simp
  from join_node_ok [OF join parse this] have node: "node_ok L hosts i s'" .
  have "same_data ?s3 s'" unfolding s' by (rule same_data_update_peers)
  note same = same_data_facts [OF this, unfolded same_data_facts [OF data3]]
  have frame: "st_all_cores s' = cores" "st_load_state s' = LOAD_STATE_INIT" "st_peer_updated s'"
    unfolding s' using restart_config(2) [OF restart] by (simp_all add: update_peers_cores update_peers_frame)
  have "st_peer_updated ?s2 = False" using restart_config(1) [OF restart] by simp
  then have "try_load_peers E ?h (set_node ?h ?s2 w) = (set_node ?h s' w, Inr ())"
    using data info join by (simp add: try_load_peers_def set_node_def)
  moreover have "reboot L E cores ?h w = tokio_run E ?h (Some cores) (set_node ?h s1 w)"
    using restart by (simp add: reboot_def boot_def restart_def)
  ultimately have "reboot L E cores ?h w = (set_node ?h s' w, Inr ())"
    by (simp add: tokio_run_def) (simp add: set_node_def)
  moreover have "disk_synced L s'" using same(5) [of L] synced1 by simp
  moreover have "kv_of L s' = kv_of L ?s" using same(2) [of L] kv1 by simp
  moreover have "score_of L s' = score_of L ?s" using same(4) [of L] sc1 by simp
  ultimately show ?thesis using node frame by blast
qed

section \<open>All nodes start again\<close>

definition cluster_synced ::
    "('kv, 'vs, 'zm, 'db) libs \<Rightarrow> string list \<Rightarrow> ('kv, 'vs, 'zm, 'db) storage world \<Rightarrow> bool" where
  "cluster_synced L hosts w \<longleftrightarrow> (\<forall>i < length hosts. disk_synced L (w_node w (hosts ! i)))"

text \<open>The contents a client can tell apart: a sorted set without members is no sorted set.\<close>

definition same_contents :: "spec \<Rightarrow> spec \<Rightarrow> bool" where
  "same_contents a b \<longleftrightarrow> sp_kv a = sp_kv b \<and> (\<forall>k v. sp_score a k v = sp_score b k v)"

fun reboot_all ::
    "('kv, 'vs, 'zm, 'db) libs \<Rightarrow> env \<Rightarrow> nat list \<Rightarrow> string list \<Rightarrow> ('kv, 'vs, 'zm, 'db) storage world \<Rightarrow>
     ('kv, 'vs, 'zm, 'db) storage world \<times> unit result" where
  "reboot_all L E cores [] w = (w, Inr ())"
| "reboot_all L E cores (h # hs) w =
     (case reboot L E cores h w of
        (w1, Inl e) \<Rightarrow> (w1, Inl e)
      | (w1, Inr _) \<Rightarrow> reboot_all L E cores hs w1)"

lemma cluster_score:
  "sp_score (cluster_abs L hosts w) k v = score_of L (w_node w (owner hosts k)) k v"
  by (simp add: sp_score_def cluster_abs_def score_of_def storage_abs_def)

lemma rejoin_ok_set_node: "rejoin_ok E hosts (set_node h s w) = rejoin_ok E hosts w"
  by (simp add: rejoin_ok_def set_node_def)

lemma reboot_cluster:
  assumes L: "libs_ok L" and c: "cluster_ok L hosts w" and synced: "cluster_synced L hosts w"
    and rejoin: "rejoin_ok E hosts w" and i: "i < length hosts"
  shows "\<exists>w'. reboot L E cores (hosts ! i) w = (w', Inr ()) \<and> cluster_ok L hosts w' \<and>
    cluster_synced L hosts w' \<and> rejoin_ok E hosts w' \<and> net_ok w' = net_ok w \<and>
    same_contents (cluster_abs L hosts w') (cluster_abs L hosts w)"
proof -
  from synced i have "disk_synced L (w_node w (hosts ! i))" by (simp add: cluster_synced_def)
  from reboot_node [OF L i this rejoin] obtain s' where
    boot: "reboot L E cores (hosts ! i) w = (set_node (hosts ! i) s' w, Inr ())"
    and node: "node_ok L hosts i s'" and synced': "disk_synced L s'"
    and same: "kv_of L s' = kv_of L (w_node w (hosts ! i))" "score_of L s' = score_of L (w_node w (hosts ! i))"
    by blast
  let ?w = "set_node (hosts ! i) s' w"
  note cl = cluster_set_node [OF c i node, of ?w]
  have idx: "hosts ! j = hosts ! i \<longleftrightarrow> j = i" if "j < length hosts" for j
    using cluster_okD(2) [OF c] i that by (simp add: nth_eq_iff_index_eq)
  have "cluster_synced L hosts ?w"
    using synced synced' by (auto simp: cluster_synced_def idx)
  moreover have "sp_kv (cluster_abs L hosts ?w) = sp_kv (cluster_abs L hosts w)"
    using same(1) owner_kv(1) [of hosts _ i L w] by (auto simp: cl(2) fun_eq_iff)
  moreover have "sp_score (cluster_abs L hosts ?w) k v = sp_score (cluster_abs L hosts w) k v" for k v
    unfolding cluster_score using same(2) by (simp add: owner_def)
  moreover have "cluster_ok L hosts ?w" by (rule cl(1)) simp
  moreover have "net_ok ?w = net_ok w" by (simp add: net_ok_def set_node_def)
  ultimately show ?thesis
    using boot rejoin by (intro exI [of _ ?w]) (simp add: same_contents_def rejoin_ok_set_node)
qed

lemma same_contents_trans: "\<lbrakk>same_contents a b; same_contents b c\<rbrakk> \<Longrightarrow> same_contents a c"
  by (simp add: same_contents_def)

lemma reboot_all_cluster:
  assumes L: "libs_ok L"
  shows "\<lbrakk>set hs \<subseteq> set hosts; cluster_ok L hosts w; cluster_synced L hosts w; rejoin_ok E hosts w\<rbrakk> \<Longrightarrow>
    \<exists>w'. reboot_all L E cores hs w = (w', Inr ()) \<and> cluster_ok L hosts w' \<and> cluster_synced L hosts w' \<and>
      rejoin_ok E hosts w' \<and> net_ok w' = net_ok w \<and>
      same_contents (cluster_abs L hosts w') (cluster_abs L hosts w)"
proof (induction hs arbitrary: w)
  case Nil
  then show ?case by (simp add: same_contents_def)
next
  case (Cons h hs)
  from Cons.prems(1) obtain i where "i < length hosts" "h = hosts ! i" by (auto simp: in_set_conv_nth)
  with reboot_cluster [OF L Cons.prems(2-4), of i cores] obtain w1 where
    w1: "reboot L E cores h w = (w1, Inr ())" "cluster_ok L hosts w1" "cluster_synced L hosts w1"
      "rejoin_ok E hosts w1" "net_ok w1 = net_ok w" "same_contents (cluster_abs L hosts w1) (cluster_abs L hosts w)"
    by blast
  from Cons.IH [OF _ w1(2-4)] Cons.prems(1) obtain w2 where
    "reboot_all L E cores hs w1 = (w2, Inr ())" "cluster_ok L hosts w2" "cluster_synced L hosts w2"
    "rejoin_ok E hosts w2" "net_ok w2 = net_ok w1" "same_contents (cluster_abs L hosts w2) (cluster_abs L hosts w1)"
    by auto
  with w1 same_contents_trans [OF this(6) w1(6)] show ?case by (intro exI [of _ w2]) simp
qed

section \<open>Commands on a synced cluster\<close>

text \<open>The commands that keep the databases in step, on the contents.\<close>

fun spec_durable :: "spec \<Rightarrow> cmd \<Rightarrow> bool" where
  "spec_durable a (Add k v) \<longleftrightarrow> (\<forall>m. sp_score a k m = None)"
| "spec_durable a (Del k) \<longleftrightarrow> (\<forall>m. sp_score a k m = None)"
| "spec_durable a (Zadd k sv) \<longleftrightarrow> key_clean k"
| "spec_durable a (Zrmv k v) \<longleftrightarrow> True"

fun spec_durable_run :: "spec \<Rightarrow> cmd list \<Rightarrow> bool" where
  "spec_durable_run a [] \<longleftrightarrow> True"
| "spec_durable_run a (c # cs) \<longleftrightarrow> spec_durable a c \<and> spec_durable_run (spec_step c a) cs"

lemma spec_durable_owner:
  "spec_durable (cluster_abs L hosts w) c \<longleftrightarrow> durable_cmd L (w_node w (owner hosts (cmd_key c))) c"
  by (cases c) (simp_all add: durable_cmd_def cluster_score)

text \<open>Which nodes a delivered command changes, and how.\<close>

lemma send_cmd_nodes:
  assumes E: "env_ok E" and c: "cluster_ok L hosts w" and net: "net_ok w" and i: "i < length hosts"
  shows "let j = owner_index hosts (cmd_key cmd); w' = fst (send_cmd L E (hosts ! i) cmd w) in
    w_file w' = w_file w \<and> w_connects w' = w_connects w \<and>
    w_node w' (hosts ! j) = server_step L cmd (w_node w (hosts ! j)) \<and>
    (\<forall>n < length hosts. n \<noteq> j \<longrightarrow> same_data (w_node w (hosts ! n)) (w_node w' (hosts ! n)))"
proof -
  let ?j = "owner_index hosts (cmd_key cmd)"
  have j: "?j < length hosts" using cluster_okD(1) [OF c] by (rule owner_index_less)
  have idx: "hosts ! m = hosts ! n \<longleftrightarrow> m = n" if "m < length hosts" "n < length hosts" for m n
    using cluster_okD(2) [OF c] that by (simp add: nth_eq_iff_index_eq)
  note branch = send_cmd_branches [OF E, of L "hosts ! i" cmd w, unfolded local_shard_me [OF c i] unat_local_shard [OF c i]]
  have same: "same_data s s" for s :: "('a, 'b, 'c, 'd) storage" by (simp add: same_data_def)
  show ?thesis
  proof (cases "?j = i")
    case True
    with i show ?thesis unfolding branch Let_def by (auto simp: idx same set_node_def)
  next
    case False
    have "pool_ok hosts (w_node w (hosts ! i))" using cluster_okD(5) [OF c i] by (simp add: node_ok_def)
    note call = call_peer_ok [OF this j, of "cmd_method L cmd"]
    let ?w1 = "set_node (hosts ! i) (advance_pool ?j (w_node w (hosts ! i))) w"
    have "rpc_call (hosts ! ?j) (cmd_method L cmd) ?w1 =
        (set_node (hosts ! ?j) (server_step L cmd (w_node w (hosts ! ?j))) (?w1\<lparr>w_calls := Suc (w_calls ?w1)\<rparr>), Inr ())"
      using net idx [OF i j] False by (simp add: rpc_call_def net_ok_def Let_def cmd_method_step)
    then have "send_cmd L E (hosts ! i) cmd w =
        (set_node (hosts ! ?j) (server_step L cmd (w_node w (hosts ! ?j))) (?w1\<lparr>w_calls := Suc (w_calls ?w1)\<rparr>),
         Inr (ok_response ''''))"
      using False unfolding branch call by (simp add: reply_unit_def)
    then show ?thesis
      using False i j unfolding Let_def by (auto simp: idx same same_data_advance set_node_def)
  qed
qed

lemma cluster_step_synced:
  assumes L: "libs_ok L" "rocks_reliable (lib_db L)" and E: "env_ok E" and c: "cluster_ok L hosts w"
    and net: "net_ok w" and synced: "cluster_synced L hosts w" and rejoin: "rejoin_ok E hosts w"
    and durable: "spec_durable (cluster_abs L hosts w) (snd nc)"
  shows "cluster_synced L hosts (cluster_step L E hosts nc w)" and "rejoin_ok E hosts (cluster_step L E hosts nc w)"
proof -
  let ?i = "fst nc mod length hosts"
  let ?j = "owner_index hosts (cmd_key (snd nc))"
  have i: "?i < length hosts" using cluster_okD(3) [OF c] by simp
  have j: "?j < length hosts" using cluster_okD(1) [OF c] by (rule owner_index_less)
  note n = send_cmd_nodes [OF E c net i, of "snd nc", unfolded Let_def, folded cluster_step_def]
  show "rejoin_ok E hosts (cluster_step L E hosts nc w)"
    using rejoin n by (simp add: rejoin_ok_def)
  have "storage_ok L (w_node w (hosts ! ?j))" using cluster_okD(5) [OF c j] by (simp add: node_ok_def)
  moreover have "disk_synced L (w_node w (hosts ! ?j))" using synced j by (simp add: cluster_synced_def)
  moreover have "durable_cmd L (w_node w (hosts ! ?j)) (snd nc)"
    using durable unfolding spec_durable_owner by (simp add: owner_def)
  ultimately have "disk_synced L (server_step L (snd nc) (w_node w (hosts ! ?j)))"
    by (rule disk_synced_step [OF L])
  then show "cluster_synced L hosts (cluster_step L E hosts nc w)"
    using n synced same_data_facts(5) unfolding cluster_synced_def by metis
qed

lemma cluster_run_synced:
  assumes "libs_ok L" "rocks_reliable (lib_db L)" "env_ok E"
  shows "\<lbrakk>cluster_ok L hosts w; net_ok w; cluster_synced L hosts w; rejoin_ok E hosts w;
      spec_durable_run (cluster_abs L hosts w) (map snd reqs)\<rbrakk> \<Longrightarrow>
    let w' = fold (cluster_step L E hosts) reqs w in
      cluster_ok L hosts w' \<and> net_ok w' \<and> cluster_synced L hosts w' \<and> rejoin_ok E hosts w' \<and>
      cluster_abs L hosts w' = fold spec_step (map snd reqs) (cluster_abs L hosts w)"
proof (induction reqs arbitrary: w)
  case (Cons nc reqs)
  have inv: "libs_ok L \<and> env_ok E \<and> cluster_ok L hosts w \<and> net_ok w" using assms Cons.prems by simp
  note next_inv = cluster.invar_step [OF inv, of nc] and next_abs = cluster.abs_step [OF inv, of nc]
  have "spec_durable (cluster_abs L hosts w) (snd nc)" using Cons.prems(5) by simp
  note synced = cluster_step_synced [OF assms Cons.prems(1-4) this]
  have "spec_durable_run (cluster_abs L hosts (cluster_step L E hosts nc w)) (map snd reqs)"
    using Cons.prems(5) by (simp add: next_abs)
  from Cons.IH [OF _ _ synced this] next_inv next_abs show ?case by simp
qed (simp add: Let_def)

section \<open>Properties\<close>

text \<open>
  C5. A cluster survives the restart of all its nodes: after any sequence of commands sent to any
  nodes, none of which adds over or deletes a sorted set with members and all of whose sorted-set
  keys are free of zero bytes, starting every process again on its databases and its cluster file
  makes the same cluster with the same values and scores, ready for the same again.
\<close>

theorem cluster_restart:
  assumes "libs_ok L" and "rocks_reliable (lib_db L)" and "env_ok E" and "cluster_ok L hosts w" and "net_ok w"
    and "cluster_synced L hosts w" and "rejoin_ok E hosts w"
    and "spec_durable_run (cluster_abs L hosts w) (map snd reqs)"
  shows "\<exists>w'. reboot_all L E cores hosts (fold (cluster_step L E hosts) reqs w) = (w', Inr ()) \<and>
    cluster_ok L hosts w' \<and> net_ok w' \<and> cluster_synced L hosts w' \<and> rejoin_ok E hosts w' \<and>
    same_contents (cluster_abs L hosts w') (fold spec_step (map snd reqs) (cluster_abs L hosts w))"
proof -
  note run = cluster_run_synced [OF assms(1-3) assms(4-8), unfolded Let_def]
  from reboot_all_cluster [OF assms(1) subset_refl] run show ?thesis by metis
qed

definition boot_env :: env where
  "boot_env = sample_env\<lparr>js_read_cluster := (\<lambda>data.
     if data = ''1'' then Some \<lparr>uc_hosts = sample_hosts, uc_index = 1\<rparr>
     else if data = ''2'' then Some \<lparr>uc_hosts = sample_hosts, uc_index = 2\<rparr> else None)\<rparr>"

definition boot_world :: "sample_storage world" where
  "boot_world = sample_world\<lparr>w_file := [''n1'' \<mapsto> ''1'', ''n2'' \<mapsto> ''2'']\<rparr>"

lemma boot_env_ok: "env_ok boot_env"
  using sample_env_ok by (simp add: env_ok_def boot_env_def)

lemma boot_world_facts:
  "cluster_ok ref_libs sample_hosts boot_world" "net_ok boot_world" "rejoin_ok boot_env sample_hosts boot_world"
  "cluster_synced ref_libs sample_hosts boot_world" "cluster_abs ref_libs sample_hosts boot_world = spec_empty"
proof -
  show "cluster_ok ref_libs sample_hosts boot_world" "net_ok boot_world"
    using sample_world_ok by (simp_all add: cluster_ok_def net_ok_def boot_world_def)
  show "cluster_abs ref_libs sample_hosts boot_world = spec_empty"
    using sample_world_abs by (simp add: cluster_abs_def boot_world_def)
  have "env_parse_addr boot_env (p @ peer_port) = Some p" for p
    using sample_parse [of p] by (simp add: boot_env_def)
  moreover have "i < 2 \<Longrightarrow> i = 0 \<or> i = 1" for i :: nat by auto
  ultimately show "rejoin_ok boot_env sample_hosts boot_world"
    by (auto simp: rejoin_ok_def boot_env_def boot_world_def sample_hosts_def sample_world_def less_Suc_eq
        count_list_replicate_same)
  have "same_data (new_storage ref_libs [] []) (sample_node i)" for i
    unfolding sample_node_def by (rule same_data_update_peers)
  then have "disk_synced ref_libs (sample_node i)" for i
    using same_data_facts(5) sample_synced by blast
  then show "cluster_synced ref_libs sample_hosts boot_world"
    by (simp add: cluster_synced_def boot_world_def sample_world_def)
qed

theorem cluster_restart_witness:
  "\<exists>w'. reboot_all ref_libs boot_env [0, 1] sample_hosts (fold (cluster_step ref_libs boot_env sample_hosts)
      [(0, Add ''a'' ''1''), (1, Zadd ''z'' (Score_Value 7 ''m''))] boot_world) = (w', Inr ()) \<and>
    sp_kv (cluster_abs ref_libs sample_hosts w') ''a'' = Some ''1'' \<and>
    sp_score (cluster_abs ref_libs sample_hosts w') ''z'' ''m'' = Some 7"
proof -
  have "spec_durable_run (cluster_abs ref_libs sample_hosts boot_world)
      (map snd [(0, Add ''a'' ''1''), (1, Zadd ''z'' (Score_Value 7 ''m''))])"
    by (simp add: boot_world_facts sp_score_def spec_empty_def key_clean_def as_bytes_def)
  from cluster_restart [OF ref_libs_ok ref_libs_reliable boot_env_ok boot_world_facts(1,2,4,3) this, of "[0, 1]"]
  show ?thesis
    by (auto simp: boot_world_facts same_contents_def spec_empty_def sp_score_def zs_put_def)
qed

end
