(* ===== verification/Lossy_Bulk.thy ===== *)
theory Lossy_Bulk
  imports Cluster_Bulk Sample_Cluster
begin

text \<open>
  Batches and lists over a network that loses calls. Every node's share of a batch is executed
  as a whole or not at all, and the answer is 200 either way; the answer to a list leaves out
  the keys of the nodes that could not be asked.
\<close>

section \<open>A call with any fate\<close>

lemma call_peer_any:
  assumes c: "cluster_ok L hosts w" and i: "i < length hosts" and j: "j < length hosts" and ij: "i \<noteq> j"
  shows "\<exists>w1. cluster_ok L hosts w1 \<and> cluster_abs L hosts w1 = cluster_abs L hosts w \<and>
    w_node w1 (hosts ! j) = w_node w (hosts ! j) \<and> w_fate w1 = w_fate w \<and> w_calls w1 = Suc (w_calls w) \<and>
    st_me (w_node w1 (hosts ! i)) = st_me (w_node w (hosts ! i)) \<and>
    call_peer (hosts ! i) j f w =
      (if w_fate w (w_calls w) = Lost_request then (w1, Inr (Inl ()))
       else (set_node (hosts ! j) (fst (f (w_node w (hosts ! j)))) w1,
             Inr (if w_fate w (w_calls w) = Lost_reply then Inl ()
                  else (case snd (f (w_node w (hosts ! j))) of Inl _ \<Rightarrow> Inl () | Inr r \<Rightarrow> Inr r))))"
proof -
  let ?w0 = "set_node (hosts ! i) (advance_pool j (w_node w (hosts ! i))) w"
  let ?w1 = "?w0\<lparr>w_calls := Suc (w_calls ?w0)\<rparr>"
  have ne: "hosts ! i \<noteq> hosts ! j"
    using cluster_okD(2) [OF c] i j ij by (simp add: nth_eq_iff_index_eq)
  have "pool_ok hosts (w_node w (hosts ! i))" using cluster_okD(5) [OF c i] by (simp add: node_ok_def)
  note call = call_peer_ok [OF this j, of f]
  have "cluster_ok L hosts ?w0" "cluster_abs L hosts ?w0 = cluster_abs L hosts w"
    by (rule cluster_advance [OF c i j]; simp)+
  then have "cluster_ok L hosts ?w1" "cluster_abs L hosts ?w1 = cluster_abs L hosts w"
    by (simp_all add: cluster_ok_def cluster_abs_def)
  moreover have "st_me (w_node ?w1 (hosts ! i)) = st_me (w_node w (hosts ! i))" by (simp add: advance_pool_def)
  moreover have "w_fate ?w1 = w_fate w" "w_calls ?w1 = Suc (w_calls w)" "w_node ?w1 (hosts ! j) = w_node w (hosts ! j)"
    using ne by (simp_all add: set_node_def)
  ultimately show ?thesis
    unfolding call using ne
    by (intro exI [of _ ?w1]) (cases "w_fate w (w_calls w)"; simp add: rpc_call_def Let_def)
qed


section \<open>A batch\<close>

lemma lossy_batch_step:
  assumes L: "libs_ok L" and c: "cluster_ok L hosts w"
    and i: "i < length hosts" and j: "j < length hosts" and ij: "i \<noteq> j" and own: "owned_by hosts j kvs"
  defines "w' \<equiv> fst (batch_insert_kv_remote L (hosts ! i) kvs j w)"
    and "done_kvs \<equiv> (if w_fate w (w_calls w) = Lost_request then [] else kvs)"
  shows "cluster_ok L hosts w' \<and> w_fate w' = w_fate w \<and>
    sp_kv (cluster_abs L hosts w') = sp_kv (cluster_abs L hosts w) ++ batch_map done_kvs \<and>
    sp_zs (cluster_abs L hosts w') =
      (\<lambda>k. if k \<in> keys_of done_kvs then None else sp_zs (cluster_abs L hosts w) k)"
proof -
  let ?s = "w_node w (hosts ! j)" and ?lost = "w_fate w (w_calls w) = Lost_request"
  from call_peer_any [OF c i j ij, of "rpc_batch L kvs"] obtain w1 where
    c1: "cluster_ok L hosts w1" and abs1: "cluster_abs L hosts w1 = cluster_abs L hosts w"
    and at: "w_node w1 (hosts ! j) = ?s" and fate: "w_fate w1 = w_fate w"
    and call: "fst (call_peer (hosts ! i) j (rpc_batch L kvs) w) =
      (if ?lost then w1 else set_node (hosts ! j) (fst (rpc_batch L kvs ?s)) w1)"
    by (auto split: if_splits)
  have w': "w' = (if ?lost then w1 else set_node (hosts ! j) (fst (rpc_batch L kvs ?s)) w1)"
    using call by (simp add: w'_def batch_insert_kv_remote_def)
  show ?thesis
  proof (cases ?lost)
    case True
    then show ?thesis using c1 abs1 fate by (simp add: w' done_kvs_def keys_of_def)
  next
    case False
    have ok: "storage_ok L ?s" using cluster_okD(5) [OF c j] by (simp add: node_ok_def)
    let ?w2 = "set_node (hosts ! j) (fst (rpc_batch L kvs ?s)) w1"
    have "cluster_ok L hosts ?w2"
      "sp_kv (cluster_abs L hosts ?w2) = sp_kv (cluster_abs L hosts w1) ++ batch_map kvs"
      "sp_zs (cluster_abs L hosts ?w2) =
        (\<lambda>k. if True \<and> k \<in> keys_of kvs then None else sp_zs (cluster_abs L hosts w1) k)"
      by (rule cluster_group [OF c1 j own, where drops = True and s' = "fst (rpc_batch L kvs ?s)"];
          simp add: at same_node_rpc_batch storage_ok_rpc_batch [OF L ok] kv_of_rpc_batch [OF L ok]
            zs_of_rpc_batch [OF L] batch_map_def keys_of_def cong: if_cong)+
    with False abs1 fate show ?thesis by (simp add: w' done_kvs_def cong: if_cong)
  qed
qed

text \<open>The shards whose call was lost, as a set; the others got their group.\<close>

definition kept :: "u32 set \<Rightarrow> (u32 \<Rightarrow> insrt_request list option) \<Rightarrow> u32 list \<Rightarrow> insrt_request list" where
  "kept lost plan shs = concat (map (\<lambda>sh. if sh \<in> lost then [] else the (plan sh)) shs)"

lemma kept_Cons:
  "kept lost plan (sh # shs) = (if sh \<in> lost then [] else the (plan sh)) @ kept lost plan shs"
  by (simp add: kept_def)

lemma kept_insert: "sh \<notin> set shs \<Longrightarrow> kept (insert sh lost) plan shs = kept lost plan shs"
  unfolding kept_def by (intro arg_cong [of _ _ concat]) auto

lemma keys_of_append: "keys_of (kvs @ kvs') = keys_of kvs \<union> keys_of kvs'"
  by (auto simp: keys_of_def)

lemma batch_map_kept:
  assumes "\<forall>sh \<in> set shs. owned_by hosts (unat sh) (the (plan sh))"
  shows "batch_map (kept lost plan shs) k =
    (if owner_index hosts k \<in> unat ` lost then None else batch_map (kept {} plan shs) k)"
  using assms
proof (induction shs)
  case Nil
  then show ?case by (simp add: kept_def)
next
  case (Cons a shs)
  then have other: "batch_map (the (plan a)) k = None" if "owner_index hosts k \<noteq> unat a"
    using that by (auto simp: batch_map_None owned_by_def keys_of_def)
  have "batch_map (the (plan a)) k = None" if "(owner_index hosts k \<in> unat ` lost) \<noteq> (a \<in> lost)"
    using that by (intro other) (auto simp: word_unat_eq_iff [symmetric])
  with Cons show ?case
    by (cases "a \<in> lost"; cases "owner_index hosts k \<in> unat ` lost")
      (simp_all add: kept_Cons batch_map_append map_add_def split: option.split)
qed

lemma batch_remotes_lossy:
  assumes L: "libs_ok L" and i: "i < length hosts"
  shows "\<lbrakk>cluster_ok L hosts w; distinct shs;
      \<forall>sh \<in> set shs. unat sh < length hosts \<and> unat sh \<noteq> i \<and>
        plan sh \<noteq> None \<and> owned_by hosts (unat sh) (the (plan sh))\<rbrakk> \<Longrightarrow>
    \<exists>lost \<subseteq> set shs. (let w' = batch_remotes L (hosts ! i) plan shs w in
     cluster_ok L hosts w' \<and> w_fate w' = w_fate w \<and>
     sp_kv (cluster_abs L hosts w') = sp_kv (cluster_abs L hosts w) ++ batch_map (kept lost plan shs) \<and>
     sp_zs (cluster_abs L hosts w') =
       (\<lambda>k. if k \<in> keys_of (kept lost plan shs) then None else sp_zs (cluster_abs L hosts w) k)) \<and>
     ((\<forall>n. w_fate w n \<noteq> Lost_request) \<longrightarrow> lost = {}) \<and>
     ((\<forall>n. w_fate w n = Lost_request) \<longrightarrow> lost = set shs)"
proof (induction shs arbitrary: w)
  case Nil
  then show ?case by (simp add: kept_def keys_of_def)
next
  case (Cons sh shs)
  from Cons.prems(3) obtain kvs where plan: "plan sh = Some kvs" and own: "owned_by hosts (unat sh) kvs"
    and sh: "unat sh < length hosts" "i \<noteq> unat sh"
    by auto
  have "sh \<noteq> st_me (w_node w (hosts ! i))" using not_me [OF Cons.prems(1) i] sh(2) by metis
  with plan have unfold: "batch_remotes L (hosts ! i) plan (sh # shs) w =
      batch_remotes L (hosts ! i) plan shs (fst (batch_insert_kv_remote L (hosts ! i) kvs (unat sh) w))"
    by simp
  let ?w1 = "fst (batch_insert_kv_remote L (hosts ! i) kvs (unat sh) w)"
  let ?lost = "w_fate w (w_calls w) = Lost_request"
  note step = lossy_batch_step [OF L Cons.prems(1) i sh own]
  from step Cons.IH [of ?w1] Cons.prems obtain lost where lost: "lost \<subseteq> set shs"
    and w2: "cluster_ok L hosts (batch_remotes L (hosts ! i) plan shs ?w1)"
      "w_fate (batch_remotes L (hosts ! i) plan shs ?w1) = w_fate w"
      "sp_kv (cluster_abs L hosts (batch_remotes L (hosts ! i) plan shs ?w1)) =
        sp_kv (cluster_abs L hosts ?w1) ++ batch_map (kept lost plan shs)"
      "sp_zs (cluster_abs L hosts (batch_remotes L (hosts ! i) plan shs ?w1)) =
        (\<lambda>k. if k \<in> keys_of (kept lost plan shs) then None else sp_zs (cluster_abs L hosts ?w1) k)"
    and all: "(\<forall>n. w_fate w n \<noteq> Lost_request) \<longrightarrow> lost = {}" "(\<forall>n. w_fate w n = Lost_request) \<longrightarrow> lost = set shs"
    by (auto simp: Let_def)
  define lost' where "lost' = (if ?lost then insert sh lost else lost)"
  define w2' where "w2' = batch_remotes L (hosts ! i) plan shs ?w1"
  have fresh: "sh \<notin> lost" "sh \<notin> set shs" using lost Cons.prems(2) by auto
  then have kept: "kept lost' plan (sh # shs) = (if ?lost then [] else kvs) @ kept lost plan shs"
    by (simp add: lost'_def kept_Cons kept_insert plan)
  have "lost' \<subseteq> set (sh # shs)" using lost by (auto simp: lost'_def)
  moreover have "(\<forall>n. w_fate w n \<noteq> Lost_request) \<longrightarrow> lost' = {}"
      "(\<forall>n. w_fate w n = Lost_request) \<longrightarrow> lost' = set (sh # shs)"
    using all by (auto simp: lost'_def)
  moreover have "sp_kv (cluster_abs L hosts w2') =
      sp_kv (cluster_abs L hosts w) ++ batch_map (kept lost' plan (sh # shs))"
    using step w2(3) by (simp add: w2'_def kept batch_map_append)
  moreover have "sp_zs (cluster_abs L hosts w2') =
      (\<lambda>k. if k \<in> keys_of (kept lost' plan (sh # shs)) then None else sp_zs (cluster_abs L hosts w) k)"
    using step w2(4) by (simp add: w2'_def kept keys_of_append fun_eq_iff)
  ultimately show ?case
    using w2(1,2) unfolding unfold w2'_def Let_def by blast
qed

lemma finite_groups: "finite (dom ((group_batch n kvs)(me := None)))"
proof -
  have "dom (group_batch n kvs) \<subseteq> (\<lambda>r. shard_u32 (Hash_str (ir_key r)) n) ` set kvs"
    by (auto simp: group_batch_at Let_def filter_empty_conv split: if_splits)
  then show ?thesis by (auto intro: finite_subset)
qed

lemma handle_batch_lossy:
  assumes L: "libs_ok L" and E: "env_ok E" and c: "cluster_ok L hosts w" and i: "i < length hosts"
  shows "\<exists>w' lost. handle_batch L E (hosts ! i) (Inr (js_write_insrts E kvs)) w = (w', Inr (ok_response '''')) \<and>
    cluster_ok L hosts w' \<and> i \<notin> lost \<and>
    (\<forall>k. sp_kv (cluster_abs L hosts w') k = (if owner_index hosts k \<in> lost then sp_kv (cluster_abs L hosts w) k
      else (sp_kv (cluster_abs L hosts w) ++ batch_map kvs) k)) \<and>
    (\<forall>k. sp_zs (cluster_abs L hosts w') k =
      (if k \<in> keys_of kvs \<and> owner_index hosts k \<noteq> i \<and> owner_index hosts k \<notin> lost then None
       else sp_zs (cluster_abs L hosts w) k)) \<and>
    ((\<forall>n. w_fate w n \<noteq> Lost_request) \<longrightarrow> lost = {}) \<and>
    ((\<forall>n. w_fate w n = Lost_request) \<longrightarrow> (\<forall>k \<in> keys_of kvs. owner_index hosts k \<noteq> i \<longrightarrow> owner_index hosts k \<in> lost))"
proof -
  let ?s = "w_node w (hosts ! i)"
  define others where "others = (group_batch (st_count ?s) kvs)(st_me ?s := None)"
  define shs where "shs = lib_shards L (dom others)"
  define my where "my = filter (\<lambda>r. owner_index hosts (ir_key r) = i) kvs"
  define w1 where "w1 = batch_remotes L (hosts ! i) others shs w"
  define s2 where "s2 = fst (batch_insert_kv L my (w_node w1 (hosts ! i)))"
  let ?w2 = "set_node (hosts ! i) s2 w1"
  note g = batch_groups [OF L c i, where kvs = kvs, folded others_def, folded shs_def, folded my_def]
  have "distinct shs"
    using iteration_distinct [OF libs_okD(6) [OF L] finite_groups] by (simp add: shs_def others_def)
  from batch_remotes_lossy [OF L i c this g(2)] obtain lost where lost: "lost \<subseteq> set shs"
    and w1: "cluster_ok L hosts w1"
      "sp_kv (cluster_abs L hosts w1) = sp_kv (cluster_abs L hosts w) ++ batch_map (kept lost others shs)"
      "sp_zs (cluster_abs L hosts w1) =
        (\<lambda>k. if k \<in> keys_of (kept lost others shs) then None else sp_zs (cluster_abs L hosts w) k)"
    and all: "(\<forall>n. w_fate w n \<noteq> Lost_request) \<longrightarrow> lost = {}" "(\<forall>n. w_fate w n = Lost_request) \<longrightarrow> lost = set shs"
    by (auto simp: Let_def w1_def)
  have kept: "batch_map (kept lost others shs) k = (if owner_index hosts k \<in> unat ` lost \<or> owner_index hosts k = i
      then None else batch_map kvs k)" for k
    using batch_map_kept [of shs hosts others lost k] g(2) g(3) [of k] by (simp add: kept_def)
  have keys: "k \<in> keys_of (kept lost others shs) \<longleftrightarrow>
      k \<in> keys_of kvs \<and> owner_index hosts k \<noteq> i \<and> owner_index hosts k \<notin> unat ` lost" for k
    using kept [of k] batch_map_None [of "kept lost others shs" k] batch_map_None [of kvs k]
    by (auto split: if_splits)
  have reach: "owner_index hosts k \<in> unat ` set shs" if "k \<in> keys_of kvs" "owner_index hosts k \<noteq> i" for k
  proof -
    have "batch_map (kept {} others shs) k \<noteq> None"
      using g(3) [of k] that by (simp add: kept_def batch_map_None)
    then have "k \<in> keys_of (kept {} others shs)" by (simp add: batch_map_None)
    then show ?thesis using g(2) by (auto simp: kept_def keys_of_def owned_by_def)
  qed
  have not_i: "i \<notin> unat ` lost" using lost g(2) by auto
  have own: "owned_by hosts i my" by (simp add: owned_by_def my_def)
  have ok1: "storage_ok L (w_node w1 (hosts ! i))" using cluster_okD(5) [OF w1(1) i] by (simp add: node_ok_def)
  have w2: "cluster_ok L hosts ?w2"
      "sp_kv (cluster_abs L hosts ?w2) = sp_kv (cluster_abs L hosts w1) ++ batch_map my"
      "sp_zs (cluster_abs L hosts ?w2) =
        (\<lambda>k. if False \<and> k \<in> keys_of my then None else sp_zs (cluster_abs L hosts w1) k)"
    by (rule cluster_group [OF w1(1) i own, where drops = False and s' = s2];
        simp add: s2_def same_node_batch storage_ok_batch ok1 kv_of_batch [OF L] zs_of_batch
          batch_map_def)+
  have "handle_batch L E (hosts ! i) (Inr (js_write_insrts E kvs)) w = (?w2, Inr (ok_response ''''))"
    using g(1)
    by (simp add: handle_batch_def read_json_def env_okD [OF E] Let_def split_beta
        batch_insert_kv_eq(1) [of L my] others_def [symmetric] shs_def [symmetric]
        w1_def [symmetric] s2_def del: dom_fun_upd)
  moreover have "sp_kv (cluster_abs L hosts ?w2) k = (if owner_index hosts k \<in> unat ` lost
      then sp_kv (cluster_abs L hosts w) k else (sp_kv (cluster_abs L hosts w) ++ batch_map kvs) k)" for k
    using not_i by (auto simp add: w1 w2 map_add_def kept my_def
        batch_map_filter_keys [of "\<lambda>k. owner_index hosts k = i"] split: option.split)
  moreover have "sp_zs (cluster_abs L hosts ?w2) k =
      (if k \<in> keys_of kvs \<and> owner_index hosts k \<noteq> i \<and> owner_index hosts k \<notin> unat ` lost then None
       else sp_zs (cluster_abs L hosts w) k)" for k
    by (simp add: w1 w2 keys)
  ultimately show ?thesis
    using w2(1) not_i all reach by (intro exI [of _ ?w2] exI [of _ "unat ` lost"]) simp
qed

section \<open>A list\<close>

lemma set_node_same: "w_node w h = s \<Longrightarrow> set_node h s w = w"
  by (auto simp: set_node_def)

lemma list_call_any:
  assumes c: "cluster_ok L hosts w" and i: "i < length hosts" and j: "j < length hosts" and ij: "i \<noteq> j"
  shows "\<exists>w1. cluster_ok L hosts w1 \<and> cluster_abs L hosts w1 = cluster_abs L hosts w \<and> w_fate w1 = w_fate w \<and>
    list_keys_remote L (hosts ! i) ks j w =
      (w1, Inr (if w_fate w (w_calls w) = Delivered then Inr (answer_of (kv_of L (w_node w (hosts ! j))) ks) else Inl ()))"
proof -
  let ?s = "w_node w (hosts ! j)"
  from call_peer_any [OF c i j ij, of "rpc_list L ks"] obtain w1 where
    w1: "cluster_ok L hosts w1" "cluster_abs L hosts w1 = cluster_abs L hosts w" "w_fate w1 = w_fate w"
    and same: "w_node w1 (hosts ! j) = ?s"
    and call: "call_peer (hosts ! i) j (rpc_list L ks) w =
      (if w_fate w (w_calls w) = Lost_request then (w1, Inr (Inl ()))
       else (set_node (hosts ! j) ?s w1,
             Inr (if w_fate w (w_calls w) = Lost_reply then Inl () else Inr (answer_of (kv_of L ?s) ks))))"
    by (auto simp: answer_of_rpc_list)
  have "list_keys_remote L (hosts ! i) ks j w =
      (w1, Inr (if w_fate w (w_calls w) = Delivered then Inr (answer_of (kv_of L ?s) ks) else Inl ()))"
    by (cases "w_fate w (w_calls w)") (simp_all add: list_keys_remote_def call set_node_same [OF same])
  with w1 show ?thesis by blast
qed

definition asked :: "('kv, 'vs, 'zm, 'db) libs \<Rightarrow> u32 set \<Rightarrow> (u32 \<Rightarrow> string set option) \<Rightarrow> u32 list \<Rightarrow> string list" where
  "asked L lost plan shs = concat (map (\<lambda>sh. if sh \<in> lost then [] else lib_iter L (the (plan sh))) shs)"

lemma asked_Cons:
  "asked L lost plan (sh # shs) = (if sh \<in> lost then [] else lib_iter L (the (plan sh))) @ asked L lost plan shs"
  by (simp add: asked_def)

lemma asked_insert: "sh \<notin> set shs \<Longrightarrow> asked L (insert sh lost) plan shs = asked L lost plan shs"
  unfolding asked_def by (intro arg_cong [of _ _ concat]) auto

lemma list_remotes_lossy:
  assumes L: "libs_ok L" and i: "i < length hosts"
  shows "\<lbrakk>cluster_ok L hosts w; distinct shs;
      \<forall>sh \<in> set shs. unat sh < length hosts \<and> unat sh \<noteq> i \<and> plan sh \<noteq> None \<and>
        finite (the (plan sh)) \<and> (\<forall>k \<in> the (plan sh). owner_index hosts k = unat sh)\<rbrakk> \<Longrightarrow>
    \<exists>w' lost. list_remotes L (hosts ! i) plan shs w =
        (w', answer_of (sp_kv (cluster_abs L hosts w)) (asked L lost plan shs)) \<and> lost \<subseteq> set shs \<and>
      cluster_ok L hosts w' \<and> w_fate w' = w_fate w \<and> cluster_abs L hosts w' = cluster_abs L hosts w \<and>
      ((\<forall>n. w_fate w n = Delivered) \<longrightarrow> lost = {}) \<and> ((\<forall>n. w_fate w n \<noteq> Delivered) \<longrightarrow> lost = set shs)"
proof (induction shs arbitrary: w)
  case Nil
  then show ?case by (simp add: answer_of_def asked_def)
next
  case (Cons sh shs)
  from Cons.prems(3) obtain ks where plan: "plan sh = Some ks" and own: "\<And>k. k \<in> ks \<Longrightarrow> owner_index hosts k = unat sh"
    and fin: "finite ks" and sh: "unat sh < length hosts" "i \<noteq> unat sh"
    by auto
  let ?m = "sp_kv (cluster_abs L hosts w)" and ?ok = "w_fate w (w_calls w) = Delivered"
  have "set (lib_iter L ks) = ks" using iteration_set [OF libs_okD(5) [OF L] fin] .
  then have answer: "answer_of (kv_of L (w_node w (hosts ! unat sh))) (lib_iter L ks) = answer_of ?m (lib_iter L ks)"
    by (intro answer_of_cong) (use own in \<open>auto intro: owner_kv\<close>)
  from list_call_any [OF Cons.prems(1) i sh, of "lib_iter L ks"] obtain w1 where
    w1: "cluster_ok L hosts w1" "cluster_abs L hosts w1 = cluster_abs L hosts w" "w_fate w1 = w_fate w"
    and call: "list_keys_remote L (hosts ! i) (lib_iter L ks) (unat sh) w =
      (w1, Inr (if ?ok then Inr (answer_of ?m (lib_iter L ks)) else Inl ()))"
    unfolding answer by blast
  from Cons.IH [OF w1(1)] Cons.prems(2,3) obtain w2 lost where
    rest: "list_remotes L (hosts ! i) plan shs w1 = (w2, answer_of ?m (asked L lost plan shs))"
    and lost: "lost \<subseteq> set shs" and w2: "cluster_ok L hosts w2" "w_fate w2 = w_fate w"
      "cluster_abs L hosts w2 = cluster_abs L hosts w"
    and all: "(\<forall>n. w_fate w n = Delivered) \<longrightarrow> lost = {}" "(\<forall>n. w_fate w n \<noteq> Delivered) \<longrightarrow> lost = set shs"
    by (auto simp: w1(2,3))
  let ?lost = "if ?ok then lost else insert sh lost"
  have fresh: "sh \<notin> set shs" "sh \<notin> lost" using Cons.prems(2) lost by auto
  then have keys: "asked L ?lost plan (sh # shs) = (if ?ok then lib_iter L ks else []) @ asked L lost plan shs"
    by (simp add: asked_Cons asked_insert plan)
  have "sh \<noteq> st_me (w_node w (hosts ! i))" using not_me [OF Cons.prems(1) i] sh(2) by metis
  then have "list_remotes L (hosts ! i) plan (sh # shs) w =
      (w2, answer_of ?m (asked L ?lost plan (sh # shs)))"
    unfolding keys by (simp add: plan call rest answer_of_append) (simp add: answer_of_def)
  moreover have "?lost \<subseteq> set (sh # shs)" using lost by auto
  moreover have "((\<forall>n. w_fate w n = Delivered) \<longrightarrow> ?lost = {}) \<and>
      ((\<forall>n. w_fate w n \<noteq> Delivered) \<longrightarrow> ?lost = set (sh # shs))" using all by simp
  ultimately show ?case using w2 by blast
qed

lemma handle_list_lossy:
  assumes L: "libs_ok L" and E: "env_ok E" and c: "cluster_ok L hosts w" and i: "i < length hosts"
  shows "\<exists>w' rs lost. handle_list L E (hosts ! i) (Inr (js_write_keys E keys)) w =
      (w', Inr (if rs = [] then empty_response NOT_FOUND else ok_response (js_write_insrts E rs))) \<and>
    cluster_ok L hosts w' \<and> w_fate w' = w_fate w \<and> cluster_abs L hosts w' = cluster_abs L hosts w \<and>
    i \<notin> lost \<and> distinct (map ir_key rs) \<and>
    set rs = {r. ir_key r \<in> set keys \<and> owner_index hosts (ir_key r) \<notin> lost \<and>
      sp_kv (cluster_abs L hosts w) (ir_key r) = Some (ir_value r)} \<and>
    ((\<forall>n. w_fate w n = Delivered) \<longrightarrow> lost = {}) \<and>
    ((\<forall>n. w_fate w n \<noteq> Delivered) \<longrightarrow> (\<forall>k \<in> set keys. owner_index hosts k \<noteq> i \<longrightarrow> owner_index hosts k \<in> lost))"
proof -
  let ?s = "w_node w (hosts ! i)" and ?m = "sp_kv (cluster_abs L hosts w)"
  define others where "others = (group_keys (st_count ?s) keys)(st_me ?s := None)"
  define shs where "shs = lib_shards L (dom others)"
  define my where "my = (case group_keys (st_count ?s) keys (st_me ?s) of None \<Rightarrow> {} | Some ks \<Rightarrow> ks)"
  define order where "order = lib_iter L my @ concat (map (\<lambda>sh. lib_iter L (the (others sh))) shs)"
  note g = list_groups [OF L c i, where keys = keys, folded others_def, folded shs_def my_def,
      folded order_def]
  have "dom others \<subseteq> (\<lambda>k. shard_u32 (Hash_str k) (st_count ?s)) ` set keys"
    by (auto simp: others_def group_keys_at Let_def split: if_splits)
  then have "finite (dom others)" by (rule finite_subset) simp
  then have shs: "distinct shs" using iteration_distinct [OF libs_okD(6) [OF L]] by (simp add: shs_def)
  from list_remotes_lossy [OF L i c shs g(2)] obtain w1 lost where
    remote: "list_remotes L (hosts ! i) others shs w = (w1, answer_of ?m (asked L lost others shs))"
    and lost: "lost \<subseteq> set shs"
    and w1: "cluster_ok L hosts w1" "w_fate w1 = w_fate w" "cluster_abs L hosts w1 = cluster_abs L hosts w"
    and all: "(\<forall>n. w_fate w n = Delivered) \<longrightarrow> lost = {}" "(\<forall>n. w_fate w n \<noteq> Delivered) \<longrightarrow> lost = set shs"
    by blast
  define got where "got = lib_iter L my @ asked L lost others shs"
  have iter_my: "set (lib_iter L my) = my" using iteration_set [OF libs_okD(5) [OF L], of my] g(1) by simp
  then have "answer_of (kv_of L (w_node w1 (hosts ! i))) (lib_iter L my) = answer_of ?m (lib_iter L my)"
    by (intro answer_of_cong) (use g(1) w1(3) owner_kv(1) [of hosts _ i L w1] in auto)
  then have "list_keys L (w_node w1 (hosts ! i)) my @ answer_of ?m (asked L lost others shs) = answer_of ?m got"
    by (simp add: answer_of_list_keys got_def answer_of_append)
  then have reply: "handle_list L E (hosts ! i) (Inr (js_write_keys E keys)) w =
      (w1, Inr (if answer_of ?m got = [] then empty_response NOT_FOUND
        else ok_response (js_write_insrts E (answer_of ?m got))))"
    using remote
    by (simp add: handle_list_def read_json_def env_okD [OF E] Let_def my_def [symmetric]
        others_def [symmetric] shs_def [symmetric] del: dom_fun_upd append_is_Nil_conv)
  have group: "set (lib_iter L (the (others sh))) = the (others sh)"
    "k \<in> the (others sh) \<Longrightarrow> owner_index hosts k = unat sh" if "sh \<in> set shs" for sh k
    using g(2) that iteration_set [OF libs_okD(5) [OF L], of "the (others sh)"] by auto
  have asked: "set (asked L lost others shs) = {k \<in> (\<Union>sh \<in> set shs. the (others sh)). owner_index hosts k \<notin> unat ` lost}"
  proof -
    have "set (asked L lost others shs) = (\<Union>sh \<in> set shs - lost. the (others sh))"
      using group(1) by (auto simp: asked_def split: if_splits)
    also have "\<dots> = {k \<in> (\<Union>sh \<in> set shs. the (others sh)). owner_index hosts k \<notin> unat ` lost}"
      using group(2) by (fastforce simp: image_iff word_unat_eq_iff [symmetric])
    finally show ?thesis .
  qed
  have not_i: "i \<notin> unat ` lost" using lost g(2) by auto
  have cover: "set keys = my \<union> (\<Union>sh \<in> set shs. the (others sh))"
    using g(3) group(1) iter_my by (auto simp: order_def)
  have set_got: "set got = {k \<in> set keys. owner_index hosts k \<notin> unat ` lost}"
    using not_i g(1) by (auto simp: got_def asked iter_my cover)
  have "distinct got"
  proof -
    have "distinct (asked L lost plan shs')" if "distinct (concat (map (\<lambda>sh. lib_iter L (the (plan sh))) shs'))" for plan shs'
      using that by (induction shs') (auto simp: asked_def split: if_splits)
    moreover have "set (asked L lost others shs) \<subseteq> set (concat (map (\<lambda>sh. lib_iter L (the (others sh))) shs))"
      by (auto simp: asked_def split: if_splits)
    ultimately show ?thesis using g(4) by (auto simp: order_def got_def)
  qed
  then have "distinct (map ir_key (answer_of ?m got))" by (simp only: keys_answer_of distinct_filter)
  moreover have "set (answer_of ?m got) = {r. ir_key r \<in> set keys \<and> owner_index hosts (ir_key r) \<notin> unat ` lost \<and>
      ?m (ir_key r) = Some (ir_value r)}"
    using set_answer_of set_got by blast
  moreover have "owner_index hosts k \<in> unat ` set shs" if "k \<in> set keys" "owner_index hosts k \<noteq> i" for k
    using that cover g(1) group(2) by blast
  ultimately show ?thesis
    using reply w1 not_i all
    by (intro exI [of _ w1] exI [of _ "answer_of ?m got"] exI [of _ "unat ` lost"]) simp
qed

end
