(* ===== verification/Crash.thy ===== *)
theory Crash
  imports Durability
begin

text \<open>
  What survives when the process is killed. All writes go to the databases without a write-ahead
  log (\<open>disable_wal\<close>); a thread of \<open>main\<close> flushes the two databases in turn, every 100
  milliseconds, and RocksDB may flush either of them by itself at any time. A killed process
  leaves what was last flushed: the values as they were at one point of the history, the sorted
  sets as they were at another, each at most three steps of the flushing thread old.
\<close>

section \<open>The flushing thread\<close>

datatype flusher_pc = Sleeping | Flush_Kv | Flush_Zset

record ('kv, 'vs, 'zm, 'db) running =
  rn_store :: "('kv, 'vs, 'zm, 'db) storage"
  rn_flusher :: flusher_pc
  rn_kv_disk :: 'db
  rn_zset_disk :: 'db

text \<open>The result of a flush is ignored; a flush that fails leaves the files as they were.\<close>

definition next_flush ::
    "bool \<Rightarrow> ('kv, 'vs, 'zm, 'db) running \<Rightarrow> ('kv, 'vs, 'zm, 'db) running" where
  "next_flush succeeds r =
     (case rn_flusher r of
        Sleeping \<Rightarrow> r\<lparr>rn_flusher := Flush_Kv\<rparr>
      | Flush_Kv \<Rightarrow>
          r\<lparr>rn_flusher := Flush_Zset,
            rn_kv_disk := (if succeeds then st_db (rn_store r) else rn_kv_disk r)\<rparr>
      | Flush_Zset \<Rightarrow>
          r\<lparr>rn_flusher := Sleeping,
            rn_zset_disk := (if succeeds then st_zset_db (rn_store r) else rn_zset_disk r)\<rparr>)"

datatype event = Serve cmd | Flusher bool | Background_Kv | Background_Zset

fun run_step ::
    "('kv, 'vs, 'zm, 'db) libs \<Rightarrow> event \<Rightarrow> ('kv, 'vs, 'zm, 'db) running \<Rightarrow>
     ('kv, 'vs, 'zm, 'db) running" where
  "run_step L (Serve c) r = r\<lparr>rn_store := server_step L c (rn_store r)\<rparr>"
| "run_step L (Flusher succeeds) r = next_flush succeeds r"
| "run_step L Background_Kv r = r\<lparr>rn_kv_disk := st_db (rn_store r)\<rparr>"
| "run_step L Background_Zset r = r\<lparr>rn_zset_disk := st_zset_db (rn_store r)\<rparr>"

definition run_start :: "('kv, 'vs, 'zm, 'db) libs \<Rightarrow> 'db \<Rightarrow> 'db \<Rightarrow> ('kv, 'vs, 'zm, 'db) running" where
  "run_start L db zset_db =
     \<lparr>rn_store = new_storage L db zset_db, rn_flusher = Sleeping, rn_kv_disk = db, rn_zset_disk = zset_db\<rparr>"

text \<open>The next process opens the files and loads them.\<close>

definition crash_restart ::
    "('kv, 'vs, 'zm, 'db) libs \<Rightarrow> ('kv, 'vs, 'zm, 'db) running \<Rightarrow>
     ('kv, 'vs, 'zm, 'db) storage \<times> unit result" where
  "crash_restart L r = load_from_disk L (new_storage L (rn_kv_disk r) (rn_zset_disk r))"

section \<open>The points of the history that are on disk\<close>

fun served :: "event list \<Rightarrow> cmd list" where
  "served [] = []"
| "served (Serve c # evs) = c # served evs"
| "served (_ # evs) = served evs"

lemma served_append [simp]: "served (evs @ evs') = served evs @ served evs'"
  by (induction evs rule: served.induct) simp_all

text \<open>How many commands were served, and how many of them each database had when last flushed.\<close>

record points =
  pt_flusher :: flusher_pc
  pt_served :: nat
  pt_kv :: nat
  pt_zset :: nat

fun point_step :: "event \<Rightarrow> points \<Rightarrow> points" where
  "point_step (Serve c) p = p\<lparr>pt_served := Suc (pt_served p)\<rparr>"
| "point_step (Flusher succeeds) p =
     (case pt_flusher p of
        Sleeping \<Rightarrow> p\<lparr>pt_flusher := Flush_Kv\<rparr>
      | Flush_Kv \<Rightarrow> p\<lparr>pt_flusher := Flush_Zset, pt_kv := (if succeeds then pt_served p else pt_kv p)\<rparr>
      | Flush_Zset \<Rightarrow> p\<lparr>pt_flusher := Sleeping, pt_zset := (if succeeds then pt_served p else pt_zset p)\<rparr>)"
| "point_step Background_Kv p = p\<lparr>pt_kv := pt_served p\<rparr>"
| "point_step Background_Zset p = p\<lparr>pt_zset := pt_served p\<rparr>"

definition flush_points :: "event list \<Rightarrow> points" where
  "flush_points evs = fold point_step evs \<lparr>pt_flusher = Sleeping, pt_served = 0, pt_kv = 0, pt_zset = 0\<rparr>"

lemma flush_points_snoc: "flush_points (evs @ [ev]) = point_step ev (flush_points evs)"
  by (simp add: flush_points_def)

lemma flush_points_order:
  "pt_served (flush_points evs) = length (served evs)"
  "pt_kv (flush_points evs) \<le> length (served evs)"
  "pt_zset (flush_points evs) \<le> length (served evs)"
proof (induction evs rule: rev_induct)
  case Nil
  { case 1 show ?case by (simp add: flush_points_def) }
  { case 2 show ?case by (simp add: flush_points_def) }
  { case 3 show ?case by (simp add: flush_points_def) }
next
  case (snoc ev evs)
  { case 1 with snoc show ?case by (cases ev) (auto simp: flush_points_snoc split: flusher_pc.split) }
  { case 2 with snoc show ?case by (cases ev) (auto simp: flush_points_snoc split: flusher_pc.split) }
  { case 3 with snoc show ?case by (cases ev) (auto simp: flush_points_snoc split: flusher_pc.split) }
qed

text \<open>The files hold what the databases held at those points.\<close>

abbreviation store_at ::
    "('kv, 'vs, 'zm, 'db) libs \<Rightarrow> 'db \<Rightarrow> 'db \<Rightarrow> cmd list \<Rightarrow> ('kv, 'vs, 'zm, 'db) storage" where
  "store_at L db zset_db cs \<equiv> fold (server_step L) cs (new_storage L db zset_db)"

lemma files_at_points:
  "rn_store (fold (run_step L) evs (run_start L db zset_db)) = store_at L db zset_db (served evs) \<and>
   rn_flusher (fold (run_step L) evs (run_start L db zset_db)) = pt_flusher (flush_points evs) \<and>
   rn_kv_disk (fold (run_step L) evs (run_start L db zset_db)) =
     st_db (store_at L db zset_db (take (pt_kv (flush_points evs)) (served evs))) \<and>
   rn_zset_disk (fold (run_step L) evs (run_start L db zset_db)) =
     st_zset_db (store_at L db zset_db (take (pt_zset (flush_points evs)) (served evs)))"
proof (induction evs rule: rev_induct)
  case Nil
  then show ?case by (simp add: run_start_def flush_points_def new_storage_def)
next
  case (snoc ev evs)
  note le = flush_points_order [of evs]
  show ?case
    using snoc le
    by (cases ev) (auto simp: flush_points_snoc next_flush_def simp del: server_step.simps split: flusher_pc.split)
qed

text \<open>Three successful steps of the flushing thread cover a flush of each database.\<close>

lemma flush_window:
  fixes before after :: "event list"
  assumes "Flusher False \<notin> set after"
  defines "p \<equiv> flush_points (before @ after)"
    and "n \<equiv> length (served before)"
    and "k \<equiv> count_list after (Flusher True)"
  shows "(3 \<le> k \<or> 2 \<le> k \<and> pt_flusher p = Sleeping \<or> 1 \<le> k \<and> pt_flusher p = Flush_Zset \<longrightarrow> n \<le> pt_kv p) \<and>
    (3 \<le> k \<or> 2 \<le> k \<and> pt_flusher p = Flush_Kv \<or> 1 \<le> k \<and> pt_flusher p = Sleeping \<longrightarrow> n \<le> pt_zset p)"
  using assms(1) unfolding p_def n_def k_def
proof (induction after rule: rev_induct)
  case Nil
  then show ?case by simp
next
  case (snoc ev after)
  have "length (served before) \<le> pt_served (flush_points (before @ after))"
    by (simp add: flush_points_order)
  with snoc show ?case
    by (cases ev) (auto simp: flush_points_snoc simp flip: append_assoc split: flusher_pc.splits)
qed

section \<open>Recovery\<close>


lemma crash_contents:
  fixes cs1 cs2 :: "cmd list"
  assumes L: "libs_ok L" "rocks_reliable (lib_db L)"
    and empty: "rdb_scan (lib_db L) db = []" "rdb_scan (lib_db L) zset_db = []"
    and kv: "rn_kv_disk r = st_db (store_at L db zset_db cs1)"
    and zset: "rn_zset_disk r = st_zset_db (store_at L db zset_db cs2)"
    and clean: "\<forall>k sv. Zadd k sv \<in> set cs1 \<union> set cs2 \<longrightarrow> key_clean k"
  shows "\<exists>s'. crash_restart L r = (s', Inr ()) \<and> storage_ok L s' \<and>
    kv_of L s' = sp_kv (fold spec_step cs1 spec_empty) \<and>
    (durable_run L (new_storage L db zset_db) cs2 \<longrightarrow>
      (\<forall>k v. score_of L s' k v = sp_score (fold spec_step cs2 spec_empty) k v))"
proof -
  let ?new = "new_storage L db zset_db"
  let ?m = "(store_at L db zset_db cs1)\<lparr>st_zset_db := st_zset_db (store_at L db zset_db cs2)\<rparr>"
  note new_ok = new_storage_ok [OF L(1), of db zset_db]
  note new_synced = new_storage_synced [OF L(1) empty]
  have abs: "storage_abs L (store_at L db zset_db cs) = fold spec_step cs spec_empty" for cs
    using server.run_refines [of L ?new cs] L(1) by (simp add: new_storage_ok new_storage_abs)
  have disk: "disk_wf L (store_at L db zset_db cs) \<and>
      disk_kv L (store_at L db zset_db cs) = sp_kv (fold spec_step cs spec_empty)"
    if "\<forall>k sv. Zadd k sv \<in> set cs \<longrightarrow> key_clean k" for cs
    using run_keeps_disk [OF L new_ok _ _ that] new_synced
    by (simp add: disk_synced_def flip: sp_storage_abs abs)
  have "crash_restart L r = restart L ?m"
    by (simp add: crash_restart_def restart_def kv zset)
  moreover have "disk_wf L ?m"
  proof -
    have "disk_wf L (store_at L db zset_db cs2)" using disk [of cs2] clean by blast
    then show ?thesis by (simp add: disk_wf_def)
  qed
  moreover have "disk_kv L ?m = sp_kv (fold spec_step cs1 spec_empty)"
  proof -
    have "disk_kv L (store_at L db zset_db cs1) = sp_kv (fold spec_step cs1 spec_empty)"
      using disk [of cs1] clean by blast
    then show ?thesis by (simp add: disk_kv_def fun_eq_iff)
  qed
  moreover have "disk_score L ?m k v = sp_score (fold spec_step cs2 spec_empty) k v"
    if "durable_run L ?new cs2" for k v
  proof -
    have "disk_score L ?m k v = disk_score L (store_at L db zset_db cs2) k v"
      by (simp add: disk_score_def)
    also have "\<dots> = score_of L (store_at L db zset_db cs2) k v"
      using disk_synced_run [OF L new_ok new_synced that] by (simp add: disk_synced_def)
    finally show ?thesis by (simp add: score_of_def abs)
  qed
  ultimately show ?thesis using restart_contents [OF L(1), of ?m] by auto
qed

section \<open>Property\<close>

text \<open>
  C6. Kill the process at any moment of any history whose sorted-set keys are free of zero bytes,
  with flushes of the thread and of RocksDB anywhere in it: the next process loads the databases
  without a panic, its values are exactly those after the commands served up to the last flush
  of the one database, and, where those commands are durable ones, its sorted sets are exactly
  those up to the last flush of the other. Whatever was served before the flushing thread's last
  three steps, none of which failed, is in both.
\<close>

theorem crash_recovery:
  assumes "libs_ok L" and "rocks_reliable (lib_db L)"
    and "rdb_scan (lib_db L) db = []" and "rdb_scan (lib_db L) zset_db = []"
    and "\<forall>k sv. Zadd k sv \<in> set (served evs) \<longrightarrow> key_clean k"
  shows "(\<exists>s'. crash_restart L (fold (run_step L) evs (run_start L db zset_db)) = (s', Inr ()) \<and>
      storage_ok L s' \<and>
      kv_of L s' = sp_kv (fold spec_step (take (pt_kv (flush_points evs)) (served evs)) spec_empty) \<and>
      (durable_run L (new_storage L db zset_db) (take (pt_zset (flush_points evs)) (served evs)) \<longrightarrow>
        (\<forall>k v. score_of L s' k v =
          sp_score (fold spec_step (take (pt_zset (flush_points evs)) (served evs)) spec_empty) k v))) \<and>
    (\<forall>before after. evs = before @ after \<longrightarrow> Flusher False \<notin> set after \<longrightarrow> 3 \<le> count_list after (Flusher True) \<longrightarrow>
      length (served before) \<le> pt_kv (flush_points evs) \<and>
      length (served before) \<le> pt_zset (flush_points evs))"
proof (intro conjI)
  note files = files_at_points [of L evs db zset_db]
  show "\<exists>s'. crash_restart L (fold (run_step L) evs (run_start L db zset_db)) = (s', Inr ()) \<and>
      storage_ok L s' \<and>
      kv_of L s' = sp_kv (fold spec_step (take (pt_kv (flush_points evs)) (served evs)) spec_empty) \<and>
      (durable_run L (new_storage L db zset_db) (take (pt_zset (flush_points evs)) (served evs)) \<longrightarrow>
        (\<forall>k v. score_of L s' k v =
          sp_score (fold spec_step (take (pt_zset (flush_points evs)) (served evs)) spec_empty) k v))"
    by (rule crash_contents [OF assms(1-4)]) (use files assms(5) in \<open>auto dest: in_set_takeD\<close>)
  show "\<forall>before after. evs = before @ after \<longrightarrow> Flusher False \<notin> set after \<longrightarrow> 3 \<le> count_list after (Flusher True) \<longrightarrow>
      length (served before) \<le> pt_kv (flush_points evs) \<and> length (served before) \<le> pt_zset (flush_points evs)"
    using flush_window by blast
qed

text \<open>A value flushed, a value acknowledged and lost, a member lost with it.\<close>

theorem crash_recovery_witness:
  "\<exists>s'. crash_restart ref_libs (fold (run_step ref_libs)
      [Serve (Add ''k'' ''v''), Flusher True, Serve (Zadd ''z'' (Score_Value 3 ''m'')), Flusher True, Serve (Add ''l'' ''w'')]
      (run_start ref_libs [] [])) = (s', Inr ()) \<and>
    kv_of ref_libs s' ''k'' = Some ''v'' \<and> kv_of ref_libs s' ''l'' = None \<and> score_of ref_libs s' ''z'' ''m'' = None"
proof -
  let ?evs = "[Serve (Add ''k'' ''v''), Flusher True, Serve (Zadd ''z'' (Score_Value 3 ''m'')), Flusher True,
    Serve (Add ''l'' ''w'')]"
  have "\<forall>k sv. Zadd k sv \<in> set (served ?evs) \<longrightarrow> key_clean k" by (simp add: key_clean_def as_bytes_def)
  moreover have "pt_kv (flush_points ?evs) = 2" "pt_zset (flush_points ?evs) = 0"
    by (simp_all add: flush_points_def)
  ultimately show ?thesis
    using crash_recovery [OF ref_libs_ok ref_libs_reliable ref_scan_empty ref_scan_empty, of ?evs]
    by (auto simp: spec_empty_def sp_score_def numeral_2_eq_2)
qed

end
