(* ===== verification/Listeners.thy ===== *)
theory Listeners
  imports Peer_Pool
begin

text \<open>
  The two accept loops that bound how many connections are served at once: \<open>cluster_server\<close> of
  \<open>cluster.rs\<close>, which serves the connections of the other nodes and is the same under every
  runtime, and \<open>serve_http\<close> of \<open>glommio_hyper.rs\<close>. What both promise is the locale
  \<open>bounded_service\<close>: connections are taken in the order in which they arrive, never more than
  the limit at once. The crates \<open>tarpc\<close> and \<open>futures\<close> and the semaphore of \<open>glommio\<close> are
  used as they are documented: \<open>buffer_unordered(n)\<close> takes the next item of its stream while fewer
  than \<open>n\<close> are running, and a permit goes to the task that has waited longest. A served connection
  runs until its peer closes it.
\<close>

section \<open>The contract\<close>

text \<open>A connection reaches the listener, is taken for service, ends, or accepting fails.\<close>

datatype 'c service_event = Arrive 'c | Admit | Finish nat | Accept_error

definition drop_nth :: "nat \<Rightarrow> 'a list \<Rightarrow> 'a list" where
  "drop_nth i xs = take i xs @ drop (Suc i) xs"

lemma length_drop_nth: "length (drop_nth i xs) = (if i < length xs then length xs - 1 else length xs)"
  by (simp add: drop_nth_def)

fun arrival :: "'c service_event \<Rightarrow> 'c list" where
  "arrival (Arrive c) = [c]"
| "arrival Admit = []"
| "arrival (Finish i) = []"
| "arrival Accept_error = []"

abbreviation arrivals :: "'c service_event list \<Rightarrow> 'c list" where
  "arrivals evs \<equiv> concat (map arrival evs)"

locale bounded_service =
  fixes limit :: nat and good :: "'c \<Rightarrow> bool" and ignores_errors :: bool
    and invar :: "'s \<Rightarrow> bool" and waiting :: "'s \<Rightarrow> 'c list" and active :: "'s \<Rightarrow> 'c list"
    and step :: "'c service_event \<Rightarrow> 's \<Rightarrow> 's"
  assumes active_bound: "invar s \<Longrightarrow> length (active s) \<le> limit"
    and invar_arrive: "\<lbrakk>invar s; good c\<rbrakk> \<Longrightarrow> invar (step (Arrive c) s)"
    and invar_admit: "invar s \<Longrightarrow> invar (step Admit s)"
    and invar_finish: "invar s \<Longrightarrow> invar (step (Finish i) s)"
    and arrive: "\<lbrakk>invar s; good c\<rbrakk> \<Longrightarrow>
      waiting (step (Arrive c) s) = waiting s @ [c] \<and> active (step (Arrive c) s) = active s"
    and admit: "\<lbrakk>invar s; waiting s = c # cs; length (active s) < limit\<rbrakk> \<Longrightarrow>
      waiting (step Admit s) = cs \<and> active (step Admit s) = active s @ [c]"
    and no_admit: "\<lbrakk>invar s; waiting s = [] \<or> length (active s) = limit\<rbrakk> \<Longrightarrow>
      waiting (step Admit s) = waiting s \<and> active (step Admit s) = active s"
    and finish: "invar s \<Longrightarrow>
      waiting (step (Finish i) s) = waiting s \<and> active (step (Finish i) s) = drop_nth i (active s)"
    and error: "ignores_errors \<Longrightarrow> step Accept_error s = s"
begin

text \<open>Events whose connections are good and whose failures the loop survives.\<close>

definition harmless :: "'c service_event \<Rightarrow> bool" where
  "harmless ev \<longleftrightarrow> (\<forall>c \<in> set (arrival ev). good c) \<and> (ev = Accept_error \<longrightarrow> ignores_errors)"

lemma invar_step: "\<lbrakk>invar s; harmless ev\<rbrakk> \<Longrightarrow> invar (step ev s)"
  by (cases ev) (simp_all add: harmless_def invar_arrive invar_admit invar_finish error)

lemma invar_run: "\<lbrakk>invar s; \<forall>ev \<in> set evs. harmless ev\<rbrakk> \<Longrightarrow> invar (fold step evs s)"
  by (induction evs arbitrary: s) (simp_all add: invar_step)

lemma bounded_run: "\<lbrakk>invar s; \<forall>ev \<in> set evs. harmless ev\<rbrakk> \<Longrightarrow> length (active (fold step evs s)) \<le> limit"
  by (rule active_bound [OF invar_run])

lemma admit_order: "invar s \<Longrightarrow> active (step Admit s) @ waiting (step Admit s) = active s @ waiting s"
proof (cases "waiting s")
  case (Cons c cs)
  assume inv: "invar s"
  show ?thesis
    using admit [OF inv Cons] no_admit [OF inv] active_bound [OF inv] Cons
    by (cases "length (active s) < limit") simp_all
qed (use no_admit in simp)

text \<open>While no connection ends, they are served in the order in which they arrived.\<close>

lemma order_run:
  "\<lbrakk>invar s; \<forall>ev \<in> set evs. harmless ev \<and> (\<forall>i. ev \<noteq> Finish i)\<rbrakk> \<Longrightarrow>
     active (fold step evs s) @ waiting (fold step evs s) = active s @ waiting s @ arrivals evs"
proof (induction evs arbitrary: s)
  case (Cons ev evs)
  then have h: "harmless ev" "\<forall>i. ev \<noteq> Finish i" by simp_all
  have "active (step ev s) @ waiting (step ev s) = active s @ waiting s @ arrival ev"
    using h Cons.prems(1) admit_order [OF Cons.prems(1)]
    by (cases ev) (simp_all add: harmless_def arrive error)
  moreover have "active (fold step evs (step ev s)) @ waiting (fold step evs (step ev s)) =
      active (step ev s) @ waiting (step ev s) @ arrivals evs"
    by (rule Cons.IH) (use Cons.prems invar_step h in simp_all)
  ultimately show ?case by (simp flip: append_assoc)
qed simp

text \<open>When nothing more can be taken, the first ones are served and the others wait.\<close>

lemma quiet_run:
  assumes "invar s" and "active s = []" "waiting s = []"
    and "\<forall>ev \<in> set evs. harmless ev \<and> (\<forall>i. ev \<noteq> Finish i)"
    and "waiting (step Admit (fold step evs s)) = waiting (fold step evs s)"
  shows "active (fold step evs s) = take limit (arrivals evs) \<and>
    waiting (fold step evs s) = drop limit (arrivals evs)"
proof -
  let ?s = "fold step evs s"
  have inv: "invar ?s" using assms by (intro invar_run) simp_all
  have order: "active ?s @ waiting ?s = arrivals evs" using order_run [OF assms(1,4)] assms(2,3) by simp
  have "waiting ?s = [] \<or> length (active ?s) = limit"
  proof (cases "waiting ?s")
    case (Cons c cs)
    from admit [OF inv this] assms(5) active_bound [OF inv] show ?thesis
      by (cases "length (active ?s) < limit") (auto simp: Cons)
  qed simp
  then show ?thesis using order active_bound [OF inv] by (auto simp flip: order)
qed

text \<open>A place that becomes free goes to the connection that has waited longest.\<close>

lemma next_in_line:
  assumes "invar s" and "waiting s = c # cs" and "i < length (active s)"
  shows "active (step Admit (step (Finish i) s)) = drop_nth i (active s) @ [c] \<and>
    waiting (step Admit (step (Finish i) s)) = cs"
proof -
  note f = finish [OF assms(1), of i] and inv = invar_finish [OF assms(1), of i]
  have "length (drop_nth i (active s)) < limit"
    using assms(3) active_bound [OF assms(1)] by (simp add: length_drop_nth)
  with admit [OF inv, of c cs] f assms(2) show ?thesis by simp
qed

end

section \<open>\<open>cluster_server\<close>\<close>

text \<open>
  A connection is the client end that made it, and the address its socket reports, which
  \<open>peer_addr().unwrap()\<close> needs: without it the task that serves all of them panics.
\<close>

definition max_channels :: nat where
  "max_channels = 1000"

record cluster_server =
  cs_backlog :: "(client \<times> string option) list"
  cs_channels :: "(client \<times> string option) list"
  cs_panicked :: bool

text \<open>
  Binding the port may fail; then the loop: the filter drops accept errors, every channel executes
  with a server of its own, \<open>buffer_unordered\<close> bounds them and \<open>for_each\<close> drops what is left of
  them at the end.
\<close>

definition cluster_server_bind :: "bool \<Rightarrow> cluster_server result" where
  "cluster_server_bind bound =
     (if bound then Inr \<lparr>cs_backlog = [], cs_channels = [], cs_panicked = False\<rparr> else Inl Unwrap_Failed)"

fun cluster_server_event :: "(client \<times> string option) service_event \<Rightarrow> cluster_server \<Rightarrow> cluster_server" where
  "cluster_server_event (Arrive c) s = s\<lparr>cs_backlog := cs_backlog s @ [c]\<rparr>"
| "cluster_server_event Admit s =
     (if cs_panicked s \<or> length (cs_channels s) \<ge> max_channels then s
      else case cs_backlog s of
             [] \<Rightarrow> s
           | c # cs \<Rightarrow>
               (case snd c of
                  None \<Rightarrow> s\<lparr>cs_backlog := [], cs_channels := [], cs_panicked := True\<rparr>
                | Some addr \<Rightarrow> s\<lparr>cs_backlog := cs, cs_channels := cs_channels s @ [c]\<rparr>))"
| "cluster_server_event (Finish i) s = s\<lparr>cs_channels := drop_nth i (cs_channels s)\<rparr>"
| "cluster_server_event Accept_error s = s"

definition cluster_server_ok :: "cluster_server \<Rightarrow> bool" where
  "cluster_server_ok s \<longleftrightarrow> \<not> cs_panicked s \<and> length (cs_channels s) \<le> max_channels \<and>
     (\<forall>c \<in> set (cs_backlog s). snd c \<noteq> None)"

interpretation cluster_service: bounded_service max_channels "\<lambda>c. snd c \<noteq> None" True cluster_server_ok
  cs_backlog cs_channels cluster_server_event
proof unfold_locales
  fix s i assume "cluster_server_ok s"
  then show "cluster_server_ok (cluster_server_event (Finish i) s)"
    using length_drop_nth [of i "cs_channels s"] by (auto simp: cluster_server_ok_def)
qed (auto simp: cluster_server_ok_def split: list.split option.split)

section \<open>\<open>serve_http\<close> of \<open>glommio_hyper.rs\<close>\<close>

text \<open>
  Each accepted connection gets a task that first waits for a permit of the semaphore; dropping
  the permit at its end gives it back. A connection is its number and whether \<open>local_addr\<close>
  succeeds on it, whose \<open>unwrap\<close> panics the executor; an accept error leaves the loop.
\<close>

datatype executor_state = Accepting | Left_Loop | Executor_Panicked

record glommio_server =
  gs_loop :: executor_state
  gs_waiting :: "(nat \<times> bool) list"
  gs_permits :: nat
  gs_serving :: "(nat \<times> bool) list"

definition glommio_server_new :: "nat \<Rightarrow> glommio_server" where
  "glommio_server_new max_connections =
     \<lparr>gs_loop = Accepting, gs_waiting = [], gs_permits = max_connections, gs_serving = []\<rparr>"

fun glommio_event :: "(nat \<times> bool) service_event \<Rightarrow> glommio_server \<Rightarrow> glommio_server" where
  "glommio_event (Arrive c) s =
     (if gs_loop s \<noteq> Accepting then s
      else if snd c then s\<lparr>gs_waiting := gs_waiting s @ [c]\<rparr>
      else s\<lparr>gs_loop := Executor_Panicked, gs_waiting := [], gs_serving := []\<rparr>)"
| "glommio_event Admit s =
     (case gs_waiting s of
        [] \<Rightarrow> s
      | c # cs \<Rightarrow>
          (if gs_permits s = 0 then s
           else s\<lparr>gs_waiting := cs, gs_permits := gs_permits s - 1, gs_serving := gs_serving s @ [c]\<rparr>))"
| "glommio_event (Finish i) s =
     (if i < length (gs_serving s)
      then s\<lparr>gs_serving := drop_nth i (gs_serving s), gs_permits := Suc (gs_permits s)\<rparr> else s)"
| "glommio_event Accept_error s =
     (if gs_loop s = Accepting then s\<lparr>gs_loop := Left_Loop, gs_waiting := [], gs_serving := []\<rparr> else s)"

definition glommio_ok :: "nat \<Rightarrow> glommio_server \<Rightarrow> bool" where
  "glommio_ok max_connections s \<longleftrightarrow>
     gs_loop s = Accepting \<and> gs_permits s + length (gs_serving s) = max_connections"

interpretation glommio_service: bounded_service max_connections snd False "glommio_ok max_connections"
  gs_waiting gs_serving glommio_event for max_connections
proof unfold_locales
  fix s i assume "glommio_ok max_connections s"
  then show "glommio_ok max_connections (glommio_event (Finish i) s)"
    using length_drop_nth [of i "gs_serving s"] by (auto simp: glommio_ok_def)
next
  fix s i assume "glommio_ok max_connections s"
  then show "gs_waiting (glommio_event (Finish i) s) = gs_waiting s \<and>
      gs_serving (glommio_event (Finish i) s) = drop_nth i (gs_serving s)"
    by (simp add: drop_nth_def)
qed (auto simp: glommio_ok_def split: list.split)

text \<open>
  \<open>poll_read\<close> of the stream it hands to hyper: what the socket read goes behind the filled part of
  the buffer. Writing, flushing and closing are passed on as they are.
\<close>

datatype 'a poll = Pending | Ready 'a

record read_buf =
  rb_filled :: bytes
  rb_unfilled :: nat

definition hyper_poll_read :: "('e + bytes) poll \<Rightarrow> read_buf \<Rightarrow> read_buf \<times> ('e + unit) poll" where
  "hyper_poll_read socket buf =
     (case socket of
        Pending \<Rightarrow> (buf, Pending)
      | Ready (Inr data) \<Rightarrow>
          (buf\<lparr>rb_filled := rb_filled buf @ data, rb_unfilled := rb_unfilled buf - length data\<rparr>, Ready (Inr ()))
      | Ready (Inl e) \<Rightarrow> (buf, Ready (Inr ())))"

text \<open>A failed read is reported as the end of the stream, which is a read of no bytes.\<close>

lemma read_error_is_end: "hyper_poll_read (Ready (Inl e)) buf = hyper_poll_read (Ready (Inr [])) buf"
  by (simp add: hyper_poll_read_def)

section \<open>Properties\<close>

text \<open>The connections that the pools of \<open>n\<close> nodes make to one of them.\<close>

definition pool_connections :: "string list \<Rightarrow> (client \<times> string option) list" where
  "pool_connections hosts = concat (map (\<lambda>h. map (\<lambda>i. ((h, i), Some h)) [0..<unat pool_capacity]) hosts)"

lemma length_pool_connections: "length (pool_connections hosts) = 16 * length hosts"
  by (induction hosts) (simp_all add: pool_connections_def pool_capacity_def)

text \<open>
  C33. A node serves at most a thousand connections of its peers at once, in the order in which
  they came, whatever accept errors occur; one that ends makes place for the one that waited
  longest. The pools of a cluster of \<open>n\<close> nodes, in whatever order their sixteen connections each
  arrive, are all served exactly if \<open>n\<close> is at most 62; beyond that, as they are never closed,
  \<open>16 * n - 1000\<close> of them are accepted and never answered.
\<close>

theorem peer_channels:
  assumes "cluster_server_bind True = Inr s0"
    and "mset (arrivals evs) = mset (pool_connections hosts)" and "\<forall>i. Finish i \<notin> set evs"
    and "s = fold cluster_server_event evs s0"
    and "cs_backlog (cluster_server_event Admit s) = cs_backlog s"
  shows "\<not> cs_panicked s \<and> cs_channels s = take max_channels (arrivals evs) \<and>
    (cs_backlog s = [] \<longleftrightarrow> length hosts \<le> 62) \<and> length (cs_backlog s) = 16 * length hosts - 1000 \<and>
    (\<forall>i c cs. i < length (cs_channels s) \<longrightarrow> cs_backlog s = c # cs \<longrightarrow>
       cs_channels (cluster_server_event Admit (cluster_server_event (Finish i) s)) = drop_nth i (cs_channels s) @ [c])"
proof -
  have s0: "cluster_server_ok s0" "cs_channels s0 = []" "cs_backlog s0 = []"
    using assms(1) by (auto simp: cluster_server_bind_def cluster_server_ok_def)
  have "set (arrivals evs) = set (pool_connections hosts)" using assms(2) by (rule mset_eq_setD)
  then have good: "snd c \<noteq> None" if "c \<in> set (arrivals evs)" for c
    using that by (auto simp: pool_connections_def)
  have evs: "\<forall>ev \<in> set evs. cluster_service.harmless ev \<and> (\<forall>i. ev \<noteq> Finish i)"
    using assms(3) good unfolding cluster_service.harmless_def by fastforce
  have len: "length (arrivals evs) = 16 * length hosts"
    using assms(2) length_pool_connections by (metis size_mset)
  have ok: "cluster_server_ok s"
    unfolding assms(4) by (rule cluster_service.invar_run [OF s0(1)]) (use evs in blast)
  have "cs_channels s = take max_channels (arrivals evs) \<and> cs_backlog s = drop max_channels (arrivals evs)"
    using cluster_service.quiet_run [OF s0(1,2,3) evs] assms(4,5) by simp
  moreover have "cs_channels (cluster_server_event Admit (cluster_server_event (Finish i) s)) =
      drop_nth i (cs_channels s) @ [c]"
    if "i < length (cs_channels s)" "cs_backlog s = c # cs" for i c cs
    using cluster_service.next_in_line [OF ok that(2,1)] by simp
  ultimately show ?thesis
    using len ok by (auto simp: max_channels_def cluster_server_ok_def)
qed

theorem peer_channels_witness:
  "\<exists>s. s = fold cluster_server_event (map Arrive (pool_connections [''a'', ''b'']) @ Accept_error # replicate 32 Admit)
      \<lparr>cs_backlog = [], cs_channels = [], cs_panicked = False\<rparr> \<and>
    cs_channels s = take max_channels (pool_connections [''a'', ''b''])"
proof -
  let ?s0 = "\<lparr>cs_backlog = [], cs_channels = [], cs_panicked = False\<rparr>"
  let ?evs = "map Arrive (pool_connections [''a'', ''b'']) @ Accept_error # replicate 32 Admit"
  have conns: "pool_connections [''a'', ''b''] =
      map (\<lambda>i. ((''a'', i), Some ''a'')) [0..<16] @ map (\<lambda>i. ((''b'', i), Some ''b'')) [0..<16]"
    by (simp add: pool_connections_def pool_capacity_def)
  have arrivals: "arrivals ?evs = pool_connections [''a'', ''b'']"
    by (simp add: comp_def)
  have "cs_backlog (fold cluster_server_event ?evs ?s0) = []"
    unfolding conns by (simp add: max_channels_def upt_rec numeral_eq_Suc)
  then have quiet: "cs_backlog (cluster_server_event Admit (fold cluster_server_event ?evs ?s0)) =
      cs_backlog (fold cluster_server_event ?evs ?s0)" by simp
  have "cs_channels (fold cluster_server_event ?evs ?s0) = take max_channels (arrivals ?evs)"
    using peer_channels [of ?s0 ?evs "[''a'', ''b'']", OF _ _ _ refl quiet] arrivals
    by (auto simp: cluster_server_bind_def)
  with arrivals show ?thesis by simp
qed

end
