(* ===== verification/Runtimes.thy ===== *)
theory Runtimes
  imports Listeners Boot
begin

text \<open>
  The runtimes the program can be built for: the accept loops of their worker threads, and what a
  failure in one of them does to the process (\<open>tokio_local_run\<close>, \<open>tokio_uring_run\<close>,
  \<open>glommio_run\<close> and \<open>monoio_run\<close> of \<open>hcache.rs\<close>, \<open>monoio_hyper.rs\<close>, \<open>monoio_parser.rs\<close>). The
  runtime \<open>tokio\<close> leaves its accept loop to hyper and has none here. Only \<open>tokio\<close> and
  \<open>tokio_local\<close> start \<open>cluster_server\<close> and load the cluster file at their start.
\<close>

section \<open>Worker threads\<close>

text \<open>
  A worker binds the port, which may fail, and then serves. A connection is its number and
  whether the unwrapped call on its new socket succeeds (\<open>set_nodelay\<close>, \<open>local_addr\<close>). A
  loop that returned an error still stands for its thread, which unwraps it.
\<close>

datatype http_event = Bound bool | Service "(nat \<times> bool) service_event"

datatype 's acceptor = Starting | Running 's | Returned "unit result" | Panicked

text \<open>What the loops without a limit do with the connections they hold.\<close>

fun hold :: "(nat \<times> bool) service_event \<Rightarrow> nat list \<Rightarrow> nat list" where
  "hold (Arrive c) cs = cs @ [fst c]"
| "hold Admit cs = cs"
| "hold (Finish i) cs = drop_nth i cs"
| "hold Accept_error cs = cs"

text \<open>\<open>tokio_local\<close>: \<open>while let Ok\<close> ends at an accept error, and with it the local tasks.\<close>

fun tokio_local_worker :: "http_event \<Rightarrow> nat list acceptor \<Rightarrow> nat list acceptor" where
  "tokio_local_worker (Bound ok) Starting = (if ok then Running [] else Panicked)"
| "tokio_local_worker (Service Accept_error) (Running cs) = Returned (Inr ())"
| "tokio_local_worker (Service (Arrive c)) (Running cs) = (if snd c then Running (hold (Arrive c) cs) else Panicked)"
| "tokio_local_worker (Service ev) (Running cs) = Running (hold ev cs)"
| "tokio_local_worker ev w = w"

fun tokio_uring_start :: "http_event \<Rightarrow> nat list acceptor \<Rightarrow> nat list acceptor" where
  "tokio_uring_start (Bound ok) Starting = (if ok then Running [] else Panicked)"
| "tokio_uring_start (Service Accept_error) (Running cs) = Returned (Inr ())"
| "tokio_uring_start (Service ev) (Running cs) = Running (hold ev cs)"
| "tokio_uring_start ev w = w"

text \<open>\<open>serve_http\<close> of \<open>monoio_hyper.rs\<close> returns both errors; the thread unwraps them.\<close>

fun monoio_serve_http :: "http_event \<Rightarrow> nat list acceptor \<Rightarrow> nat list acceptor" where
  "monoio_serve_http (Bound ok) Starting = (if ok then Running [] else Returned (Inl Hyper_Error))"
| "monoio_serve_http (Service Accept_error) (Running cs) = Returned (Inl Hyper_Error)"
| "monoio_serve_http (Service ev) (Running cs) = Running (hold ev cs)"
| "monoio_serve_http ev w = w"

fun unwrap_loop :: "'s acceptor \<Rightarrow> 's acceptor" where
  "unwrap_loop (Returned (Inl e)) = Panicked"
| "unwrap_loop w = w"

definition monoio_thread :: "http_event \<Rightarrow> nat list acceptor \<Rightarrow> nat list acceptor" where
  "monoio_thread ev w = unwrap_loop (monoio_serve_http ev w)"

fun monoio_parser_thread :: "http_event \<Rightarrow> nat list acceptor \<Rightarrow> nat list acceptor" where
  "monoio_parser_thread (Bound ok) Starting = (if ok then Running [] else Panicked)"
| "monoio_parser_thread (Service Accept_error) (Running cs) = Panicked"
| "monoio_parser_thread (Service ev) (Running cs) = Running (hold ev cs)"
| "monoio_parser_thread ev w = w"

text \<open>An executor of \<open>glommio\<close>: its loop returns the error, and the closure unwraps it.\<close>

fun glommio_executor :: "http_event \<Rightarrow> glommio_server acceptor \<Rightarrow> glommio_server acceptor" where
  "glommio_executor (Bound ok) Starting = (if ok then Running (glommio_server_new 1024) else Panicked)"
| "glommio_executor (Service ev) (Running s) =
     (let s1 = glommio_event ev s in if gs_loop s1 = Accepting then Running s1 else Panicked)"
| "glommio_executor ev w = w"

section \<open>The process\<close>

text \<open>The workers run independently; an event is that of the worker it names.\<close>

fun run_workers :: "(http_event \<Rightarrow> 's acceptor \<Rightarrow> 's acceptor) \<Rightarrow> (nat \<times> http_event) list \<Rightarrow>
    's acceptor list \<Rightarrow> 's acceptor list" where
  "run_workers step [] ws = ws"
| "run_workers step ((i, ev) # evs) ws =
     run_workers step evs (if i < length ws then ws[i := step ev (ws ! i)] else ws)"

definition events_of :: "nat \<Rightarrow> (nat \<times> http_event) list \<Rightarrow> http_event list" where
  "events_of i evs = map snd (filter (\<lambda>e. fst e = i) evs)"

lemma run_workers_nth:
  "length (run_workers step evs ws) = length ws \<and>
   (i < length ws \<longrightarrow> run_workers step evs ws ! i = fold step (events_of i evs) (ws ! i))"
  by (induction step evs ws rule: run_workers.induct) (auto simp: events_of_def)

datatype exit = Exit_Ok | Exit_Panic

text \<open>
  Joining the threads in order and unwrapping each; \<open>join_all\<close>, which waits for every executor;
  the one thread of \<open>tokio_uring\<close>, which is the main thread.
\<close>

fun join_in_order :: "'s acceptor list \<Rightarrow> exit option" where
  "join_in_order [] = Some Exit_Ok"
| "join_in_order (w # ws) =
     (case w of Panicked \<Rightarrow> Some Exit_Panic | Returned r \<Rightarrow> join_in_order ws | _ \<Rightarrow> None)"

fun over :: "'s acceptor \<Rightarrow> bool" where
  "over Starting = False"
| "over (Running s) = False"
| "over (Returned r) = True"
| "over Panicked = True"

definition join_all :: "'s acceptor list \<Rightarrow> exit option" where
  "join_all ws = (if list_all over ws then Some Exit_Ok else None)"

fun main_thread :: "'s acceptor \<Rightarrow> exit option" where
  "main_thread Panicked = Some Exit_Panic"
| "main_thread (Returned r) = Some Exit_Ok"
| "main_thread w = None"

text \<open>
  The thread for the peers under \<open>tokio_local\<close>: it spawns \<open>cluster_server\<close>, loads the peers,
  and then waits for the server, which only ends by a panic. The main thread joins this one and
  none of the workers.
\<close>

definition rpc_worker :: "unit result \<Rightarrow> bool \<Rightarrow> unit acceptor" where
  "rpc_worker peers_loaded server_panicked =
     (case peers_loaded of
        Inl Still_Waiting \<Rightarrow> Running ()
      | Inl e \<Rightarrow> Panicked
      | Inr _ \<Rightarrow> (if server_panicked then Panicked else Running ()))"

definition tokio_local_exit :: "nat list acceptor list \<Rightarrow> unit acceptor \<Rightarrow> exit option" where
  "tokio_local_exit workers rpc = join_in_order [rpc]"

section \<open>Starting and joining\<close>

definition tokio_local_start ::
    "env \<Rightarrow> string \<Rightarrow> nat list option \<Rightarrow> ('kv, 'vs, 'zm, 'db) storage world \<Rightarrow>
     ('kv, 'vs, 'zm, 'db) storage world \<times> unit result" where
  "tokio_local_start E h core_ids w =
     (case core_ids of
        None \<Rightarrow> (w, Inl Unwrap_Failed)
      | Some cores \<Rightarrow> try_load_peers E h (set_node h ((w_node w h)\<lparr>st_all_cores := cores\<rparr>) w))"

lemma tokio_local_starts_like_tokio: "tokio_local_start = tokio_run"
  by (simp add: tokio_local_start_def tokio_run_def fun_eq_iff)

section \<open>When a loop ends\<close>

text \<open>
  A worker whose port cannot be bound ends, and one that runs ends at the first deadly event; what
  comes before the port is bound does not reach it.
\<close>

fun loop_fails :: "(http_event \<Rightarrow> bool) \<Rightarrow> http_event list \<Rightarrow> bool" where
  "loop_fails deadly [] = False"
| "loop_fails deadly (Bound ok # evs) = (\<not> ok \<or> list_ex deadly evs)"
| "loop_fails deadly (Service ev # evs) = loop_fails deadly evs"

fun accept_error :: "http_event \<Rightarrow> bool" where
  "accept_error (Service Accept_error) = True"
| "accept_error ev = False"

fun socket_error :: "http_event \<Rightarrow> bool" where
  "socket_error (Service Accept_error) = True"
| "socket_error (Service (Arrive c)) = (\<not> snd c)"
| "socket_error ev = False"

locale fail_stop =
  fixes step :: "http_event \<Rightarrow> 's acceptor \<Rightarrow> 's acceptor" and deadly :: "http_event \<Rightarrow> bool"
    and dead :: "http_event \<Rightarrow> 's acceptor" and inv :: "'s \<Rightarrow> bool"
  assumes before: "step (Service e) Starting = Starting"
    and bind: "step (Bound False) Starting = Panicked"
    and bound: "\<exists>s. step (Bound True) Starting = Running s \<and> inv s"
    and serve: "\<lbrakk>\<not> deadly ev; inv s\<rbrakk> \<Longrightarrow> \<exists>s1. step ev (Running s) = Running s1 \<and> inv s1"
    and fail: "\<lbrakk>deadly ev; inv s\<rbrakk> \<Longrightarrow> step ev (Running s) = dead ev"
    and dead: "over (dead ev)"
    and stays: "step ev Panicked = Panicked" "step ev (dead ev1) = dead ev1"
begin

lemma stays_run: "fold step evs Panicked = Panicked" "fold step evs (dead ev) = dead ev"
  by (induction evs) (simp_all add: stays)

lemma run_from:
  "inv s \<Longrightarrow> (if list_ex deadly evs then \<exists>ev. deadly ev \<and> fold step evs (Running s) = dead ev
     else \<exists>s1. fold step evs (Running s) = Running s1 \<and> inv s1)"
proof (induction evs arbitrary: s)
  case (Cons ev evs)
  show ?case
  proof (cases "deadly ev")
    case True
    then show ?thesis using fail [OF True Cons.prems] by (auto simp: stays_run)
  next
    case False
    from serve [OF False Cons.prems] obtain s1 where "step ev (Running s) = Running s1" "inv s1" by blast
    with Cons.IH [of s1] False show ?thesis by simp
  qed
qed simp

text \<open>How a loop ends: it did not bind, or it met a deadly event; otherwise it is still there.\<close>

lemma run_end:
  "(loop_fails deadly evs \<longrightarrow> fold step evs Starting = Panicked \<or> (\<exists>ev. deadly ev \<and> fold step evs Starting = dead ev)) \<and>
   (\<not> loop_fails deadly evs \<longrightarrow> \<not> over (fold step evs Starting))"
proof (induction evs)
  case (Cons ev evs)
  show ?case
  proof (cases ev)
    case (Bound ok)
    obtain s where s: "step (Bound True) Starting = Running s" "inv s" using bound by blast
    show ?thesis
    proof (cases ok)
      case True
      then show ?thesis using run_from [OF s(2), of evs] by (auto simp: Bound s(1) split: if_splits)
    next
      case False
      then show ?thesis by (simp add: Bound bind stays_run)
    qed
  next
    case (Service e)
    with Cons.IH show ?thesis by (simp add: before)
  qed
qed simp

lemma over_iff: "over (fold step evs Starting) \<longleftrightarrow> loop_fails deadly evs"
  using run_end [of evs] dead by auto

end

text \<open>The loops of all the runtimes are of this kind.\<close>

interpretation local_loop: fail_stop tokio_local_worker socket_error
  "\<lambda>ev. if ev = Service Accept_error then Returned (Inr ()) else Panicked" "\<lambda>_. True"
proof unfold_locales
  fix ev s
  show "\<lbrakk>\<not> socket_error ev; True\<rbrakk> \<Longrightarrow> \<exists>s1. tokio_local_worker ev (Running s) = Running s1 \<and> True"
    by (cases ev rule: socket_error.cases) simp_all
  show "\<lbrakk>socket_error ev; True\<rbrakk> \<Longrightarrow> tokio_local_worker ev (Running s) =
      (if ev = Service Accept_error then Returned (Inr ()) else Panicked)"
    by (cases ev rule: socket_error.cases) simp_all
qed simp_all

interpretation uring_loop: fail_stop tokio_uring_start accept_error "\<lambda>_. Returned (Inr ())" "\<lambda>_. True"
proof unfold_locales
  fix ev s
  show "\<lbrakk>\<not> accept_error ev; True\<rbrakk> \<Longrightarrow> \<exists>s1. tokio_uring_start ev (Running s) = Running s1 \<and> True"
    by (cases ev rule: accept_error.cases) simp_all
  show "\<lbrakk>accept_error ev; True\<rbrakk> \<Longrightarrow> tokio_uring_start ev (Running s) = Returned (Inr ())"
    by (cases ev rule: accept_error.cases) simp_all
qed simp_all

interpretation monoio_loop: fail_stop monoio_thread accept_error "\<lambda>_. Panicked" "\<lambda>_. True"
proof unfold_locales
  fix ev w and s :: "nat list"
  show "\<lbrakk>\<not> accept_error ev; True\<rbrakk> \<Longrightarrow> \<exists>s1. monoio_thread ev (Running s) = Running s1 \<and> True"
    by (cases ev rule: accept_error.cases) (simp_all add: monoio_thread_def)
  show "\<lbrakk>accept_error ev; True\<rbrakk> \<Longrightarrow> monoio_thread ev (Running s) = Panicked"
    by (cases ev rule: accept_error.cases) (simp_all add: monoio_thread_def)
qed (simp_all add: monoio_thread_def)

interpretation parser_loop: fail_stop monoio_parser_thread accept_error "\<lambda>_. Panicked" "\<lambda>_. True"
proof unfold_locales
  fix ev s
  show "\<lbrakk>\<not> accept_error ev; True\<rbrakk> \<Longrightarrow> \<exists>s1. monoio_parser_thread ev (Running s) = Running s1 \<and> True"
    by (cases ev rule: accept_error.cases) simp_all
  show "\<lbrakk>accept_error ev; True\<rbrakk> \<Longrightarrow> monoio_parser_thread ev (Running s) = Panicked"
    by (cases ev rule: accept_error.cases) simp_all
qed simp_all

interpretation glommio_loop: fail_stop glommio_executor socket_error "\<lambda>_. Panicked" "glommio_ok 1024"
proof unfold_locales
  fix ev s
  show "\<lbrakk>socket_error ev; glommio_ok 1024 s\<rbrakk> \<Longrightarrow> glommio_executor ev (Running s) = Panicked"
    by (cases ev rule: socket_error.cases) (simp_all add: glommio_ok_def)
  assume ok: "\<not> socket_error ev" "glommio_ok 1024 s"
  show "\<exists>s1. glommio_executor ev (Running s) = Running s1 \<and> glommio_ok 1024 s1"
  proof (cases ev)
    case (Service e)
    with ok(1) have "glommio_service.harmless e" by (cases e) (simp_all add: glommio_service.harmless_def)
    with ok(2) have "glommio_ok 1024 (glommio_event e s)" by (rule glommio_service.invar_step)
    then show ?thesis by (simp add: Service Let_def) (simp add: glommio_ok_def)
  qed (use ok in simp)
qed (simp_all, simp add: glommio_ok_def glommio_server_new_def)

section \<open>Properties\<close>

lemma workers_end:
  assumes "\<And>evs. over (fold step evs Starting) \<longleftrightarrow> loop_fails deadly evs"
  shows "i < n \<Longrightarrow> over (run_workers step evs (replicate n Starting) ! i) \<longleftrightarrow> loop_fails deadly (events_of i evs)"
  using run_workers_nth [of step evs "replicate n Starting" i] assms by simp

lemma join_first:
  assumes "0 < length ws" and "\<And>w. w = ws ! 0 \<Longrightarrow> over w \<Longrightarrow> w = Panicked"
  shows "join_in_order ws = (if over (ws ! 0) then Some Exit_Panic else None)"
proof (cases ws)
  case (Cons w ws')
  with assms(2) [of w] show ?thesis by (cases w) simp_all
qed (use assms in simp)

lemma join_all_over: "join_all ws = (if \<forall>i < length ws. over (ws ! i) then Some Exit_Ok else None)"
  by (simp add: join_all_def list_all_length)

lemma first_thread_decides:
  assumes "\<And>evs. over (fold step evs Starting) \<longleftrightarrow> loop_fails accept_error evs"
    and "\<And>evs. over (fold step evs Starting) \<Longrightarrow> fold step evs Starting = Panicked"
  shows "join_in_order (run_workers step evs (replicate (Suc n) Starting)) =
    (if loop_fails accept_error (events_of 0 evs) then Some Exit_Panic else None)"
proof -
  let ?ws = "run_workers step evs (replicate (Suc n) Starting)"
  have first: "length ?ws = Suc n" "?ws ! 0 = fold step (events_of 0 evs) Starting"
    using run_workers_nth [of step evs "replicate (Suc n) Starting" 0] by simp_all
  have "join_in_order ?ws = (if over (?ws ! 0) then Some Exit_Panic else None)"
    by (rule join_first) (use first assms(2) in \<open>simp_all only: zero_less_Suc\<close>)
  then show ?thesis using assms(1) first(2) by simp
qed

text \<open>
  C27. What a failure to bind or to accept does to a process with at least one worker. Under
  \<open>monoio\<close> and \<open>monoio_parser\<close> the process ends exactly when the first thread has failed,
  whatever the others do; under \<open>glommio\<close> exactly when every executor has failed, which a failing
  \<open>local_addr\<close> also brings about; under \<open>tokio_uring\<close> it ends, without an error after a failed
  accept. Under \<open>tokio_local\<close> a worker ends at its first failure and the process goes on without
  it: only the thread for the peers ends the process.
\<close>

theorem accept_failures:
  "join_in_order (run_workers monoio_thread evs (replicate (Suc n) Starting)) =
     (if loop_fails accept_error (events_of 0 evs) then Some Exit_Panic else None) \<and>
   join_in_order (run_workers monoio_parser_thread evs (replicate (Suc n) Starting)) =
     (if loop_fails accept_error (events_of 0 evs) then Some Exit_Panic else None) \<and>
   join_all (run_workers glommio_executor evs (replicate (Suc n) Starting)) =
     (if list_all (\<lambda>i. loop_fails socket_error (events_of i evs)) [0..<Suc n] then Some Exit_Ok else None) \<and>
   main_thread (fold tokio_uring_start uevs Starting) =
     (if loop_fails (\<lambda>_. False) uevs then Some Exit_Panic
      else if loop_fails accept_error uevs then Some Exit_Ok else None) \<and>
   list_all (\<lambda>i. over (run_workers tokio_local_worker evs (replicate (Suc n) Starting) ! i) =
     loop_fails socket_error (events_of i evs)) [0..<Suc n] \<and>
   tokio_local_exit (run_workers tokio_local_worker evs (replicate (Suc n) Starting)) (rpc_worker (Inr ()) dead) =
     (if dead then Some Exit_Panic else None)"
proof -
  have monoio: "fold monoio_thread evs Starting = Panicked" if "over (fold monoio_thread evs Starting)" for evs
    using that monoio_loop.run_end [of evs] by blast
  have parser: "fold monoio_parser_thread evs Starting = Panicked" if "over (fold monoio_parser_thread evs Starting)" for evs
    using that parser_loop.run_end [of evs] by blast
  have uring: "main_thread (fold tokio_uring_start uevs Starting) =
     (if loop_fails (\<lambda>_. False) uevs then Some Exit_Panic
      else if loop_fails accept_error uevs then Some Exit_Ok else None)"
  proof (induction uevs)
    case (Cons ev uevs)
    show ?case
    proof (cases ev)
      case (Bound ok)
      then show ?thesis using uring_loop.run_from [where s = "[]" and evs = uevs] by (auto simp: uring_loop.stays_run list_ex_iff split: if_splits)
    next
      case (Service e)
      with Cons.IH show ?thesis by simp
    qed
  qed simp
  have glommio: "join_all (run_workers glommio_executor evs (replicate (Suc n) Starting)) =
     (if list_all (\<lambda>i. loop_fails socket_error (events_of i evs)) [0..<Suc n] then Some Exit_Ok else None)"
  proof -
    let ?ws = "run_workers glommio_executor evs (replicate (Suc n) Starting)"
    have "length ?ws = Suc n" using run_workers_nth [of glommio_executor evs "replicate (Suc n) Starting"] by simp
    moreover have "(\<forall>i < Suc n. over (?ws ! i)) \<longleftrightarrow> (\<forall>i < Suc n. loop_fails socket_error (events_of i evs))"
      using workers_end [OF glommio_loop.over_iff, of _ "Suc n" evs] by blast
    ultimately show ?thesis by (simp only: join_all_over list_all_iff set_upt atLeastLessThan_iff zero_le simp_thms Ball_def)
  qed
  have local: "list_all (\<lambda>i. over (run_workers tokio_local_worker evs (replicate (Suc n) Starting) ! i) =
     loop_fails socket_error (events_of i evs)) [0..<Suc n]"
    using workers_end [OF local_loop.over_iff, of _ "Suc n" evs] by (simp only: list_all_iff) simp
  have rpc: "tokio_local_exit ws (rpc_worker (Inr ()) dead) = (if dead then Some Exit_Panic else None)" for ws
    by (simp add: tokio_local_exit_def rpc_worker_def)
  show ?thesis
    by (intro conjI first_thread_decides [OF monoio_loop.over_iff monoio]
        first_thread_decides [OF parser_loop.over_iff parser] glommio uring local rpc)
qed

end
