(* ===== verification/Gendata.thy ===== *)
theory Gendata
  imports Durability Client
begin

text \<open>
  The program \<open>gendata\<close>, which fills a database for \<open>INIT_DIRS\<close>: the path and the prefix are its
  arguments, and the entries are the thirty million keys made of the prefix and a number, each
  its own value. What opening the path returns is a parameter; a failed write panics here.
\<close>

definition gen_count :: nat where
  "gen_count = 30000000"

definition gen_key :: "string \<Rightarrow> nat \<Rightarrow> string" where
  "gen_key prefix i = prefix @ ''-'' @ format_dec i"

fun gen_loop :: "'db rocksdb \<Rightarrow> string \<Rightarrow> nat list \<Rightarrow> 'db \<Rightarrow> 'db \<times> unit result" where
  "gen_loop R prefix [] db = (db, Inr ())"
| "gen_loop R prefix (i # is) db =
     (case rdb_put R db (as_bytes (gen_key prefix i)) (as_bytes (gen_key prefix i)) of
        (db1, ok) \<Rightarrow> if ok then gen_loop R prefix is db1 else (db1, Inl Unwrap_Failed))"

text \<open>The first argument is the program's name. The result of the final \<open>flush\<close> is dropped.\<close>

definition gendata ::
    "'db rocksdb \<Rightarrow> (string \<Rightarrow> 'db option) \<Rightarrow> string list \<Rightarrow> 'db option \<times> unit result" where
  "gendata R open_default args =
     (case index_vec args 1 of
        Inl _ \<Rightarrow> (None, Inl Unwrap_Failed)
      | Inr path \<Rightarrow>
          (case index_vec args 2 of
             Inl _ \<Rightarrow> (None, Inl Unwrap_Failed)
           | Inr prefix \<Rightarrow>
               (case open_default path of
                  None \<Rightarrow> (None, Inl Unwrap_Failed)
                | Some db \<Rightarrow> (case gen_loop R prefix [0..<gen_count] db of (db1, r) \<Rightarrow> (Some db1, r)))))"

lemma gen_key_inject: "gen_key p i = gen_key p j \<longleftrightarrow> i = j"
  by (simp add: gen_key_def format_dec_inject)

lemma gen_loop_ok:
  assumes "rocks_laws R" and "rocks_reliable R"
  shows "\<exists>db1. gen_loop R prefix is db = (db1, Inr ()) \<and>
    (\<forall>b. rdb_lookup R db1 b =
      (if b \<in> (\<lambda>i. as_bytes (gen_key prefix i)) ` set is then Some b else rdb_lookup R db b))"
proof (induction "is" arbitrary: db)
  case (Cons i "is")
  let ?k = "as_bytes (gen_key prefix i)"
  have "snd (rdb_put R db ?k ?k)" using assms(2) by (simp add: rocks_reliable_def)
  then obtain db0 where put: "rdb_put R db ?k ?k = (db0, True)" by (metis prod.collapse)
  have "rdb_lookup R db0 = (rdb_lookup R db)(?k \<mapsto> ?k)"
    using rdb_lookup_put [OF assms, of db ?k ?k] by (simp add: put)
  with Cons.IH [of db0] show ?case by (auto simp: put)
qed simp

lemma scan_length:
  assumes "rocks_laws R" and "\<And>b. rdb_lookup R db b = (if b \<in> B then Some b else None)"
  shows "length (rdb_scan R db) = card B"
proof -
  have "set (map fst (rdb_scan R db)) = dom (rdb_lookup R db)"
    by (simp add: rdb_lookup_def dom_map_of_conv_image_fst)
  moreover have "dom (rdb_lookup R db) = B" by (auto simp: assms(2) dom_def)
  moreover have "length (rdb_scan R db) = card (set (map fst (rdb_scan R db)))"
    using distinct_card [OF rdb_scan_distinct [OF assms(1)], of db] by simp
  ultimately show ?thesis by simp
qed

section \<open>Properties\<close>

text \<open>
  C40. With its two arguments, a path that opens and writes that succeed, \<open>gendata\<close> leaves exactly
  the generated keys, each with itself as its value, beside what the database held: thirty million
  entries in a new one. Without an argument or with a path that does not open it panics and has
  written nothing.
\<close>

theorem gendata_contents:
  assumes "rocks_laws R" and "rocks_reliable R"
  shows "if length args \<le> 2 then gendata R open_default args = (None, Inl Unwrap_Failed)
    else case open_default (args ! 1) of
      None \<Rightarrow> gendata R open_default args = (None, Inl Unwrap_Failed)
    | Some db \<Rightarrow> \<exists>db1. gendata R open_default args = (Some db1, Inr ()) \<and>
        (\<forall>b. rdb_lookup R db1 b =
          (if b \<in> (\<lambda>i. as_bytes (gen_key (args ! 2) i)) ` {..<30000000} then Some b else rdb_lookup R db b)) \<and>
        (rdb_scan R db = [] \<longrightarrow> length (rdb_scan R db1) = 30000000)"
proof (cases "length args \<le> 2")
  case True
  then show ?thesis by (simp add: gendata_def index_vec_def)
next
  case False
  then have args: "index_vec args 1 = Inr (args ! 1)" "index_vec args 2 = Inr (args ! 2)"
    by (simp_all add: index_vec_def)
  show ?thesis
  proof (cases "open_default (args ! 1)")
    case None
    then have "gendata R open_default args = (None, Inl Unwrap_Failed)"
      by (simp only: gendata_def args sum.case option.case)
    with False None show ?thesis by simp
  next
    case (Some db)
    let ?B = "(\<lambda>i. as_bytes (gen_key (args ! 2) i)) ` {..<gen_count}"
    obtain db1 where run: "gen_loop R (args ! 2) [0..<gen_count] db = (db1, Inr ())"
      and db1: "\<And>b. rdb_lookup R db1 b = (if b \<in> ?B then Some b else rdb_lookup R db b)"
      using gen_loop_ok [OF assms, of "args ! 2" "[0..<gen_count]" db] by (auto simp: lessThan_atLeast0)
    have "inj (\<lambda>i. as_bytes (gen_key (args ! 2) i))" by (rule injI) (simp add: as_bytes_inject gen_key_inject)
    then have card: "card ?B = gen_count" by (simp add: card_image inj_on_subset)
    have "length (rdb_scan R db1) = gen_count" if "rdb_scan R db = []"
      using scan_length [OF assms(1), of db1 ?B] db1 that card by (simp add: rdb_lookup_def)
    then have "gendata R open_default args = (Some db1, Inr ()) \<and>
        (\<forall>b. rdb_lookup R db1 b = (if b \<in> ?B then Some b else rdb_lookup R db b)) \<and>
        (rdb_scan R db = [] \<longrightarrow> length (rdb_scan R db1) = gen_count)"
      using db1 by (simp only: gendata_def args Some run sum.case option.case prod.case) simp
    then show ?thesis
      using False Some unfolding gen_count_def by (simp only: option.case if_False) blast
  qed
qed

theorem gendata_contents_witness:
  "\<exists>db. gendata list_rocks (\<lambda>path. Some []) [''gendata'', ''dir'', ''k''] = (Some db, Inr ()) \<and>
    length (rdb_scan list_rocks db) = 30000000"
  using gendata_contents [OF list_rocks_laws list_rocks_reliable, of "[''gendata'', ''dir'', ''k'']" "\<lambda>path. Some []"]
    ref_scan_empty
  by (auto simp: ref_libs_def)

end
