(* ===== verification/Spec2Isabelle.thy ===== *)
theory Spec2Isabelle
  imports Client_Facts Http_Parser Loaded_Cluster Store_Race Boot Lossy_Bulk Crash Runtimes Gendata
begin

text \<open>
  hcache, a distributed key-value cache with sorted sets: its server (\<open>src/rust/src\<close>) and its
  clients (\<open>src/client/src\<close>), with the feature \<open>memory\<close>: the default runtime \<open>tokio\<close>, the accept
  loops of the other runtimes, the hand-written HTTP parser of the feature \<open>monoio_parser\<close>, and the
  program \<open>gendata\<close>.

  The program. Every node runs an HTTP server and an RPC server over one \<open>Storage\<close>. A key belongs
  to the node whose index is its hash modulo the number of nodes. A handler works on its own
  store if the key is its own and calls the owner otherwise; batches and lists are split by owner.
  A store keeps its data in memory, twice for a sorted set (by member and by score), and writes
  every change to two databases, from which the next process loads it. A node learns of the
  cluster from a file that \<open>/updateCluster\<close> writes and \<open>/init\<close> or the start of the process
  reads; the first \<open>/init\<close> also spawns threads that copy initial data out of other databases.

  Foundations.
  \<^item> \<open>Prelude\<close>: integers, bytes, faults (a panic is a value of \<open>fault\<close>), splitting of paths,
    little-endian encodings, the locale \<open>codec\<close>.
  \<^item> \<open>Btree_Map\<close>: the ordered index of a sorted set, locale \<open>ordered_index\<close>.
  \<^item> \<open>Libraries\<close>: the crates the program calls, as records of operations with their documented
    laws (\<open>libs_ok\<close>, \<open>rocks_reliable\<close>), and one concrete instance, \<open>ref_libs\<close>.
  \<^item> \<open>Hashing\<close>, \<open>Hash_Samples\<close>: SipHash-1-3, \<open>hash_key\<close> and \<open>get_shard\<close> of \<open>storage.rs\<close>, and
    two evaluated hashes.
  \<^item> \<open>Dto\<close>: the bodies of \<open>dto.rs\<close>.
  \<^item> \<open>Data_Store\<close>: the abstract store \<open>spec\<close>, its commands \<open>cmd\<close> and \<open>spec_step\<close>, and the locales
    \<open>kv_store\<close> and \<open>data_store\<close>, the contract of every store below.

  One node (\<open>storage.rs\<close>, \<open>cluster.rs\<close>).
  \<^item> \<open>Zset_Memory\<close>: a sorted set, \<open>zset_ok\<close> (the two indexes agree), add, remove and range.
  \<^item> \<open>Zset_Race\<close>: the same additions and removals in the steps between which other threads can
    come, as a step relation.
  \<^item> \<open>Store_Race\<close>: \<open>insert_kv\<close>, \<open>remove_key\<close>, \<open>zadd\<close> and \<open>zrmv\<close> on the whole store in such steps, one
    per access to a map or a database. Commands on different keys, or on different members, may
    interleave freely (\<open>independent\<close>); two writes of one key may not.
  \<^item> \<open>Peer_Pool\<close>: \<open>PeerClientQueue\<close> and \<open>PeerClientPool\<close>; the round robin, with its counter
    wrapping at \<open>2 ^ 64\<close>, a multiple of the capacity 16.
  \<^item> \<open>Storage\<close>, \<open>Storage_Facts\<close>: the struct \<open>Storage\<close> with its zsets on a heap, \<open>storage_ok\<close>,
    \<open>storage_abs\<close>, the effect of every operation.
  \<^item> \<open>Peer_Server\<close>: the RPC methods; a node refines the abstract store.
  \<^item> \<open>Durability\<close>: \<open>load_from_disk\<close> after a stop that wrote everything out, which histories
    survive it (\<open>durable_run\<close>), and what happens to a deleted zset.
  \<^item> \<open>Crash\<close>: the flushing thread of \<open>main\<close> and a kill at any moment. \<open>flush_points\<close> says which
    part of the history each database holds.

  The cluster (\<open>hcache.rs\<close>).
  \<^item> \<open>Remote\<close>: nodes that call each other; a \<open>world\<close> holds all stores and the fate of every call
    (delivered, request lost, reply lost).
  \<^item> \<open>Handlers\<close>, \<open>Router\<close>: \<open>handle_*\<close> and \<open>hyper_handler\<close>.
  \<^item> \<open>Init\<close>, \<open>Boot\<close>, \<open>Loader\<close>: \<open>update_peers\<close>, \<open>handle_updatecluster\<close> and \<open>try_load_peers\<close>; \<open>main\<close>
    and \<open>tokio_run\<close>, and the restart of a whole cluster; the threads behind \<open>/init\<close> as a step
    relation with free interleaving.
  \<^item> \<open>Loaded_Cluster\<close>: what the handlers of a cluster find when every node has loaded.
  \<^item> \<open>Listeners\<close>: the two accept loops that bound their connections, \<open>cluster_server\<close> of \<open>cluster.rs\<close>
    and \<open>serve_http\<close> of \<open>glommio_hyper.rs\<close>; the locale \<open>bounded_service\<close> is what they promise.
  \<^item> \<open>Runtimes\<close>: the other accept loops (\<open>hcache.rs\<close>, \<open>monoio_hyper.rs\<close>, \<open>monoio_parser.rs\<close>), the locale
    \<open>fail_stop\<close> on how they end, and what that does to the process.
  \<^item> \<open>Cluster\<close>, \<open>Cluster_Data\<close>, \<open>Cluster_Bulk\<close>, \<open>Lossy_Bulk\<close>: a well-configured cluster
    (\<open>cluster_ok\<close>), its contents (\<open>cluster_abs\<close>), commands, reads, batches and lists on it, also
    over a network that loses calls. \<open>Sample_Cluster\<close> is a cluster of two nodes for witnesses.

  The clients and the parser.
  \<^item> \<open>Client\<close>: the request functions of \<open>client.rs\<close> as scripts; the locale \<open>client_service\<close> is
    what a client may expect of a service, interpreted on the modelled cluster through router,
    handlers and bodies.
  \<^item> \<open>Acceptance\<close>, \<open>Benchmark\<close>, \<open>Client_Facts\<close>: the \<open>main\<close> of \<open>client.rs\<close>, its spawned tasks
    under any schedule, and \<open>batch-forever.rs\<close>.
  \<^item> \<open>Http_Parser\<close>: \<open>http_parser.rs\<close>. Its loop is a partial function, since it does not always
    return; the reference is an automaton over single bytes.
  \<^item> \<open>Gendata\<close>: \<open>gendata.rs\<close>, which fills a database for the loader.

  What is shown. The chain of refinements goes from a sorted set (\<open>zset_history\<close>) over a node
  (\<open>node_refines_store\<close>) to a cluster (\<open>cluster_refines_store\<close>, \<open>batch_cluster\<close>, \<open>zrange_cluster\<close>)
  and to the client's own test (\<open>client_main_passes\<close>). Faults of the surroundings: \<open>lossy_command\<close>,
  \<open>lossy_batch\<close>, \<open>lossy_list\<close>, \<open>durable_restart\<close>, \<open>cluster_restart\<close>, \<open>crash_recovery\<close>,
  \<open>accept_failures\<close>. Concurrency: \<open>independent_commands\<close>, \<open>reads_between\<close>, \<open>racing_writers\<close>,
  \<open>racing_additions\<close>, \<open>single_loader\<close>, \<open>loading_terminates\<close>. Configuration: \<open>loaded_cluster\<close> (which
  initial data a cluster finds), \<open>loading_before_joining\<close> (in which order to set it up),
  \<open>peer_channels\<close> (how large it may be). The properties of this theory are those that span components; the others stand at the end of their
  theories.

  Bounds. A cluster has fewer than \<open>2 ^ 32\<close> hosts, because shards are compared as \<open>u32\<close>; the
  benchmark has fewer than \<open>2 ^ 64\<close> keys (\<open>usize\<close>), and its names stay within the lengths the URI
  laws ask for. Arithmetic wraps as in a release build. No definition runs on fuel: what may not
  end is a partial function (\<open>feed_loop\<close>), a list of outcomes that may run out (connection
  attempts, reads, schedules; \<open>Still_Waiting\<close>) or a step relation.

  Idealisations. Handlers of one node run one at a time, except in \<open>Zset_Race\<close>, \<open>Store_Race\<close> and
  \<open>Loader\<close>; \<open>independent_commands\<close> says when the order does not matter. What the loading threads do
  while \<open>handle_init\<close> runs is a parameter of the world; in \<open>Loader\<close> it is their steps. The tasks of one batch or
  list run in the iteration order of a hash map. A \<open>String\<close> is its bytes. Databases are maps whose
  writes succeed where \<open>rocks_reliable\<close> is assumed. Connections made by \<open>PeerClientPool\<close> do not break;
  since the code never replaces one, the restart of a single node is not claimed to leave the
  others' connections alive, only that of the whole cluster. In the theories of the accept loops a
  connection is a number or the client end that made it; what goes over it is not followed.

  Not modelled. The implementation without the feature \<open>memory\<close> (\<open>storage.rs\<close> lines 149 to 216
  do not compile). What hyper does with a connection it is handed, the accept loop of \<open>tokio\<close>
  (hyper's \<open>Server\<close>), the handlers on a runtime that is not tokio's (where tokio's own calls in
  \<open>handle_updatecluster\<close> and \<open>PeerClientQueue::new\<close> panic), panics of connection tasks, the
  selection of the runtime by feature at the end of \<open>main\<close>, thread pinning, socket options, and the passing on of writes by \<open>HyperStream\<close>;
  printing, clocks and the file \<open>req.txt\<close> of the benchmarks; the C++ servers.
\<close>

section \<open>The cluster as one store\<close>

text \<open>
  C1. In a cluster whose nodes have joined with the same list of hosts, over a network that
  delivers every call, any sequence of add, delete, zadd and zrmv requests, each sent to any
  node, acts as on one abstract store: the node that receives a request and the one that owns
  the key do not matter, and the cluster stays well configured.
\<close>

theorem cluster_refines_store:
  assumes "libs_ok L" and "env_ok E" and "cluster_ok L hosts w" and "net_ok w"
  shows "cluster_ok L hosts (fold (cluster_step L E hosts) reqs w) \<and>
    cluster_abs L hosts (fold (cluster_step L E hosts) reqs w) =
      fold spec_step (map snd reqs) (cluster_abs L hosts w)"
  using cluster.run_refines [of L E hosts w reqs] assms by simp

theorem cluster_refines_store_witness:
  "sp_kv (cluster_abs ref_libs sample_hosts (fold (cluster_step ref_libs sample_env sample_hosts)
      [(0, Add ''a'' ''1''), (1, Add ''b'' ''2''), (1, Add ''a'' ''3''), (0, Del ''b'')] sample_world)) =
    [''a'' \<mapsto> ''3'']"
  using cluster_refines_store [OF ref_libs_ok sample_env_ok sample_world_ok,
      of "[(0, Add ''a'' ''1''), (1, Add ''b'' ''2''), (1, Add ''a'' ''3''), (0, Del ''b'')]"]
  by (simp add: sample_world_abs spec_empty_def fun_eq_iff)

text \<open>
  C2. What a client writes at one node it reads at any other: after \<open>POST /add\<close> of a pair at
  node \<open>i\<close>, \<open>GET /query/key\<close> at node \<open>j\<close> answers 200 with the value, for a key without a
  slash; after \<open>GET /del/key\<close> it answers 404.
\<close>

theorem read_your_writes:
  assumes "libs_ok L" and "env_ok E" and "cluster_ok L hosts w" and "net_ok w"
    and "i < length hosts" and "j < length hosts" and "CHR ''/'' \<notin> set k"
  shows "\<exists>w1. hyper_handler L E (hosts ! i) \<lparr>rq_method = Method_POST, rq_path = ''/add'',
        rq_body = Inr (js_write_insrt E \<lparr>ir_key = k, ir_value = v\<rparr>)\<rparr> w = (w1, Inr (ok_response '''')) \<and>
    snd (hyper_handler L E (hosts ! j) \<lparr>rq_method = Method_GET, rq_path = ''/query/'' @ k, rq_body = b\<rparr> w1) =
      Inr (ok_response v) \<and>
    (\<exists>w2. hyper_handler L E (hosts ! j) \<lparr>rq_method = Method_GET, rq_path = ''/del/'' @ k, rq_body = b\<rparr> w1 =
        (w2, Inr (ok_response '''')) \<and>
      snd (hyper_handler L E (hosts ! i) \<lparr>rq_method = Method_GET, rq_path = ''/query/'' @ k, rq_body = b\<rparr> w2) =
        Inr (empty_response NOT_FOUND))"
proof -
  from send_cmd_abs [OF assms(1-5), of "Add k v"] obtain w1 where
    add: "handle_add L E (hosts ! i) (Inr (js_write_insrt E \<lparr>ir_key = k, ir_value = v\<rparr>)) w = (w1, Inr (ok_response ''''))"
    and w1: "cluster_ok L hosts w1" "net_ok w1" "sp_kv (cluster_abs L hosts w1) k = Some v"
    by (auto simp: send_cmd_def)
  from send_cmd_abs [OF assms(1,2) w1(1,2) assms(6), of "Del k"] obtain w2 where
    del: "handle_del L (hosts ! j) k w1 = (w2, Inr (ok_response ''''))"
    and w2: "cluster_ok L hosts w2" "net_ok w2" "sp_kv (cluster_abs L hosts w2) k = None"
    by (auto simp: send_cmd_def)
  show ?thesis
    using add del w1(3) w2(3) assms(7) handle_query_cluster [OF w1(1,2) assms(6), of k]
      handle_query_cluster [OF w2(1,2) assms(5), of k]
    by (auto simp: hyper_handler_def route_post_plain route_get_query route_get_del query_response_def
        simp del: append_Cons append.simps)
qed

theorem read_your_writes_witness:
  "\<exists>w1. hyper_handler ref_libs sample_env ''n1'' \<lparr>rq_method = Method_POST, rq_path = ''/add'',
        rq_body = Inr (js_write_insrt sample_env \<lparr>ir_key = ''a'', ir_value = ''1''\<rparr>)\<rparr> sample_world =
        (w1, Inr (ok_response '''')) \<and>
    snd (hyper_handler ref_libs sample_env ''n2''
      \<lparr>rq_method = Method_GET, rq_path = ''/query/a'', rq_body = Inr ''''\<rparr> w1) = Inr (ok_response ''1'')"
  using read_your_writes [OF ref_libs_ok sample_env_ok sample_world_ok, of 0 1 "''a''" "''1''" "Inr ''''"]
  by (auto simp: sample_hosts_def)

text \<open>
  A query at any node answers with the value the cluster holds for the key, or 404, and
  changes nothing the cluster holds.
\<close>

theorem query_cluster:
  assumes "cluster_ok L hosts w" and "net_ok w" and "i < length hosts"
  shows "\<exists>w'. handle_query L (hosts ! i) k w =
      (w', Inr (query_response (sp_kv (cluster_abs L hosts w) k))) \<and>
    cluster_ok L hosts w' \<and> cluster_abs L hosts w' = cluster_abs L hosts w"
  using handle_query_cluster [OF assms, of k] by blast

theorem query_cluster_witness:
  "snd (handle_query ref_libs ''n1'' ''a'' sample_world) = Inr (empty_response NOT_FOUND)"
  using query_cluster [OF sample_world_ok, of 0 "''a''"]
  by (auto simp: sample_hosts_def query_response_def sample_world_abs [unfolded sample_hosts_def] spec_empty_def)

text \<open>
  A list request at any node answers with exactly those of the requested keys that the
  cluster holds, each once with its value, however often it was asked for and whichever node
  owns it, and with 404 exactly if there is none; the order in which the nodes are asked and the
  order of the hash maps do not matter.
\<close>

theorem list_cluster:
  assumes "libs_ok L" and "env_ok E" and "cluster_ok L hosts w" and "net_ok w" and "i < length hosts"
  shows "\<exists>w' rs. handle_list L E (hosts ! i) (Inr (js_write_keys E keys)) w =
      (w', Inr (if rs = [] then empty_response NOT_FOUND else ok_response (js_write_insrts E rs))) \<and>
    cluster_ok L hosts w' \<and> cluster_abs L hosts w' = cluster_abs L hosts w \<and> distinct (map ir_key rs) \<and>
    set rs = {r. ir_key r \<in> set keys \<and> sp_kv (cluster_abs L hosts w) (ir_key r) = Some (ir_value r)}"
  using handle_list_cluster [OF assms, of keys] by blast

theorem list_cluster_witness:
  "snd (handle_list ref_libs sample_env ''n2'' (Inr (js_write_keys sample_env [''a'', ''b'', ''a''])) sample_world) =
     Inr (empty_response NOT_FOUND)"
  using list_cluster [OF ref_libs_ok sample_env_ok sample_world_ok, of 1 "[''a'', ''b'', ''a'']"]
  by (auto simp: sample_hosts_def sample_world_abs [unfolded sample_hosts_def] spec_empty_def)

lemma spec_adds_kv:
  "sp_kv (fold spec_step (map (\<lambda>r. Add (ir_key r) (ir_value r)) kvs) a) = sp_kv a ++ batch_map kvs"
  by (induction kvs arbitrary: a) (simp_all add: batch_map_def kv_pair_def)

text \<open>
  C12. A batch at any node inserts all its pairs, in order, wherever their keys live, whatever
  the iteration order of the groups; sorted sets under its keys are dropped exactly for the keys
  that the receiving node does not own.
\<close>

theorem batch_cluster:
  assumes "libs_ok L" and "env_ok E" and "cluster_ok L hosts w" and "net_ok w" and "i < length hosts"
  shows "\<exists>w'. handle_batch L E (hosts ! i) (Inr (js_write_insrts E kvs)) w = (w', Inr (ok_response '''')) \<and>
    cluster_ok L hosts w' \<and>
    sp_kv (cluster_abs L hosts w') =
      sp_kv (fold spec_step (map (\<lambda>r. Add (ir_key r) (ir_value r)) kvs) (cluster_abs L hosts w)) \<and>
    sp_zs (cluster_abs L hosts w') = (\<lambda>k. if k \<in> ir_key ` set kvs \<and> owner_index hosts k \<noteq> i then None
      else sp_zs (cluster_abs L hosts w) k)"
  using handle_batch_cluster [OF assms, of kvs] by (auto simp: keys_of_def spec_adds_kv)

theorem batch_cluster_witness:
  "\<exists>w'. handle_batch ref_libs sample_env ''n1'' (Inr (js_write_insrts sample_env
      [\<lparr>ir_key = ''a'', ir_value = ''1''\<rparr>, \<lparr>ir_key = ''b'', ir_value = ''2''\<rparr>, \<lparr>ir_key = ''a'', ir_value = ''3''\<rparr>]))
      sample_world = (w', Inr (ok_response '''')) \<and>
    sp_kv (cluster_abs ref_libs sample_hosts w') = [''a'' \<mapsto> ''3'', ''b'' \<mapsto> ''2'']"
  using batch_cluster [OF ref_libs_ok sample_env_ok sample_world_ok, of 0
      "[\<lparr>ir_key = ''a'', ir_value = ''1''\<rparr>, \<lparr>ir_key = ''b'', ir_value = ''2''\<rparr>, \<lparr>ir_key = ''a'', ir_value = ''3''\<rparr>]"]
  by (auto simp: sample_hosts_def sample_world_abs [unfolded sample_hosts_def] spec_empty_def fun_eq_iff)

text \<open>
  C13. On a network that loses calls, a batch is still answered 200, and the cluster stays well
  configured; there is a set of nodes, never the receiving one, that got nothing of it, and
  every other node executed its share in full. A lost reply loses nothing; when every request
  is lost, no other node gets anything, and the answer is 200 all the same.
\<close>

theorem lossy_batch:
  assumes "libs_ok L" and "env_ok E" and "cluster_ok L hosts w" and "i < length hosts"
  shows "\<exists>w' lost. handle_batch L E (hosts ! i) (Inr (js_write_insrts E kvs)) w = (w', Inr (ok_response '''')) \<and>
    cluster_ok L hosts w' \<and> i \<notin> lost \<and>
    (\<forall>k. sp_kv (cluster_abs L hosts w') k =
      (if owner_index hosts k \<in> lost then sp_kv (cluster_abs L hosts w) k
       else sp_kv (fold spec_step (map (\<lambda>r. Add (ir_key r) (ir_value r)) kvs) (cluster_abs L hosts w)) k)) \<and>
    (\<forall>k. sp_zs (cluster_abs L hosts w') k =
      (if k \<in> ir_key ` set kvs \<and> owner_index hosts k \<noteq> i \<and> owner_index hosts k \<notin> lost then None
       else sp_zs (cluster_abs L hosts w) k)) \<and>
    ((\<forall>n. w_fate w n \<noteq> Lost_request) \<longrightarrow> lost = {}) \<and>
    ((\<forall>n. w_fate w n = Lost_request) \<longrightarrow>
      (\<forall>r \<in> set kvs. owner_index hosts (ir_key r) \<noteq> i \<longrightarrow> owner_index hosts (ir_key r) \<in> lost))"
  unfolding spec_adds_kv using handle_batch_lossy [OF assms, of kvs] by (simp add: keys_of_def)

theorem lossy_batch_witness:
  "\<exists>w'. handle_batch ref_libs sample_env ''n1'' (Inr (js_write_insrts sample_env [\<lparr>ir_key = ''a'', ir_value = ''1''\<rparr>]))
      (sample_world\<lparr>w_fate := (\<lambda>_. Lost_request)\<rparr>) = (w', Inr (ok_response '''')) \<and>
    sp_kv (cluster_abs ref_libs sample_hosts w') ''a'' = None"
proof -
  let ?w = "sample_world\<lparr>w_fate := (\<lambda>_. Lost_request)\<rparr>"
  have ok: "cluster_ok ref_libs sample_hosts ?w" using sample_world_ok(1) by (simp add: cluster_ok_def)
  have abs: "cluster_abs ref_libs sample_hosts ?w = spec_empty"
    using sample_world_abs by (simp add: cluster_abs_def)
  have len: "0 < length sample_hosts" by (simp add: sample_hosts_def)
  from lossy_batch [OF ref_libs_ok sample_env_ok ok len, of "[\<lparr>ir_key = ''a'', ir_value = ''1''\<rparr>]"]
  obtain w' lost where "handle_batch ref_libs sample_env (sample_hosts ! 0)
      (Inr (js_write_insrts sample_env [\<lparr>ir_key = ''a'', ir_value = ''1''\<rparr>])) ?w = (w', Inr (ok_response ''''))"
    and "\<forall>k. sp_kv (cluster_abs ref_libs sample_hosts w') k = (if owner_index sample_hosts k \<in> lost then None
      else [''a'' \<mapsto> ''1''] k)" and "owner_index sample_hosts ''a'' \<in> lost"
    by (auto simp: abs spec_empty_def sample_owner)
  then show ?thesis by (intro exI [of _ w']) (simp add: sample_hosts_def)
qed

text \<open>
  C14. On a network that loses requests and replies, a list request is still answered: there is a
  set of nodes, never the receiving one, whose keys the answer leaves out, and of all the others it
  has exactly the requested keys that the cluster holds, each once with its value; the contents
  stay as they are. When nothing is lost no key is left out; when every call fails, all the keys of
  the other nodes are, and the reply may be 404 for keys that are there.
\<close>

theorem lossy_list:
  assumes "libs_ok L" and "env_ok E" and "cluster_ok L hosts w" and "i < length hosts"
  shows "\<exists>w' rs lost. handle_list L E (hosts ! i) (Inr (js_write_keys E keys)) w =
      (w', Inr (if rs = [] then empty_response NOT_FOUND else ok_response (js_write_insrts E rs))) \<and>
    cluster_ok L hosts w' \<and> w_fate w' = w_fate w \<and> cluster_abs L hosts w' = cluster_abs L hosts w \<and>
    i \<notin> lost \<and> distinct (map ir_key rs) \<and>
    set rs = {r. ir_key r \<in> set keys \<and> owner_index hosts (ir_key r) \<notin> lost \<and>
      sp_kv (cluster_abs L hosts w) (ir_key r) = Some (ir_value r)} \<and>
    ((\<forall>n. w_fate w n = Delivered) \<longrightarrow> lost = {}) \<and>
    ((\<forall>n. w_fate w n \<noteq> Delivered) \<longrightarrow> (\<forall>k \<in> set keys. owner_index hosts k \<noteq> i \<longrightarrow> owner_index hosts k \<in> lost))"
  using handle_list_lossy [OF assms, of keys] .

theorem lossy_list_witness:
  "\<exists>w. sp_kv (cluster_abs ref_libs sample_hosts w) ''a'' = Some ''1'' \<and>
    snd (handle_list ref_libs sample_env ''n1'' (Inr (js_write_keys sample_env [''a''])) w) =
      Inr (empty_response NOT_FOUND)"
proof -
  have len: "0 < length sample_hosts" by (simp add: sample_hosts_def)
  from handle_batch_cluster [OF ref_libs_ok sample_env_ok sample_world_ok len, of "[\<lparr>ir_key = ''a'', ir_value = ''1''\<rparr>]"]
  obtain w1 where w1: "cluster_ok ref_libs sample_hosts w1" "sp_kv (cluster_abs ref_libs sample_hosts w1) ''a'' = Some ''1''"
    by (auto simp: batch_map_def kv_pair_def)
  let ?w = "w1\<lparr>w_fate := (\<lambda>_. Lost_request)\<rparr>"
  have ok: "cluster_ok ref_libs sample_hosts ?w" and abs: "cluster_abs ref_libs sample_hosts ?w = cluster_abs ref_libs sample_hosts w1"
    using w1(1) by (simp_all add: cluster_ok_def cluster_abs_def)
  from lossy_list [OF ref_libs_ok sample_env_ok ok len, of "[''a'']"] obtain w' rs lost where
    "handle_list ref_libs sample_env (sample_hosts ! 0) (Inr (js_write_keys sample_env [''a''])) ?w =
      (w', Inr (if rs = [] then empty_response NOT_FOUND else ok_response (js_write_insrts sample_env rs)))"
    and rs: "\<forall>r \<in> set rs. ir_key r = ''a'' \<and> owner_index sample_hosts (ir_key r) \<notin> lost"
    and "owner_index sample_hosts ''a'' \<in> lost"
    by (auto simp: sample_owner)
  moreover from rs this(3) have "rs = []" by (cases rs) auto
  ultimately have "snd (handle_list ref_libs sample_env ''n1'' (Inr (js_write_keys sample_env [''a''])) ?w) =
      Inr (empty_response NOT_FOUND)" by (simp add: sample_hosts_def)
  with w1(2) abs show ?thesis by (intro exI [of _ ?w]) simp
qed

text \<open>
  C15. A range query at any node answers 404 if the key is no sorted set, and otherwise with
  exactly the members whose scores lie in the range, each once, in ascending order of scores. A
  range with the ends the wrong way round makes the request fail at the owner of the key and is
  answered with 500 at every other node.
\<close>

theorem zrange_cluster:
  assumes "libs_ok L" and "env_ok E" and "cluster_ok L hosts w" and "net_ok w" and "i < length hosts"
  shows "case sp_zs (cluster_abs L hosts w) k of
      None \<Rightarrow> snd (handle_zrange L E (hosts ! i) k (Inr (js_write_score_range E r)) w) = Inr (empty_response NOT_FOUND)
    | Some m \<Rightarrow>
        (if max_score r < min_score r
         then snd (handle_zrange L E (hosts ! i) k (Inr (js_write_score_range E r)) w) =
           (if owner_index hosts k = i then Inl Range_Start_After_End
            else Inr (empty_response INTERNAL_SERVER_ERROR))
         else \<exists>svs. snd (handle_zrange L E (hosts ! i) k (Inr (js_write_score_range E r)) w) =
             Inr (ok_response (js_write_score_values E svs)) \<and>
           set svs = range_answer m r \<and> distinct svs \<and> sorted (map sv_score svs))"
  using handle_zrange_cluster [OF assms, of k r] by (auto split: option.splits)

theorem zrange_cluster_witness:
  "snd (handle_zrange ref_libs sample_env ''n2'' ''z''
      (Inr (js_write_score_range sample_env \<lparr>min_score = 0, max_score = 9\<rparr>)) sample_world) =
     Inr (empty_response NOT_FOUND)"
  using zrange_cluster [OF ref_libs_ok sample_env_ok sample_world_ok, of 1 "''z''" "\<lparr>min_score = 0, max_score = 9\<rparr>"]
  by (simp add: sample_hosts_def sample_world_abs [unfolded sample_hosts_def] spec_empty_def)

text \<open>
  C24. When the owner of a command's key is another node, the answer is 200 exactly if the call
  and its reply arrive, and 500 otherwise; a 500 does not say whether the command was executed:
  it was when the reply was lost and was not when the request was.
\<close>

theorem lossy_command:
  assumes "libs_ok L" and "env_ok E" and "cluster_ok L hosts w" and "i < length hosts"
    and "owner_index hosts (cmd_key c) \<noteq> i"
  shows "\<exists>w'. send_cmd L E (hosts ! i) c w =
      (w', Inr (if w_fate w (w_calls w) = Delivered then ok_response ''''
                else empty_response INTERNAL_SERVER_ERROR)) \<and>
    cluster_ok L hosts w' \<and>
    cluster_abs L hosts w' = (if w_fate w (w_calls w) = Lost_request then cluster_abs L hosts w
      else spec_step c (cluster_abs L hosts w))"
  using assms by (rule send_cmd_fate)

theorem lossy_command_witness:
  "\<exists>w'. send_cmd ref_libs sample_env ''n1'' (Add ''a'' ''1'') (sample_world\<lparr>w_fate := (\<lambda>_. Lost_reply)\<rparr>) =
      (w', Inr (empty_response INTERNAL_SERVER_ERROR)) \<and>
    sp_kv (cluster_abs ref_libs sample_hosts w') ''a'' = Some ''1''"
proof -
  let ?w = "sample_world\<lparr>w_fate := (\<lambda>_. Lost_reply)\<rparr>"
  have "cluster_ok ref_libs sample_hosts ?w" using sample_world_ok(1) by (simp add: cluster_ok_def)
  moreover have "0 < length sample_hosts" by (simp add: sample_hosts_def)
  moreover have "owner_index sample_hosts (cmd_key (Add ''a'' ''1'')) \<noteq> 0" by (simp add: sample_owner)
  ultimately have "\<exists>w'. send_cmd ref_libs sample_env (sample_hosts ! 0) (Add ''a'' ''1'') ?w =
      (w', Inr (if w_fate ?w (w_calls ?w) = Delivered then ok_response ''''
                else empty_response INTERNAL_SERVER_ERROR)) \<and>
      cluster_ok ref_libs sample_hosts w' \<and>
      cluster_abs ref_libs sample_hosts w' =
        (if w_fate ?w (w_calls ?w) = Lost_request then cluster_abs ref_libs sample_hosts ?w
         else spec_step (Add ''a'' ''1'') (cluster_abs ref_libs sample_hosts ?w))"
    by (rule lossy_command [OF ref_libs_ok sample_env_ok])
  then obtain w' where "send_cmd ref_libs sample_env (sample_hosts ! 0) (Add ''a'' ''1'') ?w =
      (w', Inr (empty_response INTERNAL_SERVER_ERROR))"
    "cluster_abs ref_libs sample_hosts w' = spec_step (Add ''a'' ''1'') (cluster_abs ref_libs sample_hosts ?w)"
    by auto
  then show ?thesis by (intro exI [of _ w']) (simp add: sample_hosts_def)
qed

text \<open>
  All nodes of a cluster place a key on the same shard, whichever node is asked, and exactly
  one node takes the shard for its own.
\<close>

theorem one_owner:
  assumes "cluster_ok L hosts w" and "i < length hosts" and "j < length hosts"
  shows "local_shard (hosts ! i) k w = local_shard (hosts ! j) k w \<and>
    (local_shard (hosts ! i) k w = st_me (w_node w (hosts ! i)) \<and>
     local_shard (hosts ! j) k w = st_me (w_node w (hosts ! j)) \<longrightarrow> i = j) \<and>
    (\<exists>m < length hosts. local_shard (hosts ! m) k w = st_me (w_node w (hosts ! m)))"
proof -
  note mine = local_shard_me [OF assms(1), of _ k]
  have "owner_index hosts k < length hosts" using cluster_okD(1) [OF assms(1)] by (rule owner_index_less)
  then have "\<exists>m < length hosts. local_shard (hosts ! m) k w = st_me (w_node w (hosts ! m))"
    using mine by blast
  moreover have "local_shard (hosts ! i) k w = local_shard (hosts ! j) k w"
    using unat_local_shard [OF assms(1,2), of k] unat_local_shard [OF assms(1,3), of k]
    by (simp add: word_unat_eq_iff)
  moreover have "local_shard (hosts ! i) k w = st_me (w_node w (hosts ! i)) \<and>
     local_shard (hosts ! j) k w = st_me (w_node w (hosts ! j)) \<longrightarrow> i = j"
    unfolding mine [OF assms(2)] mine [OF assms(3)] by simp
  ultimately show ?thesis by simp
qed

theorem one_owner_witness:
  "local_shard ''n1'' ''a'' sample_world = local_shard ''n2'' ''a'' sample_world"
  using one_owner [OF sample_world_ok(1), of 0 1 "''a''"] by (simp add: sample_hosts_def)

text \<open>
  A node that has run \<open>update_peers\<close> with the list of hosts and its place in it (counted
  from 1) knows its own index and the number of shards, and has a working connection queue to
  every host in order; its contents are what they were.
\<close>

theorem joining:
  assumes "update_peers E hosts (word_of_nat (Suc i)) attempts s = (s', Inr ())"
    and "\<forall>p \<in> set hosts. env_parse_addr E (p @ peer_port) = Some p" and "storage_ok L s"
  shows "node_ok L hosts i s' \<and> storage_abs L s' = storage_abs L s"
proof -
  have "storage_abs L s' = storage_abs L s"
    using assms(1) by (auto simp: update_peers_def Let_def storage_abs_def kv_of_def zs_of_def fun_eq_iff
        split: option.splits sum.splits)
  with join_node_ok [OF assms] show ?thesis by simp
qed

theorem joining_witness: "node_ok ref_libs sample_hosts 1 (sample_node 1)"
  using joining [OF sample_joined [of 1], of ref_libs]
  by (simp add: sample_parse new_storage_ok ref_libs_ok)

text \<open>
  C30. The index of a joining node comes unchecked from the cluster file. Whatever it is, every
  shard the node computes is below the number of hosts, so no forwarded call leaves its pool;
  its own index is the given one less one, modulo \<open>2 ^ 32\<close>. With the index 0 it wraps to
  \<open>2 ^ 32 - 1\<close>, and then, or with an index above the number of hosts, no key at all is its own.
\<close>

theorem shard_bounds:
  assumes "update_peers E hosts index attempts s = (s', Inr ())" and "hosts \<noteq> []" and "length hosts < 2 ^ 32"
    and "\<forall>p \<in> set hosts. env_parse_addr E (p @ peer_port) = Some p"
  shows "(\<forall>key. unat (shard_u32 key (st_count s')) < length (ci_pool (st_cluster s'))) \<and>
    unat (st_me s') = (if index = 0 then 2 ^ 32 - 1 else unat index - 1) \<and>
    (index = 0 \<or> length hosts < unat index \<longrightarrow> (\<forall>key. shard_u32 key (st_count s') \<noteq> st_me s'))"
proof -
  from assms(1) obtain qs where qs: "pool_new (env_parse_addr E) hosts attempts = Some (Inr qs)"
    and s': "s' = s\<lparr>st_peer_updated := True, st_me := index - 1,
      st_count := word_of_nat (length hosts), st_cluster := (st_cluster s)\<lparr>ci_pool := qs\<rparr>\<rparr>"
    by (auto simp: update_peers_def Let_def split: option.splits sum.splits)
  from pool_new_ok [OF qs, of "\<lambda>p. p"] assms(4) have "map q_addr qs = map (\<lambda>p. p) hosts" by simp
  then have len: "length qs = length hosts" by (metis length_map)
  have shard: "unat (shard_u32 key (st_count s')) < length hosts" for key
    using assms(2,3) by (simp add: s' unat_shard_u32)
  have me: "unat (st_me s') = (if index = 0 then 2 ^ 32 - 1 else unat index - 1)"
  proof (cases "index = 0")
    case False
    then show ?thesis by (simp add: s' unat_minus_one)
  qed (simp add: s' unsigned_minus_1_eq_mask mask_eq_exp_minus_1)
  have "shard_u32 key (st_count s') \<noteq> st_me s'" if "index = 0 \<or> length hosts < unat index" for key
    using shard [of key] me assms(3) that by (auto split: if_splits)
  with shard me show ?thesis by (simp add: s' len)
qed

theorem shard_bounds_witness:
  "unat (st_me (sample_node (2 ^ 32 - 1))) = 2 ^ 32 - 1 \<and>
   shard_u32 (Hash_str ''a'') (st_count (sample_node (2 ^ 32 - 1))) \<noteq> st_me (sample_node (2 ^ 32 - 1))"
proof -
  have "(word_of_nat (Suc (2 ^ 32 - 1)) :: u32) = 0" by simp
  with sample_joined [of "2 ^ 32 - 1"]
  have "update_peers sample_env sample_hosts 0 (replicate 32 True) (new_storage ref_libs [] []) =
      (sample_node (2 ^ 32 - 1), Inr ())"
    by (simp only:)
  from shard_bounds [OF this] show ?thesis by (simp add: sample_parse sample_hosts_def)
qed

theorem init_history_witness:
  "w_loaders (fold (init_event_step ref_libs sample_env ''n1'') [Init_request, Update_request (Inr ''x''), Init_request]
      sample_world) ''n1'' \<le> 1"
proof -
  have "w_loaders sample_world ''n1'' = (if st_load_state (w_node sample_world ''n1'') = LOAD_STATE_INIT then 0 else 1)"
    by (simp add: sample_world_def sample_node_def update_peers_frame new_storage_def)
  from init_history [OF this, of ref_libs sample_env "[Init_request, Update_request (Inr ''x''), Init_request]"]
  show ?thesis by simp
qed

section \<open>Loading the initial data\<close>

text \<open>A process whose peers are set, with one directory to load, for the witnesses.\<close>

type_synonym sample_loading =
  "(string \<Rightarrow> string option, string \<Rightarrow> u32 option, string \<Rightarrow> nat option, (bytes \<times> bytes) list) loading"

definition loading_of :: "nat list \<Rightarrow> sample_loading" where
  "loading_of cores = \<lparr>ld_store = (new_storage ref_libs [] [])
     \<lparr>st_peer_updated := True, st_count := 2, st_me := 0, st_all_cores := cores\<rparr>,
     ld_file = None, ld_requests = [], ld_inits = [], ld_workers = []\<rparr>"

lemma loading_of_start: "load_start (loading_of cores)" "settled 2 0 (loading_of cores)"
  "st_all_cores (ld_store (loading_of cores)) = cores"
  by (simp_all add: load_start_def settled_def loading_of_def new_storage_def)

lemma loading_of_claimed:
  "\<exists>s'. load_run ref_libs loader_env (loading_of cores) [Request_arrives, Request_runs 0, Request_runs 0] s' \<and>
     st_load_state (ld_store s') = LOAD_STATE_LOADING"
  by (rule can_claim [OF loading_of_start(1)]) (simp add: loading_of_def)

lemma loading_of_loaded:
  "\<exists>ls s'. load_run ref_libs loader_env (loading_of [0]) ls s' \<and> (\<forall>c. Data c \<notin> set ls) \<and>
     File_changes \<notin> set ls \<and> st_load_state (ld_store s') = LOAD_STATE_LOADED"
  by (rule can_load [OF loading_of_start(1)]) (simp_all add: loading_of_def)

text \<open>
  C11. However requests, loading threads, data commands and changes of the cluster file
  interleave, a process has at most one loading thread, exactly when it has left the state
  \<open>INIT\<close>; and \<open>/init\<close> can only answer \<open>ok\<close>, the state being \<open>LOADED\<close>, when that thread is
  done and every copying thread has finished.
\<close>

theorem single_loader:
  assumes "load_run L E s ls s'" and "load_start s"
  shows "length (ld_inits s') = (if st_load_state (ld_store s') = LOAD_STATE_INIT then 0 else 1) \<and>
    (st_load_state (ld_store s') = LOAD_STATE_LOADED \<longrightarrow>
      ld_inits s' = [Init_done] \<and> (\<forall>pc \<in> set (ld_workers s'). pc = Finished))"
proof -
  have inv: "load_inv s'" by (rule load_inv_run [OF assms(1) load_inv_start [OF assms(2)]])
  then have "length (ld_inits s') = (if st_load_state (ld_store s') = LOAD_STATE_INIT then 0 else 1)"
    by (auto simp: load_inv_def)
  with loaded_finished [OF inv] show ?thesis by blast
qed

theorem single_loader_witness:
  "\<exists>ls s'. load_run ref_libs loader_env (loading_of [0]) ls s' \<and> ld_inits s' = [Init_done] \<and>
     (\<forall>pc \<in> set (ld_workers s'). pc = Finished)"
  using loading_of_loaded single_loader [OF _ loading_of_start(1)] by metis

text \<open>
  C9. When loading is over, with the peers set beforehand (or no cluster file to set them from) and
  no data command in between, the store holds every entry of the directories that opened whose
  bytes hash to the node's own shard, and everything else is as it was before; the directories must
  not contradict each other on a key. A node on its own, joined or not, takes every entry.
\<close>

theorem loaded_contents:
  assumes "libs_ok L" and "load_run L E s ls s'" and "load_start s" and "settled peers me s"
    and "agree E peers me" and "\<forall>c. Data c \<notin> set ls" and "st_peer_updated (ld_store s) \<or> File_changes \<notin> set ls"
    and "st_load_state (ld_store s') = LOAD_STATE_LOADED"
  shows "(\<forall>e \<in> own_entries E peers me.
      kv_of L (ld_store s') (from_utf8_unchecked (fst e)) = Some (from_utf8_unchecked (snd e))) \<and>
    (\<forall>k. (\<forall>e \<in> own_entries E peers me. from_utf8_unchecked (fst e) \<noteq> k) \<longrightarrow>
      kv_of L (ld_store s') k = kv_of L (ld_store s) k) \<and>
    (peers \<in> {0, 1} \<longrightarrow> me = 0 \<longrightarrow> own_entries E peers me = dirs_entries E (init_dirs E))"
proof -
  have "load_inv s' \<and> copy_inv L E peers me (kv_of L (ld_store s)) s'"
    using copy_inv_run [OF assms(1,5,2,6,7,4) load_inv_start [OF assms(3)] copy_inv_start [OF assms(3)]] by simp
  moreover have "own_entries E peers 0 = dirs_entries E (init_dirs E)" if "peers \<in> {0, 1}"
    using that by (auto simp: own_entries_def own_entry_def shard_u32_def get_shard_def)
  ultimately show ?thesis using copy_inv_loaded [OF _ _ assms(8)] by blast
qed

theorem loaded_contents_witness:
  "\<exists>ls s'. load_run ref_libs loader_env (loading_of [0]) ls s' \<and> kv_of ref_libs (ld_store s') ''a'' = Some ''v''"
proof -
  from loading_of_loaded obtain ls s' where run: "load_run ref_libs loader_env (loading_of [0]) ls s'"
    and no_data: "\<forall>c. Data c \<notin> set ls" and no_file: "File_changes \<notin> set ls"
    and loaded: "st_load_state (ld_store s') = LOAD_STATE_LOADED" by blast
  from loaded_contents [OF ref_libs_ok run loading_of_start(1,2) loader_env_entries(2) no_data disjI2 [OF no_file] loaded]
  have "kv_of ref_libs (ld_store s') ''a'' = Some ''v''"
    by (simp add: loader_env_entries(1) bytes_simps)
  with run show ?thesis by blast
qed

text \<open>
  C19. Loading does not get stuck on a node that knows its cores: from every state in which the
  node is loading, the loading threads alone bring it to \<open>LOADED\<close>, in at most as many steps as
  \<open>load_left\<close> counts, and every step a loading thread takes lowers that number, so no schedule
  keeps them busy for ever.
\<close>

theorem loading_terminates:
  assumes "load_run L E s ls s1" and "load_start s" and "st_all_cores (ld_store s) \<noteq> []"
    and "st_load_state (ld_store s1) = LOAD_STATE_LOADING"
  shows "(\<exists>ls' s'. load_run L E s1 ls' s' \<and> (\<forall>l \<in> set ls'. loader_label l) \<and> length ls' \<le> load_left E s1 \<and>
      st_load_state (ld_store s') = LOAD_STATE_LOADED) \<and>
    (\<forall>l s2. load_step L E s1 l s2 \<longrightarrow> loader_label l \<longrightarrow> load_left E s2 < load_left E s1)"
proof -
  have inv: "load_inv s1" by (rule load_inv_run [OF assms(1) load_inv_start [OF assms(2)]])
  have "cores_inv E (st_all_cores (ld_store s)) s1"
    by (rule cores_inv_run [OF assms(1) cores_inv_start [OF assms(2)]])
  from loading_completes [OF inv this _ assms(4)] assms(3) load_left_less [OF _ inv] show ?thesis by blast
qed

theorem loading_terminates_witness:
  "\<exists>ls s'. load_run ref_libs loader_env (loading_of [0]) ls s' \<and> st_load_state (ld_store s') = LOAD_STATE_LOADED"
proof -
  from loading_of_claimed [of "[0]"] obtain s1 where
    run: "load_run ref_libs loader_env (loading_of [0]) [Request_arrives, Request_runs 0, Request_runs 0] s1"
    and s1: "st_load_state (ld_store s1) = LOAD_STATE_LOADING" by blast
  from loading_terminates [OF run loading_of_start(1) _ s1] obtain ls s' where
    "load_run ref_libs loader_env s1 ls s'" "st_load_state (ld_store s') = LOAD_STATE_LOADED"
    by (auto simp: loading_of_start)
  with load_run_append [OF _ run] show ?thesis by blast
qed

text \<open>
  C26. A node whose list of cores is empty (the runtimes that never fill it) and that is given
  directories to load never gets there: its loading thread panics and \<open>/init\<close> answers
  \<open>loading\<close> for ever.
\<close>

theorem loading_stuck:
  assumes "load_run L E s ls s'" and "load_start s" and "st_all_cores (ld_store s) = []"
    and "init_dirs E \<noteq> []"
  shows "st_load_state (ld_store s') \<noteq> LOAD_STATE_LOADED"
  using assms by (rule stuck_without_cores)

theorem loading_stuck_witness:
  "\<exists>s'. load_run ref_libs loader_env (loading_of []) [Request_arrives, Request_runs 0, Request_runs 0] s' \<and>
     st_load_state (ld_store s') \<noteq> LOAD_STATE_LOADED"
  using loading_of_claimed [of "[]"] loading_stuck [OF _ loading_of_start(1)]
  by (metis loading_of_start(3) loader_env_dirs list.distinct(1))

text \<open>
  C25. A node that is asked to load before it has joined keeps the whole of the initial data. Its
  copying threads read no shard count, so they take every entry; once the cluster file has been
  written, another \<open>/init\<close> joins the node and answers \<open>ok\<close> at once; and from then on, whatever
  requests come, every entry stays until a data command changes it, the entries that belong to
  other nodes included, and nothing loads again.
\<close>

theorem loading_before_joining:
  assumes "libs_ok L" and "load_run L E s ls s1" and "load_start s" and "settled 0 0 s"
    and "ld_file s = None" and "\<not> st_peer_updated (ld_store s)" and "agree E 0 0"
    and "\<forall>c. Data c \<notin> set ls" and "File_changes \<notin> set ls" and "st_load_state (ld_store s1) = LOAD_STATE_LOADED"
    and "js_read_cluster E data = Some info" and "pool_new (env_parse_addr E) (uc_hosts info) attempts = Some (Inr qs)"
  shows "(\<exists>s2. load_run L E s1 ([File_changes, Request_arrives] @ replicate 4 (Request_runs (length (ld_requests s1)))) s2 \<and>
      st_count (ld_store s2) = word_of_nat (length (uc_hosts info)) \<and> st_me (ld_store s2) = uc_index info - 1 \<and>
      ci_pool (st_cluster (ld_store s2)) = qs \<and> last (ld_requests s2) = Rq_done (ok_response ''ok'')) \<and>
    (\<forall>ls' s3. load_run L E s1 ls' s3 \<longrightarrow> (\<forall>c. Data c \<notin> set ls') \<longrightarrow>
      st_load_state (ld_store s3) = LOAD_STATE_LOADED \<and> (\<forall>e \<in> dirs_entries E (init_dirs E).
        kv_of L (ld_store s3) (from_utf8_unchecked (fst e)) = Some (from_utf8_unchecked (snd e))))"
proof -
  have "(settled 0 0 s1 \<and> st_peer_updated (ld_store s1) = st_peer_updated (ld_store s)) \<and>
      load_inv s1 \<and> copy_inv L E 0 0 (kv_of L (ld_store s)) s1"
    using copy_inv_run [OF assms(1,7,2,8) disjI2 [OF assms(9)] assms(4) load_inv_start [OF assms(3)]
        copy_inv_start [OF assms(3)]] .
  then have alone: "\<not> st_peer_updated (ld_store s1)" and inv: "load_inv s1"
    and copied: "copy_inv L E 0 0 (kv_of L (ld_store s)) s1" using assms(6) by simp_all
  have "own_entries E 0 0 = dirs_entries E (init_dirs E)"
    by (auto simp: own_entries_def own_entry_def shard_u32_def get_shard_def)
  then have all: "\<forall>e \<in> dirs_entries E (init_dirs E).
      kv_of L (ld_store s1) (from_utf8_unchecked (fst e)) = Some (from_utf8_unchecked (snd e))"
    using copy_inv_loaded(1) [OF copied inv assms(10)] by simp
  show ?thesis
    using can_join_loaded [OF alone assms(10-12)] all loaded_run [OF _ inv assms(10)] by fastforce
qed

text \<open>The second of two nodes loads and then joins: it keeps the key \<open>a\<close>, whose shard is the first.\<close>

definition late_env :: env where
  "late_env = loader_env\<lparr>js_read_cluster := (\<lambda>_. Some \<lparr>uc_hosts = sample_hosts, uc_index = 2\<rparr>)\<rparr>"

definition lone_node :: sample_loading where
  "lone_node = \<lparr>ld_store = (new_storage ref_libs [] [])\<lparr>st_all_cores := [0]\<rparr>, ld_file = None,
     ld_requests = [], ld_inits = [], ld_workers = []\<rparr>"

theorem loading_before_joining_witness:
  "\<exists>ls s3. load_run ref_libs late_env lone_node ls s3 \<and> st_count (ld_store s3) = 2 \<and> st_me (ld_store s3) = 1 \<and>
    \<not> own_entry (st_count (ld_store s3)) (st_me (ld_store s3)) (as_bytes ''a'', as_bytes ''v'') \<and>
    kv_of ref_libs (ld_store s3) ''a'' = Some ''v''"
proof -
  have start: "load_start lone_node" "settled 0 0 lone_node" "ld_file lone_node = None"
    "\<not> st_peer_updated (ld_store lone_node)" "st_all_cores (ld_store lone_node) \<noteq> []"
    by (simp_all add: load_start_def settled_def lone_node_def new_storage_def)
  from can_load [OF start(1,3,5)] obtain ls s1 where run: "load_run ref_libs late_env lone_node ls s1"
    and no_data: "\<forall>c. Data c \<notin> set ls" and no_file: "File_changes \<notin> set ls"
    and loaded: "st_load_state (ld_store s1) = LOAD_STATE_LOADED" by blast
  have dirs: "dirs_entries late_env (init_dirs late_env) = {(as_bytes ''a'', as_bytes ''v'')}"
    by (simp add: dirs_entries_def init_dirs_def late_env_def loader_env_def)
  then have agree: "agree late_env 0 0" by (auto simp: agree_def own_entries_def)
  have info: "js_read_cluster late_env '''' = Some \<lparr>uc_hosts = sample_hosts, uc_index = 2\<rparr>"
    by (simp add: late_env_def)
  have "env_parse_addr late_env = env_parse_addr sample_env" by (simp add: late_env_def loader_env_def)
  then have "\<exists>qs. pool_new (env_parse_addr late_env) sample_hosts (replicate 32 True) = Some (Inr qs)"
    by (subst pool_new_returns) (simp_all add: sample_parse sample_hosts_def count_list_replicate_same)
  then obtain qs where pool: "pool_new (env_parse_addr late_env)
      (uc_hosts \<lparr>uc_hosts = sample_hosts, uc_index = 2\<rparr>) (replicate 32 True) = Some (Inr qs)" by auto
  note both = loading_before_joining [OF ref_libs_ok run start(1-4) agree no_data no_file loaded info pool]
  from both obtain ls2 s2 where run2: "load_run ref_libs late_env s1 ls2 s2" and quiet: "\<forall>c. Data c \<notin> set ls2"
    and joined: "st_count (ld_store s2) = 2" "st_me (ld_store s2) = 1"
    by (auto simp: sample_hosts_def)
  from both run2 quiet have "kv_of ref_libs (ld_store s2) ''a'' = Some ''v''"
    by (auto simp: dirs bytes_simps)
  with load_run_append [OF run2 run] joined show ?thesis
    by (intro exI conjI) (simp_all add: own_entry_def shards_of_a)
qed

end
